(* ===== verification/Prelude.thy ===== *)
theory Prelude
  imports Complex_Main "HOL-Library.Word"
begin

text \<open>
  What every component of the trading engine shares: the ways a C++ call can end other than by
  returning (a thrown standard exception, or undefined behaviour), sequencing of such calls, the
  C++ number types the engine uses, and the generic lemmas and fact collections the component
  theories build on.

  \<^item> \<open>'a result\<close> is the outcome of a call: \<open>Inl e\<close> when it throws \<open>e\<close> or has undefined behaviour,
    \<open>Inr x\<close> when it returns \<open>x\<close>.
  \<^item> \<open>double\<close> is an IEEE 754 value as far as the engine can tell them apart: a finite number, the
    infinities and NaN. Prices are only compared, stored and copied by the matching code, never
    computed with, so a finite value is the rational number it denotes. \<open>operator<\<close> and
    \<open>operator<=\<close> are unordered on NaN. The two zeros compare equal and are one value here.
  \<^item> \<open>int32\<close> is the range of the C++ type \<open>int\<close>; leaving it is undefined behaviour.
\<close>

section \<open>Outcomes of C++ calls\<close>

datatype cpp_error =
    invalid_argument string
  | logic_error string
  | runtime_error string
  | undefined_behaviour

type_synonym 'a result = "cpp_error + 'a"

definition bindE :: "'a result \<Rightarrow> ('a \<Rightarrow> 'b result) \<Rightarrow> 'b result" where
  "bindE r f = (case r of Inl e \<Rightarrow> Inl e | Inr x \<Rightarrow> f x)"

text \<open>A loop over \<open>xs\<close> whose body may throw.\<close>

fun mapE :: "('a \<Rightarrow> 'b result) \<Rightarrow> 'a list \<Rightarrow> 'b list result" where
  "mapE f [] = Inr []"
| "mapE f (x # xs) = bindE (f x) (\<lambda>y. bindE (mapE f xs) (\<lambda>ys. Inr (y # ys)))"

text \<open>A call that changes its object as it goes and may throw part way: what the object is afterwards
  in either case.\<close>

datatype 'e outcome = Returns 'e | Throws cpp_error 'e

fun after :: "'e outcome \<Rightarrow> 'e" where
  "after (Returns e) = e"
| "after (Throws _ e) = e"

fun thrown :: "'e outcome \<Rightarrow> cpp_error option" where
  "thrown (Returns _) = None"
| "thrown (Throws err _) = Some err"

section \<open>C++ numbers\<close>

datatype double = Finite rat | PosInf | NegInf | NaN

fun isfinite :: "double \<Rightarrow> bool" where
  "isfinite (Finite _) = True"
| "isfinite _ = False"

instantiation double :: ord
begin

fun less_double :: "double \<Rightarrow> double \<Rightarrow> bool" where
  "less_double NaN _ = False"
| "less_double _ NaN = False"
| "less_double PosInf _ = False"
| "less_double _ NegInf = False"
| "less_double NegInf _ = True"
| "less_double _ PosInf = True"
| "less_double (Finite x) (Finite y) = (x < y)"

definition less_eq_double :: "double \<Rightarrow> double \<Rightarrow> bool" where
  "less_eq_double a b \<longleftrightarrow> a \<noteq> NaN \<and> b \<noteq> NaN \<and> (a < b \<or> a = b)"

instance ..

end

abbreviation dzero :: double where
  "dzero \<equiv> Finite 0"

text \<open>The comparators of the two price-level maps: \<open>std::less\<close> and \<open>std::greater\<close>.\<close>

definition std_less :: "double \<Rightarrow> double \<Rightarrow> bool" where
  "std_less a b \<longleftrightarrow> a < b"

definition std_greater :: "double \<Rightarrow> double \<Rightarrow> bool" where
  "std_greater a b \<longleftrightarrow> b < a"

definition int32 :: "int \<Rightarrow> bool" where
  "int32 x \<longleftrightarrow> - (2 ^ 31) \<le> x \<and> x < 2 ^ 31"

definition int_sub :: "int \<Rightarrow> int \<Rightarrow> int result" where
  "int_sub a b = (if int32 (a - b) then Inr (a - b) else Inl undefined_behaviour)"

definition int_add :: "int \<Rightarrow> int \<Rightarrow> int result" where
  "int_add a b = (if int32 (a + b) then Inr (a + b) else Inl undefined_behaviour)"

section \<open>Fact collections\<close>

text \<open>\<open>untime\<close> collects how the operations commute with forgetting every clock reading; \<open>plug_ins\<close>
  collects what the plug-in calls of the engine leave alone.\<close>

named_theorems untime
named_theorems plug_ins

section \<open>Shared lemmas\<close>

subsection \<open>Sequencing of outcomes\<close>

lemma bindE_Inr [simp]: "bindE (Inr x) f = f x"
  by (simp add: bindE_def)

lemma bindE_Inl [simp]: "bindE (Inl e) f = Inl e"
  by (simp add: bindE_def)

lemma bindE_eq_Inr: "bindE r f = Inr y \<longleftrightarrow> (\<exists>x. r = Inr x \<and> f x = Inr y)"
  by (cases r) simp_all

lemma bindE_eq_Inl: "bindE r f = Inl e \<longleftrightarrow> r = Inl e \<or> (\<exists>x. r = Inr x \<and> f x = Inl e)"
  by (cases r) auto

lemma bindE_cong [fundef_cong]:
  "r = r' \<Longrightarrow> (\<And>x. r' = Inr x \<Longrightarrow> f x = f' x) \<Longrightarrow> bindE r f = bindE r' f'"
  by (cases r') simp_all

lemma bindE_assoc: "bindE (bindE r f) g = bindE r (\<lambda>x. bindE (f x) g)"
  by (cases r) simp_all

lemma mapE_Inr: "(\<And>x. x \<in> set xs \<Longrightarrow> f x = Inr (g x)) \<Longrightarrow> mapE f xs = Inr (map g xs)"
  by (induction xs) simp_all

subsection \<open>Comparison of doubles\<close>

lemma less_double_irrefl [simp]: "\<not> (a :: double) < a"
  by (cases a) simp_all

lemma less_double_trans: "(a :: double) < b \<Longrightarrow> b < c \<Longrightarrow> a < c"
  by (cases a; cases b; cases c) simp_all

lemma less_double_total: "isfinite a \<Longrightarrow> isfinite b \<Longrightarrow> (a :: double) < b \<or> a = b \<or> b < a"
  by (cases a; cases b) auto

lemma less_eq_double_Finite [simp]: "Finite x \<le> Finite y \<longleftrightarrow> x \<le> y"
  by (auto simp: less_eq_double_def)

lemma not_less_double: "isfinite a \<Longrightarrow> isfinite b \<Longrightarrow> \<not> (a :: double) < b \<longleftrightarrow> b \<le> a"
  by (cases a; cases b) auto

lemma not_less_eq_double: "isfinite a \<Longrightarrow> isfinite b \<Longrightarrow> \<not> (a :: double) \<le> b \<longleftrightarrow> b < a"
  by (cases a; cases b) auto

lemma less_double_not_le: "(a :: double) < b \<Longrightarrow> \<not> b \<le> a"
  by (cases a; cases b) (simp_all add: less_eq_double_def)

lemma less_eq_double_refl [simp]: "a \<le> (a :: double) \<longleftrightarrow> a \<noteq> NaN"
  by (auto simp: less_eq_double_def)

lemma less_less_eq_double_trans: "(a :: double) < b \<Longrightarrow> b \<le> c \<Longrightarrow> a < c"
  by (auto simp: less_eq_double_def dest: less_double_trans)

lemma less_eq_less_double_trans: "(a :: double) \<le> b \<Longrightarrow> b < c \<Longrightarrow> a < c"
  by (auto simp: less_eq_double_def dest: less_double_trans)

lemma less_double_imp_le: "(a :: double) < b \<Longrightarrow> a \<le> b"
  by (cases a; cases b) (auto simp: less_eq_double_def)

subsection \<open>Bounded integers\<close>

lemma int_sub_nonneg: "int32 a \<Longrightarrow> 0 \<le> b \<Longrightarrow> b \<le> a \<Longrightarrow> int_sub a b = Inr (a - b)"
  by (auto simp: int_sub_def int32_def)

lemma int32_pos_range [simp]: "0 \<le> x \<Longrightarrow> x \<le> y \<Longrightarrow> int32 y \<Longrightarrow> int32 x"
  by (auto simp: int32_def)

lemma unat64_less: "unat (w :: 64 word) < 2 ^ 64"
proof -
  have "unat w < 2 ^ LENGTH(64)" by (rule unsigned_less)
  then show ?thesis by simp
qed

end
