(* ===== verification/StdMap.thy ===== *)
theory StdMap
  imports Prelude
begin

text \<open>
  \<open>std::map\<close> as the order book uses it: a map kept in the order of its comparator. A map is the
  list of its key-value pairs in iteration order, so \<open>begin()\<close> is the head of the list and
  \<open>empty()\<close> is being \<open>[]\<close>. Two keys are the same entry when neither is before the other in the
  comparator, as in the C++ standard. The operations take the comparator as their first argument;
  the locale \<open>key_order\<close> is what they need of it, and it is interpreted on the two comparators of
  the order book, \<open>std::less\<close> for asks and \<open>std::greater\<close> for bids.
\<close>

section \<open>Operations\<close>

type_synonym ('k, 'v) std_map = "('k \<times> 'v) list"

fun map_find :: "('k \<Rightarrow> 'k \<Rightarrow> bool) \<Rightarrow> 'k \<Rightarrow> ('k, 'v) std_map \<Rightarrow> 'v option" where
  "map_find lt k [] = None"
| "map_find lt k ((q, v) # m) =
     (if lt q k then map_find lt k m else if lt k q then None else Some v)"

text \<open>\<open>m[k]\<close> used as a reference: the entry is created with the default value \<open>d\<close> when it is
  missing, then the value it refers to is changed by \<open>f\<close>.\<close>

fun map_at :: "('k \<Rightarrow> 'k \<Rightarrow> bool) \<Rightarrow> 'v \<Rightarrow> 'k \<Rightarrow> ('v \<Rightarrow> 'v) \<Rightarrow> ('k, 'v) std_map \<Rightarrow> ('k, 'v) std_map" where
  "map_at lt d k f [] = [(k, f d)]"
| "map_at lt d k f ((q, v) # m) =
     (if lt q k then (q, v) # map_at lt d k f m
      else if lt k q then (k, f d) # (q, v) # m
      else (q, f v) # m)"

text \<open>\<open>m.erase(it)\<close> for the entry found under \<open>k\<close>.\<close>

fun map_erase :: "('k \<Rightarrow> 'k \<Rightarrow> bool) \<Rightarrow> 'k \<Rightarrow> ('k, 'v) std_map \<Rightarrow> ('k, 'v) std_map" where
  "map_erase lt k [] = []"
| "map_erase lt k ((q, v) # m) =
     (if lt q k then (q, v) # map_erase lt k m else if lt k q then (q, v) # m else m)"

text \<open>A well-formed map: its keys are in use and in strictly increasing comparator order.\<close>

definition map_inv :: "('k \<Rightarrow> 'k \<Rightarrow> bool) \<Rightarrow> ('k \<Rightarrow> bool) \<Rightarrow> ('k, 'v) std_map \<Rightarrow> bool" where
  "map_inv lt ok m \<longleftrightarrow> sorted_wrt lt (map fst m) \<and> (\<forall>k \<in> fst ` set m. ok k)"

section \<open>Laws, for any comparator that is a strict order on the keys in use\<close>

locale key_order =
  fixes lt :: "'k \<Rightarrow> 'k \<Rightarrow> bool" and ok :: "'k \<Rightarrow> bool"
  assumes irrefl: "\<not> lt a a"
    and trans: "lt a b \<Longrightarrow> lt b c \<Longrightarrow> lt a c"
    and total: "ok a \<Longrightarrow> ok b \<Longrightarrow> lt a b \<or> a = b \<or> lt b a"
begin

lemma map_inv_Nil [simp]: "map_inv lt ok []"
  by (simp add: map_inv_def)

lemma map_inv_Cons [simp]:
  "map_inv lt ok ((q, v) # m) \<longleftrightarrow> ok q \<and> (\<forall>k \<in> fst ` set m. lt q k) \<and> map_inv lt ok m"
  by (auto simp: map_inv_def)

lemma asym: "lt a b \<Longrightarrow> \<not> lt b a"
  using irrefl trans by blast

lemma map_inv_distinct: "map_inv lt ok m \<Longrightarrow> distinct (map fst m)"
  by (induction m) (use irrefl in force)+

lemma map_find_Some:
  "map_inv lt ok m \<Longrightarrow> ok k \<Longrightarrow> map_find lt k m = Some v \<longleftrightarrow> (k, v) \<in> set m"
proof (induction m)
  case Nil
  then show ?case by simp
next
  case (Cons e m)
  obtain q w where e: "e = (q, w)" by (cases e)
  from Cons.prems have ok: "ok q" "map_inv lt ok m" and before: "\<And>k v. (k, v) \<in> set m \<Longrightarrow> lt q k"
    by (auto simp: e)
  from total [OF ok(1) Cons.prems(2)] show ?case
    using Cons.IH [OF ok(2) Cons.prems(2)] before asym
    by (auto simp: e irrefl)
qed

lemma map_find_None:
  "map_inv lt ok m \<Longrightarrow> ok k \<Longrightarrow> map_find lt k m = None \<longleftrightarrow> k \<notin> fst ` set m"
  using map_find_Some [of m k] by (cases "map_find lt k m") force+

lemma keys_map_at:
  "map_inv lt ok m \<Longrightarrow> ok k \<Longrightarrow> fst ` set (map_at lt d k f m) = insert k (fst ` set m)"
proof (induction m)
  case Nil
  then show ?case by simp
next
  case (Cons e m)
  obtain q w where e: "e = (q, w)" by (cases e)
  with Cons.prems have "ok q" "map_inv lt ok m" by simp_all
  with total [of q k] Cons show ?case by (auto simp: e)
qed

lemma map_inv_map_at: "map_inv lt ok m \<Longrightarrow> ok k \<Longrightarrow> map_inv lt ok (map_at lt d k f m)"
proof (induction m)
  case Nil
  then show ?case by simp
next
  case (Cons e m)
  obtain q w where e: "e = (q, w)" by (cases e)
  with Cons.prems have q: "ok q" "map_inv lt ok m" "\<forall>k \<in> fst ` set m. lt q k" by simp_all
  then show ?case
    using Cons keys_map_at [OF q(2) Cons.prems(2), of d f] by (auto simp: e intro: trans)
qed

lemma map_find_map_at:
  assumes "map_inv lt ok m" and "ok k" and "ok j"
  shows "map_find lt j (map_at lt d k f m) =
    (if j = k then Some (f (case map_find lt k m of None \<Rightarrow> d | Some v \<Rightarrow> v)) else map_find lt j m)"
  using assms
proof (induction m)
  case Nil
  with total [of j k] show ?case by (auto simp: irrefl)
next
  case (Cons e m)
  obtain q w where e: "e = (q, w)" by (cases e)
  with Cons.prems have q: "ok q" "map_inv lt ok m" by simp_all
  consider "lt q k" | "q = k" | "lt k q" using total [OF q(1) Cons.prems(2)] by blast
  then show ?case
  proof cases
    case 1
    with Cons q show ?thesis by (auto simp: e irrefl asym)
  next
    case 2
    with total [of j k] Cons.prems show ?thesis by (auto simp: e irrefl asym)
  next
    case 3
    with total [of j k] Cons.prems show ?thesis by (auto simp: e irrefl asym dest: trans)
  qed
qed

lemma set_map_erase: "set (map_erase lt k m) \<subseteq> set m"
  by (induction m) (auto split: if_splits)

lemma map_inv_map_erase: "map_inv lt ok m \<Longrightarrow> map_inv lt ok (map_erase lt k m)"
proof (induction m)
  case Nil
  then show ?case by simp
next
  case (Cons e m)
  obtain q w where e: "e = (q, w)" by (cases e)
  with Cons set_map_erase [of k m] show ?case by fastforce
qed

lemma map_find_map_erase:
  assumes "map_inv lt ok m" and "ok k" and "ok j"
  shows "map_find lt j (map_erase lt k m) = (if j = k then None else map_find lt j m)"
  using assms
proof (induction m)
  case Nil
  then show ?case by simp
next
  case (Cons e m)
  obtain q w where e: "e = (q, w)" by (cases e)
  with Cons.prems have q: "ok q" "map_inv lt ok m" "k \<in> fst ` set m \<longrightarrow> lt q k" "j \<in> fst ` set m \<longrightarrow> lt q j"
    by auto
  then show ?case
    using Cons.IH [OF q(2)] Cons.prems total [of q k] total [of q j] map_find_None [of m j]
    by (auto simp: e irrefl asym)
qed

end

section \<open>The two comparators of the order book\<close>

interpretation asc: key_order std_less isfinite
  by unfold_locales (auto simp: std_less_def dest: less_double_trans less_double_total)

interpretation desc: key_order std_greater isfinite
  by unfold_locales (auto simp: std_greater_def dest: less_double_trans less_double_total)

end
