(* ===== verification/Orders.thy ===== *)
theory Orders
  imports Prelude
begin

text \<open>
  \<open>include/Types.h\<close>, \<open>include/Order.h\<close>, \<open>src/Order.cpp\<close>, \<open>src/LimitOrder.cpp\<close>,
  \<open>src/MarketOrder.cpp\<close>, \<open>src/OrderFactory.cpp\<close> and \<open>include/Trade.h\<close>: the enumerations and
  aliases, the order hierarchy and its factory, and trades.

  An order object is a record. Its selectors are the accessors of the class, and the dynamic type
  (with the price a \<open>LimitOrder\<close> adds) is the last field, on which the two virtual functions
  dispatch. \<open>steady_clock::now()\<close> is read once by the base constructor, so the constructors take
  the reading as an argument.
\<close>

section \<open>Types.h\<close>

datatype side = BUY | SELL

datatype order_kind = MARKET | LIMIT

datatype command_type = SUBMIT | CANCEL

datatype order_status = NEW | OPEN | PARTIALLY_FILLED | FILLED | CANCELLED

type_synonym order_id = "64 word"

type_synonym trader_id = "64 word"

type_synonym timestamp = int

section \<open>Orders\<close>

datatype order_class = MarketOrder | LimitOrder double

record order =
  getId :: order_id
  getTraderId :: trader_id
  getSide :: side
  getQuantity :: int
  getRemainingQuantity :: int
  getTimestamp :: timestamp
  getStatus :: order_status
  dynType :: order_class

definition new_Order ::
  "timestamp \<Rightarrow> order_id \<Rightarrow> trader_id \<Rightarrow> side \<Rightarrow> int \<Rightarrow> order_class \<Rightarrow> order result" where
  "new_Order now i t s q c =
     (if q \<le> 0 then Inl (invalid_argument ''Order quantity must be positive'')
      else Inr \<lparr>getId = i, getTraderId = t, getSide = s, getQuantity = q,
                getRemainingQuantity = q, getTimestamp = now, getStatus = NEW, dynType = c\<rparr>)"

definition new_LimitOrder ::
  "timestamp \<Rightarrow> order_id \<Rightarrow> trader_id \<Rightarrow> side \<Rightarrow> int \<Rightarrow> double \<Rightarrow> order result" where
  "new_LimitOrder now i t s q price =
     bindE (new_Order now i t s q (LimitOrder price)) (\<lambda>ord.
       if \<not> isfinite price \<or> price \<le> dzero
       then Inl (invalid_argument ''Limit order price must be finite and positive'')
       else Inr ord)"

definition new_MarketOrder ::
  "timestamp \<Rightarrow> order_id \<Rightarrow> trader_id \<Rightarrow> side \<Rightarrow> int \<Rightarrow> order result" where
  "new_MarketOrder now i t s q = new_Order now i t s q MarketOrder"

fun getOrderKind :: "order \<Rightarrow> order_kind" where
  "getOrderKind ord = (case dynType ord of MarketOrder \<Rightarrow> MARKET | LimitOrder _ \<Rightarrow> LIMIT)"

fun getPrice :: "order \<Rightarrow> double result" where
  "getPrice ord = (case dynType ord of
       LimitOrder p \<Rightarrow> Inr p
     | MarketOrder \<Rightarrow>
         Inl (logic_error ''MarketOrder has no fixed price - check getOrderKind() first''))"

text \<open>\<open>remainingQty_ - filledQty\<close> is computed in \<open>int\<close>, where leaving the range is undefined.\<close>

definition reduceQuantity :: "order \<Rightarrow> int \<Rightarrow> order result" where
  "reduceQuantity ord filledQty =
     bindE (int_sub (getRemainingQuantity ord) filledQty) (\<lambda>d.
       Inr (ord\<lparr>getRemainingQuantity := max 0 d\<rparr>))"

definition setStatus :: "order \<Rightarrow> order_status \<Rightarrow> order" where
  "setStatus ord st = ord\<lparr>getStatus := st\<rparr>"

section \<open>The factory\<close>

definition createOrder ::
  "timestamp \<Rightarrow> order_kind \<Rightarrow> order_id \<Rightarrow> trader_id \<Rightarrow> side \<Rightarrow> int \<Rightarrow> double \<Rightarrow> order result" where
  "createOrder now kind i t s q price =
     (case kind of
        MARKET \<Rightarrow> new_MarketOrder now i t s q
      | LIMIT \<Rightarrow> new_LimitOrder now i t s q price)"

section \<open>Trades\<close>

record trade =
  buyOrderId :: order_id
  sellOrderId :: order_id
  price :: double
  quantity :: int
  trade_time :: timestamp

section \<open>Well-formed orders\<close>

text \<open>What the constructors establish and \<open>reduceQuantity\<close> keeps: the quantity is a positive
  \<open>int\<close>, what remains is between 0 and the quantity, and a limit price is finite and positive.\<close>

definition price_ok :: "order_class \<Rightarrow> bool" where
  "price_ok c = (case c of MarketOrder \<Rightarrow> True | LimitOrder p \<Rightarrow> isfinite p \<and> dzero < p)"

definition order_ok :: "order \<Rightarrow> bool" where
  "order_ok ord \<longleftrightarrow>
     0 < getQuantity ord \<and> int32 (getQuantity ord) \<and>
     0 \<le> getRemainingQuantity ord \<and> getRemainingQuantity ord \<le> getQuantity ord \<and>
     price_ok (dynType ord)"

text \<open>An order as the factory returns it, before any fill.\<close>

definition fresh_order :: "order \<Rightarrow> bool" where
  "fresh_order ord \<longleftrightarrow>
     order_ok ord \<and> getRemainingQuantity ord = getQuantity ord \<and> getStatus ord = NEW"

text \<open>The order without its time stamp, the only field that depends on the clock.\<close>

definition untimed :: "order \<Rightarrow> order" where
  "untimed ord = ord\<lparr>getTimestamp := 0\<rparr>"

section \<open>Lemmas\<close>

lemma setStatus_simps [simp]:
  "getId (setStatus ord st) = getId ord"
  "getTraderId (setStatus ord st) = getTraderId ord"
  "getSide (setStatus ord st) = getSide ord"
  "getQuantity (setStatus ord st) = getQuantity ord"
  "getRemainingQuantity (setStatus ord st) = getRemainingQuantity ord"
  "getTimestamp (setStatus ord st) = getTimestamp ord"
  "getStatus (setStatus ord st) = st"
  "dynType (setStatus ord st) = dynType ord"
  by (simp_all add: setStatus_def)

lemma order_ok_setStatus [simp]: "order_ok (setStatus ord st) = order_ok ord"
  by (simp add: order_ok_def)

lemma reduceQuantity_ok:
  assumes "order_ok ord" and "0 \<le> n" and "n \<le> getRemainingQuantity ord"
  shows "reduceQuantity ord n = Inr (ord\<lparr>getRemainingQuantity := getRemainingQuantity ord - n\<rparr>)"
proof -
  from assms have "int32 (getRemainingQuantity ord)" by (auto simp: order_ok_def int32_def)
  with assms show ?thesis by (simp add: reduceQuantity_def int_sub_nonneg)
qed

lemma not_less_eq_dzero: "isfinite p \<Longrightarrow> \<not> p \<le> dzero \<longleftrightarrow> dzero < p"
  by (simp add: not_less_eq_double)

lemma createOrder_Inr:
  "createOrder now kind i t s q p = Inr ord \<longleftrightarrow>
     0 < q \<and> (kind = LIMIT \<longrightarrow> isfinite p \<and> dzero < p) \<and>
     ord = \<lparr>getId = i, getTraderId = t, getSide = s, getQuantity = q, getRemainingQuantity = q,
            getTimestamp = now, getStatus = NEW,
            dynType = (case kind of MARKET \<Rightarrow> MarketOrder | LIMIT \<Rightarrow> LimitOrder p)\<rparr>"
  by (cases kind)
    (auto simp: createOrder_def new_MarketOrder_def new_LimitOrder_def new_Order_def bindE_eq_Inr
      not_less_eq_dzero less_double_not_le split: if_splits)

section \<open>Properties\<close>

text \<open>The factory returns an order exactly when the quantity is positive and, for a limit
  order, the price is finite and positive. Every order it returns for a quantity in the range of
  \<open>int\<close> is well formed and unfilled; every other request is rejected with \<open>std::invalid_argument\<close>
  and never with another error.\<close>

lemma createOrder_validates:
  assumes "int32 q"
  shows "case createOrder now kind i t s q p of
      Inr ord \<Rightarrow> 0 < q \<and> (kind = LIMIT \<longrightarrow> isfinite p \<and> dzero < p) \<and> fresh_order ord \<and>
        getId ord = i \<and> getSide ord = s \<and> getQuantity ord = q \<and> getOrderKind ord = kind
    | Inl e \<Rightarrow> (q \<le> 0 \<or> kind = LIMIT \<and> (\<not> isfinite p \<or> p \<le> dzero)) \<and>
        (\<exists>msg. e = invalid_argument msg)"
proof (cases "createOrder now kind i t s q p")
  case (Inr ord)
  note made = createOrder_Inr [THEN iffD1, OF Inr]
  show ?thesis
    unfolding Inr using made assms
    by (cases kind) (auto simp: fresh_order_def order_ok_def price_ok_def)
next
  case (Inl e)
  then show ?thesis
    by (cases kind)
      (auto simp: createOrder_def new_MarketOrder_def new_LimitOrder_def new_Order_def bindE_eq_Inl
        split: if_splits)
qed

text \<open>Recording a fill of at most what remains takes exactly that much off, keeps the order
  well formed, leaves every other field alone, and has no integer overflow; a fill larger than what
  remains is clamped at zero rather than going negative.\<close>

lemma reduceQuantity_bounds:
  assumes "order_ok ord" and "0 \<le> n" and "int32 n"
  shows "\<exists>ord'. reduceQuantity ord n = Inr ord' \<and> order_ok ord' \<and>
    getRemainingQuantity ord' = max 0 (getRemainingQuantity ord - n) \<and>
    ord' = ord\<lparr>getRemainingQuantity := getRemainingQuantity ord'\<rparr>"
proof -
  from assms have "int32 (getRemainingQuantity ord - n)" by (auto simp: order_ok_def int32_def)
  with assms show ?thesis by (auto simp: reduceQuantity_def int_sub_def order_ok_def)
qed

end
