(* ===== verification/OrderBook.thy ===== *)
theory OrderBook
  imports StdMap Orders
begin

text \<open>
  \<open>include/OrderBook.h\<close> and \<open>src/OrderBook.cpp\<close>: the data and the operations of the limit order
  book. The theories \<open>BookInvariant\<close> and \<open>BookSpec\<close> state and prove what they guarantee.

  Ownership and pointers. \<open>ownedOrders_\<close> is an \<open>unordered_map\<close> from ids to \<open>unique_ptr<Order>\<close>:
  the order object lives exactly as long as its entry, so the entry holds the object itself. A raw
  \<open>Order*\<close> is the key of the entry that owns the object, and following it (\<open>deref\<close>) is undefined
  behaviour once the entry is gone. A \<open>std::list<Order*>\<close> is the list of these pointers; an
  iterator into it is named by the pointer its node holds. \<open>front()\<close> of an empty list, a
  dereferenced \<open>end()\<close> and erasing through an iterator that is not in the list are undefined
  behaviour too, and each is an explicit branch.

  The two branches of \<open>matchIncoming\<close> are mirror images. The model has one loop with the side of
  the incoming order as an argument, which selects the map searched, the price comparison and which
  of the two ids of the trade is the buyer's.

  \<open>steady_clock::now()\<close> is read once per trade: \<open>clk n\<close> is the reading taken for the \<open>n\<close>-th trade of
  the call.

  A call that throws does so before it changes the book, so the caller still has the old one.
\<close>

section \<open>State\<close>

type_synonym price_levels = "(double, order_id list) std_map"

record order_location =
  loc_side :: side
  loc_price :: double
  loc_iterator :: order_id

record book =
  bids :: price_levels
  asks :: price_levels
  ownedOrders :: "order_id \<Rightarrow> order option"
  orderLocation :: "order_id \<Rightarrow> order_location option"

definition empty_book :: book where
  "empty_book = \<lparr>bids = [], asks = [], ownedOrders = Map.empty, orderLocation = Map.empty\<rparr>"

fun opposite :: "side \<Rightarrow> side" where
  "opposite BUY = SELL"
| "opposite SELL = BUY"

fun cmp :: "side \<Rightarrow> double \<Rightarrow> double \<Rightarrow> bool" where
  "cmp BUY = std_greater"
| "cmp SELL = std_less"

fun levels :: "side \<Rightarrow> book \<Rightarrow> price_levels" where
  "levels BUY b = bids b"
| "levels SELL b = asks b"

fun set_levels :: "side \<Rightarrow> price_levels \<Rightarrow> book \<Rightarrow> book" where
  "set_levels BUY m b = b\<lparr>bids := m\<rparr>"
| "set_levels SELL m b = b\<lparr>asks := m\<rparr>"

definition deref :: "book \<Rightarrow> order_id \<Rightarrow> order result" where
  "deref b p = (case ownedOrders b p of None \<Rightarrow> Inl undefined_behaviour | Some ord \<Rightarrow> Inr ord)"

definition store :: "order_id \<Rightarrow> order \<Rightarrow> book \<Rightarrow> book" where
  "store p ord b = b\<lparr>ownedOrders := (ownedOrders b)(p \<mapsto> ord)\<rparr>"

definition erase_owned :: "order_id \<Rightarrow> book \<Rightarrow> book" where
  "erase_owned i b = b\<lparr>ownedOrders := (ownedOrders b)(i := None)\<rparr>"

definition erase_location :: "order_id \<Rightarrow> book \<Rightarrow> book" where
  "erase_location i b = b\<lparr>orderLocation := (orderLocation b)(i := None)\<rparr>"

section \<open>Matching\<close>

fun mkTrade ::
  "side \<Rightarrow> order_id \<Rightarrow> order_id \<Rightarrow> double \<Rightarrow> int \<Rightarrow> timestamp \<Rightarrow> trade" where
  "mkTrade BUY incoming resting p q now =
     \<lparr>buyOrderId = incoming, sellOrderId = resting, price = p, quantity = q, trade_time = now\<rparr>"
| "mkTrade SELL incoming resting p q now =
     \<lparr>buyOrderId = resting, sellOrderId = incoming, price = p, quantity = q, trade_time = now\<rparr>"

fun crosses :: "side \<Rightarrow> double \<Rightarrow> double \<Rightarrow> bool" where
  "crosses BUY p best = (best \<le> p)"
| "crosses SELL p best = (p \<le> best)"

definition priceOk :: "side \<Rightarrow> order \<Rightarrow> double \<Rightarrow> bool result" where
  "priceOk s incoming best =
     (if getOrderKind incoming = MARKET then Inr True
      else bindE (getPrice incoming) (\<lambda>p. Inr (crosses s p best)))"

text \<open>The end of the loop body: the resting order at the front of the best level has been reduced to
  \<open>res\<close>, and leaves the book when nothing of it remains.\<close>

definition settleResting ::
  "side \<Rightarrow> double \<Rightarrow> order_id \<Rightarrow> order_id list \<Rightarrow> price_levels \<Rightarrow> order \<Rightarrow> book \<Rightarrow> book" where
  "settleResting s bestPrice resting level' rest res b =
     (if getRemainingQuantity res = 0 then
        let b1 = store resting (setStatus res FILLED) b;
            restingId = getId res;
            b2 = erase_owned restingId (erase_location restingId b1)
        in set_levels (opposite s) (if level' = [] then rest else (bestPrice, level') # rest) b2
      else store resting (setStatus res PARTIALLY_FILLED) b)"

text \<open>The body of the \<open>while\<close> loop after the price test.\<close>

definition matchStep ::
  "side \<Rightarrow> (nat \<Rightarrow> timestamp) \<Rightarrow> order_id \<Rightarrow> book \<Rightarrow> trade list \<Rightarrow> (trade list \<times> book) result" where
  "matchStep s clk incoming b trades =
     (case levels (opposite s) b of
        [] \<Rightarrow> Inl undefined_behaviour
      | (bestPrice, level) # rest \<Rightarrow>
     (case level of
        [] \<Rightarrow> Inl undefined_behaviour
      | resting # level' \<Rightarrow>
     bindE (deref b incoming) (\<lambda>inc.
     bindE (deref b resting) (\<lambda>res.
     let tradeQty = min (getRemainingQuantity inc) (getRemainingQuantity res);
         t = mkTrade s (getId inc) (getId res) bestPrice tradeQty (clk (length trades)) in
     bindE (reduceQuantity inc tradeQty) (\<lambda>inc'.
     let b1 = store incoming inc' b in
     bindE (deref b1 resting) (\<lambda>res1.
     bindE (reduceQuantity res1 tradeQty) (\<lambda>res2.
     Inr (trades @ [t], settleResting s bestPrice resting level' rest res2 b1))))))))"

text \<open>How much matching work is left: the nodes of the searched side, and whether the incoming order
  still wants anything.\<close>

definition match_measure :: "side \<Rightarrow> order_id \<Rightarrow> book \<Rightarrow> nat" where
  "match_measure s incoming b =
     2 * length (concat (map snd (levels (opposite s) b))) +
     (case ownedOrders b incoming of
        None \<Rightarrow> 0 | Some inc \<Rightarrow> if 0 < getRemainingQuantity inc then 1 else 0)"

lemma levels_set_levels [simp]:
  "levels s (set_levels s' m b) = (if s = s' then m else levels s b)"
  by (cases s; cases s') simp_all

lemma set_levels_other [simp]:
  "ownedOrders (set_levels s m b) = ownedOrders b"
  "orderLocation (set_levels s m b) = orderLocation b"
  by (cases s; simp)+

lemma opposite_simps [simp]: "opposite (opposite s) = s" "opposite s \<noteq> s" "s \<noteq> opposite s"
  by (cases s; simp)+

lemma store_simps [simp]:
  "levels s (store p ord b) = levels s b"
  "orderLocation (store p ord b) = orderLocation b"
  "ownedOrders (store p ord b) = (ownedOrders b)(p \<mapsto> ord)"
  by (cases s; simp add: store_def)+

lemma erase_simps [simp]:
  "levels s (erase_owned p b) = levels s b"
  "orderLocation (erase_owned p b) = orderLocation b"
  "ownedOrders (erase_owned p b) = (ownedOrders b)(p := None)"
  "levels s (erase_location p b) = levels s b"
  "orderLocation (erase_location p b) = (orderLocation b)(p := None)"
  "ownedOrders (erase_location p b) = ownedOrders b"
  by (cases s; simp add: erase_owned_def erase_location_def)+

lemma deref_eq_Inr [simp]: "deref b p = Inr ord \<longleftrightarrow> ownedOrders b p = Some ord"
  by (simp add: deref_def split: option.splits)

lemma reduceQuantity_Inr:
  "reduceQuantity ord n = Inr ord' \<Longrightarrow>
     ord' = ord\<lparr>getRemainingQuantity := max 0 (getRemainingQuantity ord - n)\<rparr>"
  by (auto simp: reduceQuantity_def int_sub_def bindE_eq_Inr split: if_splits)

lemma matchStep_measure:
  assumes inc: "ownedOrders b p = Some inc" "0 < getRemainingQuantity inc"
    and step: "matchStep s clk p b trades = Inr (trades', b')"
  shows "match_measure s p b' < match_measure s p b"
proof -
  from step inc obtain bestPrice r level' rest res inc' res1 res2 where
    lv: "levels (opposite s) b = (bestPrice, r # level') # rest"
    and res: "ownedOrders b r = Some res"
    and inc': "reduceQuantity inc (min (getRemainingQuantity inc) (getRemainingQuantity res)) = Inr inc'"
    and res1: "((ownedOrders b)(p \<mapsto> inc')) r = Some res1"
    and res2: "reduceQuantity res1 (min (getRemainingQuantity inc) (getRemainingQuantity res)) = Inr res2"
    and b': "b' = settleResting s bestPrice r level' rest res2 (store p inc' b)"
    by (clarsimp simp: matchStep_def Let_def bindE_eq_Inr simp del: fun_upd_apply split: list.splits)
  note inc' = reduceQuantity_Inr [OF inc'] and res2 = reduceQuantity_Inr [OF res2]
  show ?thesis
  proof (cases "getRemainingQuantity res2 = 0")
    case True
    then show ?thesis
      using inc by (auto simp: match_measure_def lv b' settleResting_def Let_def split: option.splits)
  next
    case False
    with inc res res1 have "p \<noteq> r" by (auto simp: inc' res2)
    with False res res1 inc show ?thesis
      by (auto simp: match_measure_def lv b' settleResting_def inc' res2)
  qed
qed

function matchLoop ::
  "side \<Rightarrow> (nat \<Rightarrow> timestamp) \<Rightarrow> order_id \<Rightarrow> book \<Rightarrow> trade list \<Rightarrow> (trade list \<times> book) result" where
  "matchLoop s clk incoming b trades =
     bindE (deref b incoming) (\<lambda>inc.
       if 0 < getRemainingQuantity inc \<and> levels (opposite s) b \<noteq> [] then
         bindE (priceOk s inc (fst (hd (levels (opposite s) b)))) (\<lambda>ok.
           if \<not> ok then Inr (trades, b)
           else bindE (matchStep s clk incoming b trades) (\<lambda>(trades', b').
             matchLoop s clk incoming b' trades'))
       else Inr (trades, b))"
  by pat_completeness auto
termination
  by (relation "measure (\<lambda>(s, clk, incoming, b, trades). match_measure s incoming b)")
    (auto intro: matchStep_measure)

declare matchLoop.simps [simp del]

definition matchIncoming ::
  "(nat \<Rightarrow> timestamp) \<Rightarrow> book \<Rightarrow> order_id \<Rightarrow> (trade list \<times> book) result" where
  "matchIncoming clk b incoming =
     bindE (deref b incoming) (\<lambda>inc. matchLoop (getSide inc) clk incoming b [])"

section \<open>Adding, resting and cancelling orders\<close>

definition restInBook :: "book \<Rightarrow> order_id \<Rightarrow> book result" where
  "restInBook b incoming =
     bindE (deref b incoming) (\<lambda>inc.
     bindE (getPrice inc) (\<lambda>p.
     let i = getId inc; s = getSide inc;
         b1 = set_levels s (map_at (cmp s) [] p (\<lambda>level. level @ [incoming]) (levels s b)) b
     in Inr (b1\<lparr>orderLocation := (orderLocation b1)
               (i \<mapsto> \<lparr>loc_side = s, loc_price = p, loc_iterator = incoming\<rparr>)\<rparr>)))"

definition addOrder ::
  "(nat \<Rightarrow> timestamp) \<Rightarrow> book \<Rightarrow> order option \<Rightarrow> (trade list \<times> book) result" where
  "addOrder clk b order =
     (case order of
        None \<Rightarrow> Inl (invalid_argument ''Cannot add a null order'')
      | Some ord \<Rightarrow>
     let i = getId ord in
     if ownedOrders b i \<noteq> None then Inl (invalid_argument ''Order ID is already active'')
     else
       let raw = i; b1 = store i ord b in
       bindE (matchIncoming clk b1 raw) (\<lambda>(trades, b2).
       bindE (deref b2 raw) (\<lambda>o2.
       if getRemainingQuantity o2 = 0 then
         Inr (trades, erase_owned i (store raw (setStatus o2 FILLED) b2))
       else if getOrderKind o2 = LIMIT then
         let st = (if getRemainingQuantity o2 = getQuantity o2 then OPEN else PARTIALLY_FILLED) in
         bindE (restInBook (store raw (setStatus o2 st) b2) raw) (\<lambda>b3. Inr (trades, b3))
       else
         Inr (trades, erase_owned i (store raw (setStatus o2 CANCELLED) b2)))))"

text \<open>The price levels of a side after the node \<open>it\<close> of the level at \<open>p\<close> is erased: the level goes too
  when it was the last one.\<close>

definition cancel_levels ::
  "side \<Rightarrow> double \<Rightarrow> order_id \<Rightarrow> order_id list \<Rightarrow> price_levels \<Rightarrow> price_levels" where
  "cancel_levels s p it level m =
     (let m' = map_at (cmp s) [] p (\<lambda>_. remove1 it level) m
      in if remove1 it level = [] then map_erase (cmp s) p m' else m')"

definition cancelOrder :: "book \<Rightarrow> order_id \<Rightarrow> (bool \<times> book) result" where
  "cancelOrder b i =
     (case orderLocation b i of
        None \<Rightarrow> Inr (False, b)
      | Some loc \<Rightarrow>
     let s = loc_side loc; p = loc_price loc; it = loc_iterator loc in
     (case map_find (cmp s) p (levels s b) of
        None \<Rightarrow> Inl undefined_behaviour
      | Some level \<Rightarrow>
     if it \<notin> set level then Inl undefined_behaviour
     else
       let b1 = erase_location i (set_levels s (cancel_levels s p it level (levels s b)) b)
       in (case ownedOrders b1 i of
             None \<Rightarrow> Inr (True, b1)
           | Some ord \<Rightarrow> Inr (True, erase_owned i (store i (setStatus ord CANCELLED) b1)))))"

section \<open>Queries\<close>

text \<open>The C++ signature returns whether a price was written to the out parameter; \<open>None\<close> is the
  \<open>false\<close> case, in which it is not written.\<close>

definition getBestBid :: "book \<Rightarrow> double option" where
  "getBestBid b = (case bids b of [] \<Rightarrow> None | (p, _) # _ \<Rightarrow> Some p)"

definition getBestAsk :: "book \<Rightarrow> double option" where
  "getBestAsk b = (case asks b of [] \<Rightarrow> None | (p, _) # _ \<Rightarrow> Some p)"

text \<open>The lines \<open>printBook\<close> writes; a level line shows the price and the number of orders.\<close>

datatype book_line = Rule string | Level double nat

definition printBook :: "book \<Rightarrow> book_line list" where
  "printBook b =
     Rule ''----- ASKS (best at bottom) -----'' #
     map (\<lambda>(p, level). Level p (length level)) (rev (asks b)) @
     Rule ''----------------------------------'' #
     map (\<lambda>(p, level). Level p (length level)) (bids b) @
     [Rule ''----- BIDS (best at top) -----'']"

end
