(* ===== verification/PriceTime.thy ===== *)
theory PriceTime
  imports Orders
begin

text \<open>
  The abstract specification of a price-time priority book. Each side is one list of resting orders
  in priority order: best price first, and first come first served within a price. An incoming
  order sweeps the other side from the front for as long as it wants more and is willing to pay the
  price; what is left of a limit order queues up behind every order of the same or a better price.
  There are no price levels, maps, iterators or indices here; \<open>BookSpec\<close> proves that the order book
  implements this specification. The lemmas of this theory are facts about the specification that
  the properties of the order book rest on.
\<close>

section \<open>Specification\<close>

type_synonym abs_book = "side \<Rightarrow> order list"

fun other_side :: "side \<Rightarrow> side" where
  "other_side BUY = SELL"
| "other_side SELL = BUY"

fun better :: "side \<Rightarrow> double \<Rightarrow> double \<Rightarrow> bool" where
  "better BUY p q = (q < p)"
| "better SELL p q = (p < q)"

definition limit_price :: "order \<Rightarrow> double" where
  "limit_price ord = (case dynType ord of LimitOrder p \<Rightarrow> p | MarketOrder \<Rightarrow> NaN)"

definition willing :: "order \<Rightarrow> double \<Rightarrow> bool" where
  "willing inc p = (case dynType inc of
      MarketOrder \<Rightarrow> True
    | LimitOrder l \<Rightarrow> (case getSide inc of BUY \<Rightarrow> p \<le> l | SELL \<Rightarrow> l \<le> p))"

definition fill :: "int \<Rightarrow> order \<Rightarrow> order" where
  "fill q ord = ord\<lparr>getRemainingQuantity := getRemainingQuantity ord - q\<rparr>"

definition execution :: "order \<Rightarrow> order \<Rightarrow> int \<Rightarrow> timestamp \<Rightarrow> trade" where
  "execution inc res q now =
     \<lparr>buyOrderId = (if getSide inc = BUY then getId inc else getId res),
      sellOrderId = (if getSide inc = BUY then getId res else getId inc),
      price = limit_price res, quantity = q, trade_time = now\<rparr>"

fun sweep ::
  "(nat \<Rightarrow> timestamp) \<Rightarrow> order \<Rightarrow> order list \<Rightarrow> trade list \<Rightarrow> trade list \<times> order \<times> order list" where
  "sweep clk inc [] ts = (ts, inc, [])"
| "sweep clk inc (r # rs) ts =
     (if getRemainingQuantity inc = 0 \<or> \<not> willing inc (limit_price r) then (ts, inc, r # rs)
      else
        let q = min (getRemainingQuantity inc) (getRemainingQuantity r);
            ts' = ts @ [execution inc r q (clk (length ts))]
        in if q = getRemainingQuantity r then sweep clk (fill q inc) rs ts'
           else (ts', fill q inc, setStatus (fill q r) PARTIALLY_FILLED # rs))"

definition queue_up :: "side \<Rightarrow> order \<Rightarrow> order list \<Rightarrow> order list" where
  "queue_up s ord rs =
     (let stays_ahead = (\<lambda>r. \<not> better s (limit_price ord) (limit_price r))
      in takeWhile stays_ahead rs @ ord # dropWhile stays_ahead rs)"

definition rest_status :: "order \<Rightarrow> order_status" where
  "rest_status ord =
     (if getRemainingQuantity ord = getQuantity ord then OPEN else PARTIALLY_FILLED)"

definition spec_add :: "(nat \<Rightarrow> timestamp) \<Rightarrow> abs_book \<Rightarrow> order \<Rightarrow> trade list \<times> abs_book" where
  "spec_add clk A ord =
     (case sweep clk ord (A (other_side (getSide ord))) [] of (ts, ord', rs) \<Rightarrow>
        let A' = A(other_side (getSide ord) := rs) in
        if getRemainingQuantity ord' = 0 \<or> getOrderKind ord' = MARKET then (ts, A')
        else (ts, A'(getSide ord :=
          queue_up (getSide ord) (setStatus ord' (rest_status ord')) (A (getSide ord)))))"

definition spec_cancel :: "abs_book \<Rightarrow> order_id \<Rightarrow> abs_book" where
  "spec_cancel A i = (\<lambda>s. filter (\<lambda>r. getId r \<noteq> i) (A s))"

text \<open>Well-formed resting orders, priority order, and the market not being crossed.\<close>

definition resting_order :: "side \<Rightarrow> order \<Rightarrow> bool" where
  "resting_order s r \<longleftrightarrow> order_ok r \<and> 0 < getRemainingQuantity r \<and> getSide r = s \<and>
     getOrderKind r = LIMIT \<and> getStatus r = rest_status r"

definition in_priority :: "side \<Rightarrow> order list \<Rightarrow> bool" where
  "in_priority s rs \<longleftrightarrow>
     sorted_wrt (\<lambda>r r'. \<not> better s (limit_price r') (limit_price r)) rs"

definition uncrossed :: "abs_book \<Rightarrow> bool" where
  "uncrossed A \<longleftrightarrow> (\<forall>x \<in> set (A BUY). \<forall>y \<in> set (A SELL). limit_price x < limit_price y)"

section \<open>Lemmas about the specification\<close>

lemma fill_simps [simp]:
  "getId (fill q ord) = getId ord"
  "getTraderId (fill q ord) = getTraderId ord"
  "getSide (fill q ord) = getSide ord"
  "getQuantity (fill q ord) = getQuantity ord"
  "getRemainingQuantity (fill q ord) = getRemainingQuantity ord - q"
  "getTimestamp (fill q ord) = getTimestamp ord"
  "getStatus (fill q ord) = getStatus ord"
  "dynType (fill q ord) = dynType ord"
  by (simp_all add: fill_def)

lemma fill_other [simp]:
  "limit_price (fill q ord) = limit_price ord"
  "willing (fill q ord) p = willing ord p"
  "limit_price (setStatus ord st) = limit_price ord"
  by (simp_all add: limit_price_def willing_def split: order_class.splits)

lemma order_ok_fill:
  "order_ok ord \<Longrightarrow> 0 \<le> q \<Longrightarrow> q \<le> getRemainingQuantity ord \<Longrightarrow> order_ok (fill q ord)"
  by (simp add: order_ok_def)

lemma resting_order_price:
  "resting_order s r \<Longrightarrow> isfinite (limit_price r) \<and> dzero < limit_price r"
  by (auto simp: resting_order_def order_ok_def price_ok_def limit_price_def
      split: order_class.splits)

lemma resting_order_partial:
  assumes "resting_order s r" and "0 < q" and "q < getRemainingQuantity r"
  shows "resting_order s (setStatus (fill q r) PARTIALLY_FILLED)"
  using assms by (auto simp: resting_order_def rest_status_def order_ok_def)

lemma other_side_simps [simp]:
  "other_side (other_side s) = s" "other_side s \<noteq> s" "s \<noteq> other_side s"
  by (cases s; simp)+

lemma queue_up_append:
  assumes "\<And>r. r \<in> set xs \<Longrightarrow> \<not> better s (limit_price ord) (limit_price r)"
  shows "queue_up s ord (xs @ ys) = xs @ queue_up s ord ys"
  using assms by (simp add: queue_up_def Let_def takeWhile_append2 dropWhile_append2)

lemma queue_up_front:
  "rs = [] \<or> better s (limit_price ord) (limit_price (hd rs)) \<Longrightarrow> queue_up s ord rs = ord # rs"
  by (cases rs) (auto simp: queue_up_def)

lemma set_queue_up: "set (queue_up s ord rs) = insert ord (set rs)"
proof -
  have "set rs = set (takeWhile P rs) \<union> set (dropWhile P rs)" for P
    using set_append [of "takeWhile P rs" "dropWhile P rs"] by simp
  then show ?thesis by (auto simp: queue_up_def Let_def)
qed

text \<open>The three ways a sweep continues at a resting order, and the induction they give.\<close>

lemma sweep_stop:
  "getRemainingQuantity inc = 0 \<or> \<not> willing inc (limit_price r) \<Longrightarrow>
     sweep clk inc (r # rs) ts = (ts, inc, r # rs)"
  by simp

lemma sweep_full:
  assumes "getRemainingQuantity inc \<noteq> 0" and "willing inc (limit_price r)"
    and "getRemainingQuantity r \<le> getRemainingQuantity inc"
  shows "sweep clk inc (r # rs) ts =
    sweep clk (fill (getRemainingQuantity r) inc) rs
      (ts @ [execution inc r (getRemainingQuantity r) (clk (length ts))])"
  using assms by (simp add: Let_def min_def)

lemma sweep_partial:
  assumes "getRemainingQuantity inc \<noteq> 0" and "willing inc (limit_price r)"
    and "getRemainingQuantity inc < getRemainingQuantity r"
  shows "sweep clk inc (r # rs) ts =
    (ts @ [execution inc r (getRemainingQuantity inc) (clk (length ts))],
     fill (getRemainingQuantity inc) inc,
     setStatus (fill (getRemainingQuantity inc) r) PARTIALLY_FILLED # rs)"
  using assms by (simp add: Let_def min_def)

lemma sweep_fullD:
  assumes "sweep clk inc (r # rs) ts = x"
    and "getRemainingQuantity inc \<noteq> 0" and "willing inc (limit_price r)"
    and "getRemainingQuantity r \<le> getRemainingQuantity inc"
  shows "sweep clk (fill (getRemainingQuantity r) inc) rs
    (ts @ [execution inc r (getRemainingQuantity r) (clk (length ts))]) = x"
  using assms(1) unfolding sweep_full [OF assms(2-4)] .

lemmas sweep_steps = sweep_stop sweep_full sweep_partial

declare sweep.simps(2) [simp del]

lemma sweep_induct [case_names Nil stop full partial]:
  fixes P :: "order \<Rightarrow> order list \<Rightarrow> trade list \<Rightarrow> bool"
  assumes "\<And>inc ts. P inc [] ts"
    and "\<And>inc r rs ts. getRemainingQuantity inc = 0 \<or> \<not> willing inc (limit_price r) \<Longrightarrow>
      P inc (r # rs) ts"
    and "\<And>inc r rs ts. getRemainingQuantity inc \<noteq> 0 \<Longrightarrow> willing inc (limit_price r) \<Longrightarrow>
      getRemainingQuantity r \<le> getRemainingQuantity inc \<Longrightarrow>
      (\<And>ts'. P (fill (getRemainingQuantity r) inc) rs ts') \<Longrightarrow> P inc (r # rs) ts"
    and "\<And>inc r rs ts. getRemainingQuantity inc \<noteq> 0 \<Longrightarrow> willing inc (limit_price r) \<Longrightarrow>
      getRemainingQuantity inc < getRemainingQuantity r \<Longrightarrow> P inc (r # rs) ts"
  shows "P inc rs ts"
proof (induction rs arbitrary: inc ts)
  case Nil
  show ?case by (rule assms(1))
next
  case (Cons r rs)
  consider "getRemainingQuantity inc = 0 \<or> \<not> willing inc (limit_price r)"
    | "getRemainingQuantity inc \<noteq> 0" "willing inc (limit_price r)"
      "getRemainingQuantity r \<le> getRemainingQuantity inc"
    | "getRemainingQuantity inc \<noteq> 0" "willing inc (limit_price r)"
      "getRemainingQuantity inc < getRemainingQuantity r"
    by linarith
  then show ?case
    by cases (auto intro: assms(2-4) Cons.IH)
qed

text \<open>The incoming order keeps its identity through a sweep; only the quantity left changes.\<close>

lemma sweep_incoming:
  "sweep clk inc rs ts = (ts', inc', rs') \<Longrightarrow>
     inc' = inc\<lparr>getRemainingQuantity := getRemainingQuantity inc'\<rparr>"
  by (induction inc rs ts arbitrary: ts' rule: sweep_induct) (auto simp: sweep_steps fill_def)

lemma sweep_incoming_simps:
  assumes "sweep clk inc rs ts = (ts', inc', rs')"
  shows "getId inc' = getId inc" "getSide inc' = getSide inc" "getQuantity inc' = getQuantity inc"
    "getStatus inc' = getStatus inc" "dynType inc' = dynType inc"
    "limit_price inc' = limit_price inc" "willing inc' p = willing inc p"
  by (subst sweep_incoming [OF assms]; simp add: limit_price_def willing_def split: order_class.split)+

text \<open>New trades go at the end of the list, and every one is at a price the incoming order accepts.\<close>

lemma sweep_trades_prefix:
  "sweep clk inc rs ts = (ts', inc', rs') \<Longrightarrow>
     \<exists>new. ts' = ts @ new \<and> (\<forall>t \<in> set new. willing inc (price t))"
proof (induction inc rs ts arbitrary: ts' inc' rs' rule: sweep_induct)
  case (full inc r rs ts)
  from full.IH [OF sweep_fullD [OF full.prems full.hyps]] full.hyps show ?case by (auto simp: execution_def)
qed (auto simp: sweep_steps execution_def)

text \<open>Conservation: what is traded is what the incoming order loses, and what the book loses.\<close>

abbreviation total_remaining :: "order list \<Rightarrow> int" where
  "total_remaining rs \<equiv> sum_list (map getRemainingQuantity rs)"

abbreviation volume :: "trade list \<Rightarrow> int" where
  "volume ts \<equiv> sum_list (map quantity ts)"

lemma sweep_conserves:
  "sweep clk inc rs ts = (ts', inc', rs') \<Longrightarrow>
     volume ts' - volume ts = getRemainingQuantity inc - getRemainingQuantity inc' \<and>
     volume ts' - volume ts = total_remaining rs - total_remaining rs'"
proof (induction inc rs ts arbitrary: ts' inc' rs' rule: sweep_induct)
  case (full inc r rs ts)
  from full.IH [OF sweep_fullD [OF full.prems full.hyps]] show ?case by (simp add: execution_def)
qed (auto simp: sweep_steps execution_def)

lemma sweep_remaining_nonneg:
  assumes "sweep clk inc rs ts = (ts', inc', rs')" and "0 \<le> getRemainingQuantity inc"
  shows "0 \<le> getRemainingQuantity inc'"
  using assms
  by (induction inc rs ts arbitrary: ts' inc' rs' rule: sweep_induct) (auto simp: sweep_steps)

lemma sweep_positive_trades:
  assumes "sweep clk inc rs ts = (ts', inc', rs')" and "0 \<le> getRemainingQuantity inc"
    and "\<forall>r \<in> set rs. 0 < getRemainingQuantity r" and "\<forall>t \<in> set ts. 0 < quantity t"
  shows "\<forall>t \<in> set ts'. 0 < quantity t"
  using assms
proof (induction inc rs ts arbitrary: ts' inc' rs' rule: sweep_induct)
  case (full inc r rs ts)
  from full.IH [OF sweep_fullD [OF full.prems(1) full.hyps]] full.prems full.hyps
  show ?case by (simp add: execution_def)
qed (auto simp: sweep_steps execution_def)

text \<open>The sweep stops only when the incoming order is done or the best price left is not acceptable.\<close>

lemma sweep_exhausts:
  "sweep clk inc rs ts = (ts', inc', rs') \<Longrightarrow>
     getRemainingQuantity inc' = 0 \<or> rs' = [] \<or> \<not> willing inc (limit_price (hd rs'))"
  by (induction inc rs ts arbitrary: ts' inc' rs' rule: sweep_induct) (auto simp: sweep_steps)

lemma sweep_resting:
  assumes "sweep clk inc rs ts = (ts', inc', rs')" and "0 \<le> getRemainingQuantity inc"
    and "\<forall>r \<in> set rs. resting_order s r"
  shows "\<forall>r \<in> set rs'. resting_order s r"
  using assms
proof (induction inc rs ts arbitrary: ts' inc' rs' rule: sweep_induct)
  case (full inc r rs ts)
  from full.IH [OF sweep_fullD [OF full.prems(1) full.hyps]] full.prems full.hyps
  show ?case by simp
qed (auto simp: sweep_steps resting_order_partial)

text \<open>The sweep takes the orders strictly from the front: what rests afterwards is a suffix of what
  rested before, with at most its first order reduced.\<close>

lemma sweep_suffix:
  "sweep clk inc rs ts = (ts', inc', rs') \<Longrightarrow>
     \<exists>n. map getId rs' = drop n (map getId rs) \<and> map limit_price rs' = drop n (map limit_price rs)"
proof (induction inc rs ts arbitrary: ts' inc' rs' rule: sweep_induct)
  case (Nil inc ts)
  then show ?case by simp
next
  case (stop inc r rs ts)
  then show ?case by (intro exI [of _ 0]) (auto simp: sweep_stop)
next
  case (full inc r rs ts)
  from full.IH [OF sweep_fullD [OF full.prems full.hyps]] obtain n where "map getId rs' = drop n (map getId rs)"
    "map limit_price rs' = drop n (map limit_price rs)"
    by blast
  then show ?case by (intro exI [of _ "Suc n"]) simp
next
  case (partial inc r rs ts)
  then show ?case by (intro exI [of _ 0]) (auto simp: sweep_partial)
qed

text \<open>Who trades, at what price and how much: the counterparties are the resting orders from the
  front, each at its own price, and every one but the last is filled completely.\<close>

fun counterparty :: "side \<Rightarrow> trade \<Rightarrow> order_id" where
  "counterparty BUY t = sellOrderId t"
| "counterparty SELL t = buyOrderId t"

fun initiator :: "side \<Rightarrow> trade \<Rightarrow> order_id" where
  "initiator BUY t = buyOrderId t"
| "initiator SELL t = sellOrderId t"

lemma execution_simps [simp]:
  "counterparty (getSide inc) (execution inc r q now) = getId r"
  "initiator (getSide inc) (execution inc r q now) = getId inc"
  "price (execution inc r q now) = limit_price r"
  "quantity (execution inc r q now) = q"
  by (cases "getSide inc"; simp add: execution_def)+

lemma execution_fill [simp]: "execution (fill q' inc) r q now = execution inc r q now"
  by (simp add: execution_def)

lemma sweep_priority:
  "sweep clk inc rs ts = (ts', inc', rs') \<Longrightarrow> 0 \<le> getRemainingQuantity inc \<Longrightarrow>
     \<exists>new n. ts' = ts @ new \<and> n = length new \<and> n \<le> length rs \<and>
       map (counterparty (getSide inc)) new = map getId (take n rs) \<and>
       map (initiator (getSide inc)) new = replicate n (getId inc) \<and>
       map price new = map limit_price (take n rs) \<and>
       map quantity (butlast new) = map getRemainingQuantity (take (n - 1) rs) \<and>
       (\<exists>hd'. length hd' \<le> 1 \<and> rs' = hd' @ drop n rs)"
proof (induction inc rs ts arbitrary: ts' inc' rs' rule: sweep_induct)
  case (Nil inc ts)
  then show ?case by simp
next
  case (stop inc r rs ts)
  then show ?case by (intro exI [of _ "[]"] exI [of _ 0]) (auto simp: sweep_stop)
next
  case (full inc r rs ts)
  let ?t = "execution inc r (getRemainingQuantity r) (clk (length ts))"
  from full.IH [OF sweep_fullD [OF full.prems(1) full.hyps]] full.hyps obtain new n hd' where new: "ts' = (ts @ [?t]) @ new"
    "n = length new" "n \<le> length rs"
    "map (counterparty (getSide inc)) new = map getId (take n rs)"
    "map (initiator (getSide inc)) new = replicate n (getId inc)"
    "map price new = map limit_price (take n rs)"
    "map quantity (butlast new) = map getRemainingQuantity (take (n - 1) rs)"
    "length hd' \<le> 1" "rs' = hd' @ drop n rs"
    by auto
  then show ?case
    by (intro exI [of _ "?t # new"] exI [of _ "Suc n"])
      (cases new; auto simp: take_Cons' intro!: exI [of _ hd'])
next
  case (partial inc r rs ts)
  let ?t = "execution inc r (getRemainingQuantity inc) (clk (length ts))"
  from partial show ?case
    by (intro exI [of _ "[?t]"] exI [of _ 1]) (auto simp: sweep_partial)
qed

lemma total_queue_up:
  "total_remaining (queue_up s ord rs) = getRemainingQuantity ord + total_remaining rs"
proof -
  have "total_remaining rs = total_remaining (takeWhile P rs) + total_remaining (dropWhile P rs)" for P
    by (metis map_append sum_list_append takeWhile_dropWhile_id)
  then show ?thesis by (simp add: queue_up_def Let_def)
qed

text \<open>A sweep and the queueing of what is left never cross the market.\<close>

lemma uncrossed_side:
  "uncrossed A \<longleftrightarrow>
     (\<forall>x \<in> set (A s). \<forall>y \<in> set (A (other_side s)). better s (limit_price y) (limit_price x))"
  by (cases s) (auto simp: uncrossed_def)

lemma not_willing_better:
  assumes "\<not> willing inc p" and "isfinite p" and "order_ok inc"
  shows "better (getSide inc) p (limit_price inc)"
proof -
  from assms(1) obtain l where l: "dynType inc = LimitOrder l"
    by (auto simp: willing_def split: order_class.splits)
  with assms(3) have "isfinite l" by (auto simp: order_ok_def price_ok_def)
  with l assms show ?thesis
    by (cases "getSide inc") (auto simp: willing_def limit_price_def not_less_eq_double)
qed

lemma in_priority_all:
  assumes "in_priority (other_side s) rs" and "\<forall>r \<in> set rs. isfinite (limit_price r)"
    and "rs \<noteq> []" and "better s (limit_price (hd rs)) p" and "r \<in> set rs"
  shows "better s (limit_price r) p"
proof (cases "r = hd rs")
  case True
  with assms(4) show ?thesis by simp
next
  case False
  then have "\<not> better (other_side s) (limit_price r) (limit_price (hd rs))"
    using assms(1,3,5) by (cases rs) (auto simp: in_priority_def)
  moreover have "isfinite (limit_price r)" "isfinite (limit_price (hd rs))"
    using assms(2,3,5) by (auto simp: neq_Nil_conv)
  ultimately show ?thesis using assms(4)
    by (cases s) (auto simp: not_less_double intro: less_less_eq_double_trans less_eq_less_double_trans)
qed

lemma sweep_in_priority:
  assumes "sweep clk inc rs ts = (ts', inc', rs')" and "in_priority s rs"
  shows "in_priority s rs'" "limit_price ` set rs' \<subseteq> limit_price ` set rs"
proof -
  obtain n where n: "map limit_price rs' = drop n (map limit_price rs)"
    using sweep_suffix [OF assms(1)] by blast
  have "in_priority s xs \<longleftrightarrow> sorted_wrt (\<lambda>p q. \<not> better s q p) (map limit_price xs)" for xs
    by (simp add: in_priority_def sorted_wrt_map)
  with n assms(2) show "in_priority s rs'" by (simp add: sorted_wrt_drop)
  from n show "limit_price ` set rs' \<subseteq> limit_price ` set rs"
    by (metis list.set_map set_drop_subset)
qed

lemma spec_add_uncrossed:
  assumes unc: "uncrossed A" and pri: "\<And>s. in_priority s (A s)"
    and rest: "\<And>s. \<forall>r \<in> set (A s). resting_order s r" and ok: "order_ok ord"
  shows "uncrossed (snd (spec_add clk A ord))"
proof -
  let ?s = "getSide ord" and ?o = "other_side (getSide ord)"
  obtain ts ord' rs where sw: "sweep clk ord (A ?o) [] = (ts, ord', rs)" by (metis prod_cases3)
  note inc = sweep_incoming_simps [OF sw]
  note keep = sweep_in_priority [OF sw pri]
  from ok have "0 \<le> getRemainingQuantity ord" by (simp add: order_ok_def)
  note rs = sweep_resting [OF sw this rest]
  have old: "better ?s (limit_price y) (limit_price x)" if "x \<in> set (A ?s)" "y \<in> set rs" for x y
    using that keep(2) unc by (fastforce simp: uncrossed_side [of A ?s])
  show ?thesis
  proof (cases "getRemainingQuantity ord' = 0 \<or> getOrderKind ord' = MARKET")
    case True
    with sw old show ?thesis by (simp add: spec_add_def uncrossed_side [of _ ?s] del: getOrderKind.simps)
  next
    case False
    have new: "better ?s (limit_price y) (limit_price ord)" if "y \<in> set rs" for y
    proof (rule in_priority_all [OF keep(1) _ _ _ that])
      show fin: "\<forall>r \<in> set rs. isfinite (limit_price r)" using rs resting_order_price by blast
      show "rs \<noteq> []" using that by auto
      with False sweep_exhausts [OF sw] fin ok show "better ?s (limit_price (hd rs)) (limit_price ord)"
        by (auto intro!: not_willing_better)
    qed
    with False sw old inc show ?thesis
      by (auto simp: spec_add_def uncrossed_side [of _ ?s] set_queue_up simp del: getOrderKind.simps)
  qed
qed

lemma better_not_willing:
  assumes "\<not> willing inc q" and "better (getSide inc) p (limit_price inc)"
  shows "\<not> willing inc p"
proof -
  from assms(1) obtain l where "dynType inc = LimitOrder l"
    by (auto simp: willing_def split: order_class.splits)
  with assms(2) show ?thesis
    by (cases "getSide inc") (auto simp: willing_def limit_price_def dest: less_double_not_le)
qed

lemma sweep_grows: "sweep clk inc rs ts = (ts', inc', rs') \<Longrightarrow> length ts \<le> length ts'"
  using sweep_trades_prefix [of clk inc rs ts ts' inc' rs'] by auto

lemma sweep_no_trades:
  assumes "sweep clk inc rs ts = (ts, inc', rs')"
  shows "rs' = rs"
proof (cases rs)
  case Nil
  with assms show ?thesis by simp
next
  case (Cons r rs1)
  show ?thesis
  proof (cases "getRemainingQuantity inc = 0 \<or> \<not> willing inc (limit_price r)")
    case True
    with assms Cons show ?thesis by (simp add: sweep_stop)
  next
    case False
    with assms Cons show ?thesis
      using sweep_grows [OF sweep_fullD, of clk inc r rs1 ts ts inc' rs']
      by (cases "getRemainingQuantity r \<le> getRemainingQuantity inc") (auto simp: sweep_partial)
  qed
qed

lemma filter_queue_up:
  assumes "\<not> P ord" and "\<forall>r \<in> set rs. P r"
  shows "filter P (queue_up s ord rs) = rs"
proof -
  have "filter P (takeWhile Q rs) = takeWhile Q rs" "filter P (dropWhile Q rs) = dropWhile Q rs" for Q
    using assms(2) by (auto simp: filter_id_conv dest: set_takeWhileD set_dropWhileD)
  then show ?thesis using assms(1) by (simp add: queue_up_def Let_def)
qed

end
