(* ===== verification/BookInvariant.thy ===== *)
theory BookInvariant
  imports OrderBook PriceTime
begin

text \<open>
  The representation invariant of the order book, its abstraction to the priority lists of
  \<open>PriceTime\<close>, and the effect of each elementary change of the book on both.

  The invariant ties the four containers together: each side's levels are sorted by its comparator
  and none is empty; every pointer in a level is live, and its order rests on that side at that
  price with something left to trade; the location index knows exactly the resting orders and where
  they are; and the owning map holds exactly the resting orders, plus the set \<open>X\<close> of orders that are
  being worked on (empty between calls, the incoming order during a match).
\<close>

section \<open>Definitions\<close>

definition level_ids :: "price_levels \<Rightarrow> order_id list" where
  "level_ids m = concat (map snd m)"

definition ids :: "side \<Rightarrow> book \<Rightarrow> order_id list" where
  "ids s b = level_ids (levels s b)"

definition order_at :: "book \<Rightarrow> order_id \<Rightarrow> order" where
  "order_at b i = the (ownedOrders b i)"

definition abs_of :: "book \<Rightarrow> abs_book" where
  "abs_of b s = map (order_at b) (ids s b)"

definition location :: "side \<Rightarrow> double \<Rightarrow> order_id \<Rightarrow> order_location" where
  "location s p i = \<lparr>loc_side = s, loc_price = p, loc_iterator = i\<rparr>"

definition resting_at :: "side \<Rightarrow> book \<Rightarrow> double \<Rightarrow> order_id \<Rightarrow> bool" where
  "resting_at s b p i \<longleftrightarrow>
     (case ownedOrders b i of None \<Rightarrow> False
      | Some ord \<Rightarrow> getId ord = i \<and> dynType ord = LimitOrder p \<and> resting_order s ord) \<and>
     orderLocation b i = Some (location s p i)"

definition side_wf :: "side \<Rightarrow> book \<Rightarrow> bool" where
  "side_wf s b \<longleftrightarrow>
     map_inv (cmp s) isfinite (levels s b) \<and>
     (\<forall>(p, l) \<in> set (levels s b). l \<noteq> [] \<and> (\<forall>i \<in> set l. resting_at s b p i)) \<and>
     distinct (ids s b)"

definition book_wf :: "order_id set \<Rightarrow> book \<Rightarrow> bool" where
  "book_wf X b \<longleftrightarrow>
     side_wf BUY b \<and> side_wf SELL b \<and>
     dom (ownedOrders b) = set (ids BUY b) \<union> set (ids SELL b) \<union> X \<and>
     X \<inter> (set (ids BUY b) \<union> set (ids SELL b)) = {} \<and>
     dom (orderLocation b) = set (ids BUY b) \<union> set (ids SELL b)"

definition book_inv :: "book \<Rightarrow> bool" where
  "book_inv b \<longleftrightarrow> book_wf {} b \<and> uncrossed (abs_of b)"

section \<open>Both comparators are key orders\<close>

interpretation keys: key_order "cmp s" isfinite for s
  by (cases s) (simp_all add: asc.key_order_axioms desc.key_order_axioms)

lemma cmp_better: "cmp s p q = better s p q"
  by (cases s) (simp_all add: std_less_def std_greater_def)

lemma opposite_other_side [simp]: "other_side s = opposite s"
  by (cases s) simp_all

section \<open>Reading the invariant\<close>

lemma level_ids_simps [simp]:
  "level_ids [] = []" "level_ids ((p, l) # m) = l @ level_ids m"
  by (simp_all add: level_ids_def)

lemma set_level_ids: "set (level_ids m) = (\<Union>(p, l) \<in> set m. set l)"
  by (induction m) auto

lemma book_wfD:
  assumes "book_wf X b"
  shows "side_wf s b" "side_wf (opposite s) b"
    "dom (ownedOrders b) = set (ids s b) \<union> set (ids (opposite s) b) \<union> X"
    "X \<inter> (set (ids s b) \<union> set (ids (opposite s) b)) = {}"
    "dom (orderLocation b) = set (ids s b) \<union> set (ids (opposite s) b)"
  using assms by (cases s; auto simp: book_wf_def)+

lemma book_wfI:
  assumes "side_wf s b" "side_wf (opposite s) b"
    "dom (ownedOrders b) = set (ids s b) \<union> set (ids (opposite s) b) \<union> X"
    "X \<inter> (set (ids s b) \<union> set (ids (opposite s) b)) = {}"
    "dom (orderLocation b) = set (ids s b) \<union> set (ids (opposite s) b)"
  shows "book_wf X b"
  using assms by (cases s) (auto simp: book_wf_def)

lemma resting_atE:
  assumes "resting_at s b p i"
  obtains ord where "ownedOrders b i = Some ord" "order_at b i = ord" "getId ord = i"
    "dynType ord = LimitOrder p" "limit_price ord = p" "resting_order s ord" "getSide ord = s"
    "orderLocation b i = Some (location s p i)"
  using assms
  by (auto simp: resting_at_def order_at_def limit_price_def resting_order_def
      split: option.splits)

lemma side_wf_level:
  assumes "side_wf s b" and "(p, l) \<in> set (levels s b)"
  shows "l \<noteq> []" "i \<in> set l \<Longrightarrow> resting_at s b p i" "isfinite p"
  using assms by (auto simp: side_wf_def map_inv_def)

lemma side_wf_mem:
  assumes "side_wf s b" and "i \<in> set (ids s b)"
  obtains p l where "(p, l) \<in> set (levels s b)" "i \<in> set l" "resting_at s b p i"
  using assms by (auto simp: side_wf_def ids_def set_level_ids)

lemma ids_disjoint:
  assumes "side_wf s b" and "side_wf (opposite s) b"
  shows "set (ids s b) \<inter> set (ids (opposite s) b) = {}"
proof -
  have False if "i \<in> set (ids s b)" "i \<in> set (ids (opposite s) b)" for i
    using side_wf_mem [OF assms(1) that(1)] side_wf_mem [OF assms(2) that(2)]
    by (metis resting_atE opposite_simps(2) option.inject)
  then show ?thesis by blast
qed

lemma abs_of_resting:
  assumes "side_wf s b" and "r \<in> set (abs_of b s)"
  shows "resting_order s r" "getId r \<in> set (ids s b)" "ownedOrders b (getId r) = Some r"
  using assms by (auto simp: abs_of_def elim!: side_wf_mem resting_atE)

lemma map_getId_abs_of: "side_wf s b \<Longrightarrow> map getId (abs_of b s) = ids s b"
  by (auto simp: abs_of_def intro!: map_idI elim!: side_wf_mem resting_atE)

lemma side_wf_level_price:
  assumes "side_wf s b" and "(p, l) \<in> set (levels s b)" and "i \<in> set l"
  shows "limit_price (order_at b i) = p"
  using side_wf_level(2) [OF assms] by (auto elim: resting_atE)

lemma set_limit_price_abs_of:
  assumes "side_wf s b"
  shows "limit_price ` set (abs_of b s) = fst ` set (levels s b)"
proof -
  note price = side_wf_level_price [OF assms]
  have "limit_price ` set (abs_of b s) =
      (\<Union>(p, l) \<in> set (levels s b). (limit_price \<circ> order_at b) ` set l)"
    by (auto simp: abs_of_def ids_def set_level_ids)
  also have "\<dots> = (\<Union>(p, l) \<in> set (levels s b). {p})"
  proof (rule SUP_cong [OF refl], clarify)
    fix p l
    assume "(p, l) \<in> set (levels s b)"
    with price side_wf_level(1) [OF assms] show "(limit_price \<circ> order_at b) ` set l = {p}"
      by (fastforce simp: neq_Nil_conv)
  qed
  also have "\<dots> = fst ` set (levels s b)" by force
  finally show ?thesis .
qed

section \<open>Frame and update lemmas for one side\<close>

lemma resting_at_cong:
  "ownedOrders b' i = ownedOrders b i \<Longrightarrow> orderLocation b' i = orderLocation b i \<Longrightarrow>
     resting_at s b' p i = resting_at s b p i"
  by (simp add: resting_at_def)

lemma side_wf_frame:
  assumes "side_wf s b" and "levels s b' = levels s b"
    and "\<forall>i \<in> set (ids s b).
      ownedOrders b' i = ownedOrders b i \<and> orderLocation b' i = orderLocation b i"
  shows "side_wf s b'" "ids s b' = ids s b" "abs_of b' s = abs_of b s"
proof -
  show "ids s b' = ids s b" by (simp add: ids_def assms(2))
  with assms show "side_wf s b'"
    by (fastforce simp: side_wf_def ids_def set_level_ids intro: resting_at_cong [THEN iffD2])
  from assms show "abs_of b' s = abs_of b s"
    by (auto simp: abs_of_def ids_def order_at_def)
qed

text \<open>The front order of the best level leaves.\<close>

lemma side_wf_pop:
  assumes wf: "side_wf s b" and lv: "levels s b = (p, r # l) # m"
    and lv': "levels s b' = (if l = [] then m else (p, l) # m)"
    and same: "\<And>i. i \<in> set (ids s b) \<Longrightarrow> i \<noteq> r \<Longrightarrow>
      ownedOrders b' i = ownedOrders b i \<and> orderLocation b' i = orderLocation b i"
  shows "side_wf s b'" "ids s b = r # ids s b'" "abs_of b' s = tl (abs_of b s)"
proof -
  show ids: "ids s b = r # ids s b'" by (simp add: ids_def lv lv')
  from wf have "distinct (ids s b)" by (simp add: side_wf_def)
  with ids have "r \<notin> set (ids s b')" "distinct (ids s b')" by simp_all
  with same ids have same': "\<And>i. i \<in> set (ids s b') \<Longrightarrow>
      ownedOrders b' i = ownedOrders b i \<and> orderLocation b' i = orderLocation b i"
    by auto
  have "resting_at s b' q i" if "(q, k) \<in> set (levels s b')" "i \<in> set k" for q k i
  proof -
    from that have "i \<in> set (ids s b')" by (auto simp: ids_def set_level_ids)
    moreover from wf that have "resting_at s b q i"
      by (fastforce simp: side_wf_def lv lv' split: if_splits)
    ultimately show ?thesis using same' resting_at_cong by blast
  qed
  moreover from wf have "map_inv (cmp s) isfinite (levels s b')"
    by (auto simp: side_wf_def lv lv')
  moreover from wf have "\<forall>(q, k) \<in> set (levels s b'). k \<noteq> []"
    by (auto simp: side_wf_def lv lv')
  ultimately show "side_wf s b'" using \<open>distinct (ids s b')\<close> by (auto simp: side_wf_def)
  show "abs_of b' s = tl (abs_of b s)"
    using same' by (simp add: abs_of_def ids order_at_def)
qed

text \<open>The front order is reduced but stays.\<close>

lemma side_wf_front:
  assumes wf: "side_wf s b" and ids: "ids s b = r # is" and lv': "levels s b' = levels s b"
    and r: "ownedOrders b r = Some res" "ownedOrders b' r = Some res'"
    and res': "resting_order s res'" "getId res' = getId res" "dynType res' = dynType res"
    and loc: "\<And>i. i \<in> set (ids s b) \<Longrightarrow> orderLocation b' i = orderLocation b i"
    and same: "\<And>i. i \<in> set (ids s b) \<Longrightarrow> i \<noteq> r \<Longrightarrow> ownedOrders b' i = ownedOrders b i"
  shows "side_wf s b'" "ids s b' = ids s b" "abs_of b' s = res' # tl (abs_of b s)"
proof -
  show ids': "ids s b' = ids s b" by (simp add: ids_def lv')
  have "resting_at s b' q i" if "resting_at s b q i" "i \<in> set (ids s b)" for q i
    using that loc same r res' by (cases "i = r") (auto simp: resting_at_def)
  with wf ids' show "side_wf s b'"
    by (fastforce simp: side_wf_def lv' ids_def set_level_ids)
  from wf ids have "r \<notin> set is" by (simp add: side_wf_def)
  with ids same have "\<forall>i \<in> set is. ownedOrders b' i = ownedOrders b i" by auto
  with r show "abs_of b' s = res' # tl (abs_of b s)"
    by (simp add: abs_of_def ids' ids order_at_def)
qed

text \<open>Only the entry of an order that does not rest is written in the owning map.\<close>

lemma book_wf_owned_update:
  assumes wf: "book_wf X b" and new: "\<And>s. i \<notin> set (ids s b)"
    and lv: "\<And>s. levels s b' = levels s b" and loc: "orderLocation b' = orderLocation b"
    and ow: "ownedOrders b' = (ownedOrders b)(i := v)"
  shows "book_wf (if v = None then X - {i} else insert i X) b'" "abs_of b' = abs_of b"
proof -
  have same: "\<forall>j \<in> set (ids s b). ownedOrders b' j = ownedOrders b j \<and> orderLocation b' j = orderLocation b j" for s
    using new [of s] by (auto simp: ow loc)
  have side: "side_wf s b'" "ids s b' = ids s b" "abs_of b' s = abs_of b s" for s
    by (rule side_wf_frame [OF book_wfD(1) [OF wf] lv same])+
  show "abs_of b' = abs_of b" by (rule ext) (rule side)
  show "book_wf (if v = None then X - {i} else insert i X) b'"
    using side new book_wfD(3-5) [OF wf, of BUY] by (intro book_wfI [of BUY]) (auto simp: ow loc)
qed

end
