(* ===== verification/BookSpec.thy ===== *)
theory BookSpec
  imports BookInvariant
begin

text \<open>
  The order book implements the price-time specification: \<open>addOrder\<close> and \<open>cancelOrder\<close> keep the
  invariant, never reach undefined behaviour, and change the abstract book exactly as \<open>spec_add\<close> and
  \<open>spec_cancel\<close> say. The properties of the order book follow from this and from the facts about the
  specification.
\<close>

section \<open>Matching\<close>

text \<open>The state inside \<open>matchIncoming\<close>: the incoming order \<open>inc\<close> is owned but does not rest.\<close>

definition matching :: "side \<Rightarrow> order_id \<Rightarrow> order \<Rightarrow> book \<Rightarrow> bool" where
  "matching s p inc b \<longleftrightarrow> book_wf {p} b \<and> ownedOrders b p = Some inc \<and> getId inc = p \<and>
     getSide inc = s \<and> order_ok inc"

lemma matchingD:
  assumes "matching s p inc b"
  shows "book_wf {p} b" "ownedOrders b p = Some inc" "getId inc = p" "getSide inc = s"
    "order_ok inc" "side_wf s b" "side_wf (opposite s) b"
    "p \<notin> set (ids s b)" "p \<notin> set (ids (opposite s) b)"
  using assms book_wfD [of "{p}" b s] by (auto simp: matching_def)

lemma mkTrade_execution:
  "getSide inc = s \<Longrightarrow> mkTrade s (getId inc) (getId res) (limit_price res) q now = execution inc res q now"
  by (cases s) (auto simp: execution_def)

lemma priceOk_willing:
  "getSide inc = s \<Longrightarrow> priceOk s inc p = Inr (willing inc p)"
  by (cases s) (auto simp: priceOk_def willing_def split: order_class.splits)

lemma front_of_level:
  assumes "side_wf s b" and "levels s b = (p, l) # m"
  obtains r l' res where "l = r # l'" "ownedOrders b r = Some res" "getId res = r"
    "resting_order s res" "limit_price res = p" "abs_of b s = res # tl (abs_of b s)"
    "ids s b = r # tl (ids s b)"
proof -
  from side_wf_level(1) [OF assms(1), of p l] assms(2) obtain r l' where l: "l = r # l'"
    by (auto simp: neq_Nil_conv)
  from side_wf_level(2) [OF assms(1), of p l r] assms(2) l have "resting_at s b p r" by simp
  then show thesis
    by (rule resting_atE) (rule that [OF l], auto simp: abs_of_def ids_def assms(2) l)
qed

lemma matchStep_eq:
  assumes inc: "ownedOrders b p = Some inc" "getSide inc = s" "order_ok inc" "0 < getRemainingQuantity inc"
    and lv: "levels (opposite s) b = (bp, r # l) # m"
    and res: "ownedOrders b r = Some res" "resting_order (opposite s) res" "limit_price res = bp"
    and "r \<noteq> p"
  shows "matchStep s clk p b ts =
    (let q = min (getRemainingQuantity inc) (getRemainingQuantity res) in
     Inr (ts @ [execution inc res q (clk (length ts))],
          settleResting s bp r l m (fill q res) (store p (fill q inc) b)))"
proof -
  let ?q = "min (getRemainingQuantity inc) (getRemainingQuantity res)"
  from res have ok: "order_ok res" "0 < getRemainingQuantity res" by (simp_all add: resting_order_def)
  with inc have q: "0 \<le> ?q" "?q \<le> getRemainingQuantity inc" "?q \<le> getRemainingQuantity res" by simp_all
  have "reduceQuantity inc ?q = Inr (fill ?q inc)" "reduceQuantity res ?q = Inr (fill ?q res)"
    using reduceQuantity_ok [OF inc(3) q(1,2)] reduceQuantity_ok [OF ok(1) q(1,3)]
    by (simp_all add: fill_def)
  with assms show ?thesis
    by (simp add: matchStep_def deref_def Let_def mkTrade_execution [symmetric] del: getOrderKind.simps)
qed

text \<open>The resting order is filled: it leaves the book.\<close>

lemma settle_full:
  assumes m: "matching s p inc b" and lv: "levels (opposite s) b = (bp, r # l) # m'"
    and res: "ownedOrders b r = Some res" "getId res = r"
    and q: "0 \<le> q" "q \<le> getRemainingQuantity inc" "getRemainingQuantity res = q"
  shows "matching s p (fill q inc) (settleResting s bp r l m' (fill q res) (store p (fill q inc) b))"
    (is "matching _ _ _ ?b")
    and "abs_of (settleResting s bp r l m' (fill q res) (store p (fill q inc) b)) (opposite s) =
      tl (abs_of b (opposite s))"
    and "abs_of (settleResting s bp r l m' (fill q res) (store p (fill q inc) b)) s = abs_of b s"
    and "levels s (settleResting s bp r l m' (fill q res) (store p (fill q inc) b)) = levels s b"
proof -
  note wf = matchingD [OF m]
  have r: "r \<in> set (ids (opposite s) b)" by (simp add: ids_def lv)
  with wf ids_disjoint [OF wf(6,7)] have ne: "r \<noteq> p" "r \<notin> set (ids s b)" by auto
  have b': "levels s ?b = levels s b"
    "levels (opposite s) ?b = (if l = [] then m' else (bp, l) # m')"
    "ownedOrders ?b = ((ownedOrders b)(p \<mapsto> fill q inc))(r := None)"
    "orderLocation ?b = (orderLocation b)(r := None)"
    using res q by (auto simp: settleResting_def Let_def)
  show "levels s ?b = levels s b" by (rule b'(1))
  have same: "ownedOrders ?b i = ownedOrders b i \<and> orderLocation ?b i = orderLocation b i"
    if "i \<noteq> p" "i \<noteq> r" for i
    using that by (simp add: b')
  have opp: "side_wf (opposite s) ?b" "ids (opposite s) b = r # ids (opposite s) ?b"
    "abs_of ?b (opposite s) = tl (abs_of b (opposite s))"
    using side_wf_pop [OF wf(7) lv b'(2)] same wf(9) by metis+
  have own: "side_wf s ?b" "ids s ?b = ids s b" "abs_of ?b s = abs_of b s"
    using side_wf_frame [OF wf(6) b'(1)] same wf(8) ne(2) by metis+
  show "abs_of ?b (opposite s) = tl (abs_of b (opposite s))" "abs_of ?b s = abs_of b s"
    by (rule opp, rule own)
  from wf(7) opp(2) have "r \<notin> set (ids (opposite s) ?b)" by (simp add: side_wf_def)
  then have "book_wf {p} ?b"
    using book_wfD(3-5) [OF wf(1), of s] own opp ne wf(8,9)
    by (intro book_wfI [of s]) (auto simp: b')
  with wf q ne show "matching s p (fill q inc) ?b"
    by (simp add: matching_def b' order_ok_fill)
qed

text \<open>The incoming order is filled and the resting order stays, reduced.\<close>

lemma settle_partial:
  assumes m: "matching s p inc b" and lv: "levels (opposite s) b = (bp, r # l) # m'"
    and res: "ownedOrders b r = Some res" "getId res = r" "resting_order (opposite s) res"
    and q: "0 < q" "q \<le> getRemainingQuantity inc" "q < getRemainingQuantity res"
  shows "matching s p (fill q inc) (settleResting s bp r l m' (fill q res) (store p (fill q inc) b))"
    (is "matching _ _ _ ?b")
    and "abs_of (settleResting s bp r l m' (fill q res) (store p (fill q inc) b)) (opposite s) =
      setStatus (fill q res) PARTIALLY_FILLED # tl (abs_of b (opposite s))"
    and "abs_of (settleResting s bp r l m' (fill q res) (store p (fill q inc) b)) s = abs_of b s"
    and "levels s (settleResting s bp r l m' (fill q res) (store p (fill q inc) b)) = levels s b"
proof -
  note wf = matchingD [OF m]
  have ids: "ids (opposite s) b = r # l @ level_ids m'" by (simp add: ids_def lv)
  with wf ids_disjoint [OF wf(6,7)] have ne: "r \<noteq> p" "r \<notin> set (ids s b)" by auto
  have b': "levels s ?b = levels s b" "levels (opposite s) ?b = levels (opposite s) b"
    "ownedOrders ?b = ((ownedOrders b)(p \<mapsto> fill q inc))(r \<mapsto> setStatus (fill q res) PARTIALLY_FILLED)"
    "orderLocation ?b = orderLocation b"
    using q by (auto simp: settleResting_def Let_def)
  show "levels s ?b = levels s b" by (rule b'(1))
  have same: "ownedOrders ?b i = ownedOrders b i" if "i \<noteq> p" "i \<noteq> r" for i
    using that by (simp add: b')
  have r': "ownedOrders ?b r = Some (setStatus (fill q res) PARTIALLY_FILLED)" by (simp add: b')
  have same': "ownedOrders ?b i = ownedOrders b i" if "i \<in> set (ids (opposite s) b)" "i \<noteq> r" for i
    using that same wf(9) by metis
  have opp: "side_wf (opposite s) ?b" "ids (opposite s) ?b = ids (opposite s) b"
    "abs_of ?b (opposite s) = setStatus (fill q res) PARTIALLY_FILLED # tl (abs_of b (opposite s))"
    using side_wf_front [OF wf(7) ids b'(2) res(1) r' resting_order_partial [OF res(3) q(1,3)]
        _ _ _ same']
    by (simp_all add: b'(4))
  have own: "side_wf s ?b" "ids s ?b = ids s b" "abs_of ?b s = abs_of b s"
    using side_wf_frame [OF wf(6) b'(1)] same wf(8) ne(2) b'(4) by metis+
  show "abs_of ?b (opposite s) = setStatus (fill q res) PARTIALLY_FILLED # tl (abs_of b (opposite s))"
    "abs_of ?b s = abs_of b s"
    by (rule opp, rule own)
  have "book_wf {p} ?b"
    using book_wfD(3-5) [OF wf(1), of s] own opp ids
    by (intro book_wfI [of s]) (auto simp: b')
  with wf q ne show "matching s p (fill q inc) ?b"
    by (simp add: matching_def b' order_ok_fill)
qed

text \<open>The loop is the sweep of the specification.\<close>

lemma matchLoop_done:
  assumes "matching s p inc b" and "getRemainingQuantity inc = 0 \<or> levels (opposite s) b = [] \<or>
    \<not> willing inc (fst (hd (levels (opposite s) b)))"
  shows "matchLoop s clk p b ts = Inr (ts, b)"
proof -
  from matchingD [OF assms(1)] have "ownedOrders b p = Some inc" "getSide inc = s" by auto
  with assms(2) show ?thesis
    by (subst matchLoop.simps) (auto simp: deref_def priceOk_willing order_ok_def)
qed

lemma matchLoop_step:
  assumes m: "matching s p inc b" and lv: "levels (opposite s) b = (bp, l) # m'"
    and go: "getRemainingQuantity inc \<noteq> 0" "willing inc bp"
  obtains r l' res where "l = r # l'" "ownedOrders b r = Some res" "getId res = r"
    "resting_order (opposite s) res" "limit_price res = bp"
    "abs_of b (opposite s) = res # tl (abs_of b (opposite s))"
    "matchLoop s clk p b ts =
       (let q = min (getRemainingQuantity inc) (getRemainingQuantity res) in
        matchLoop s clk p (settleResting s bp r l' m' (fill q res) (store p (fill q inc) b))
          (ts @ [execution inc res q (clk (length ts))]))"
proof -
  note wf = matchingD [OF m]
  from front_of_level [OF wf(7) lv] obtain r l' res where
    fr: "l = r # l'" "ownedOrders b r = Some res" "getId res = r" "resting_order (opposite s) res"
      "limit_price res = bp" "abs_of b (opposite s) = res # tl (abs_of b (opposite s))"
      "ids (opposite s) b = r # tl (ids (opposite s) b)" .
  from fr(7) wf(9) have "r \<noteq> p" by (metis list.set_intros(1))
  from go wf(5) have pos: "0 < getRemainingQuantity inc" by (simp add: order_ok_def)
  have step: "matchStep s clk p b ts =
      (let q = min (getRemainingQuantity inc) (getRemainingQuantity res) in
       Inr (ts @ [execution inc res q (clk (length ts))],
            settleResting s bp r l' m' (fill q res) (store p (fill q inc) b)))"
    using matchStep_eq [OF wf(2,4,5) pos _ fr(2,4,5) \<open>r \<noteq> p\<close>] lv fr(1) by simp
  have "matchLoop s clk p b ts =
      bindE (matchStep s clk p b ts) (\<lambda>(ts', b'). matchLoop s clk p b' ts')"
    using pos go wf by (subst matchLoop.simps) (simp add: deref_def lv priceOk_willing)
  then show thesis
    using fr by (intro that [of r l' res]) (simp_all add: step Let_def)
qed

text \<open>One round of the loop, matched with one step of the sweep.\<close>

lemma matchLoop_full:
  assumes m: "matching s p inc b" and lv: "levels (opposite s) b = (bp, l) # m'"
    and go: "getRemainingQuantity inc \<noteq> 0" "willing inc bp"
    and full: "getRemainingQuantity (hd (abs_of b (opposite s))) \<le> getRemainingQuantity inc"
  obtains b' ts' inc' where "matchLoop s clk p b ts = matchLoop s clk p b' ts'"
    "matching s p inc' b'" "abs_of b' (opposite s) = tl (abs_of b (opposite s))"
    "abs_of b (opposite s) \<noteq> []" "abs_of b' s = abs_of b s" "levels s b' = levels s b"
    "sweep clk inc (abs_of b (opposite s)) ts = sweep clk inc' (abs_of b' (opposite s)) ts'"
proof (rule matchLoop_step [OF m lv go, of clk ts])
  fix r l' res
  assume st: "l = r # l'" "ownedOrders b r = Some res" "getId res = r"
    "resting_order (opposite s) res" "limit_price res = bp"
    "abs_of b (opposite s) = res # tl (abs_of b (opposite s))"
    "matchLoop s clk p b ts =
     (let q = min (getRemainingQuantity inc) (getRemainingQuantity res) in
      matchLoop s clk p (settleResting s bp r l' m' (fill q res) (store p (fill q inc) b))
        (ts @ [execution inc res q (clk (length ts))]))"
  from st(6) full have le: "getRemainingQuantity res \<le> getRemainingQuantity inc"
    by (metis list.sel(1))
  from st(4) have "0 \<le> getRemainingQuantity res" by (simp add: resting_order_def)
  note settled = settle_full [OF m lv [unfolded st(1)] st(2,3) this le refl]
  have "sweep clk inc (abs_of b (opposite s)) ts =
      sweep clk (fill (getRemainingQuantity res) inc) (tl (abs_of b (opposite s)))
        (ts @ [execution inc res (getRemainingQuantity res) (clk (length ts))])"
    using sweep_full [of inc res clk "tl (abs_of b (opposite s))" ts] go st(5,6) le by metis
  with settled st(6,7) le show thesis
    by (intro that [OF _ settled(1)]) (auto simp: Let_def min_def)
qed

lemma matchLoop_partial:
  assumes m: "matching s p inc b" and lv: "levels (opposite s) b = (bp, l) # m'"
    and go: "getRemainingQuantity inc \<noteq> 0" "willing inc bp"
    and part: "getRemainingQuantity inc < getRemainingQuantity (hd (abs_of b (opposite s)))"
  obtains b' ts' inc' where "matchLoop s clk p b ts = Inr (ts', b')"
    "matching s p inc' b'" "abs_of b' s = abs_of b s" "levels s b' = levels s b"
    "sweep clk inc (abs_of b (opposite s)) ts = (ts', inc', abs_of b' (opposite s))"
proof (rule matchLoop_step [OF m lv go, of clk ts])
  fix r l' res
  assume st: "l = r # l'" "ownedOrders b r = Some res" "getId res = r"
    "resting_order (opposite s) res" "limit_price res = bp"
    "abs_of b (opposite s) = res # tl (abs_of b (opposite s))"
    "matchLoop s clk p b ts =
     (let q = min (getRemainingQuantity inc) (getRemainingQuantity res) in
      matchLoop s clk p (settleResting s bp r l' m' (fill q res) (store p (fill q inc) b))
        (ts @ [execution inc res q (clk (length ts))]))"
  from st(6) part have le: "getRemainingQuantity inc < getRemainingQuantity res"
    by (metis list.sel(1))
  from go matchingD(5) [OF m] have "0 < getRemainingQuantity inc" by (simp add: order_ok_def)
  note settled = settle_partial [OF m lv [unfolded st(1)] st(2,3,4) this order_refl le]
  have "sweep clk inc (abs_of b (opposite s)) ts =
      (ts @ [execution inc res (getRemainingQuantity inc) (clk (length ts))],
       fill (getRemainingQuantity inc) inc,
       setStatus (fill (getRemainingQuantity inc) res) PARTIALLY_FILLED # tl (abs_of b (opposite s)))"
    using sweep_partial [of inc res clk "tl (abs_of b (opposite s))" ts] go st(5,6) le by metis
  with settled st(7) le matchLoop_done [OF settled(1)] show thesis
    by (intro that [OF _ settled(1)]) (auto simp: Let_def min_def)
qed

text \<open>The loop is the sweep of the specification.\<close>

lemma matchLoop_sweep:
  assumes "matching s p inc b" and "sweep clk inc (abs_of b (opposite s)) ts = (ts', inc', rs')"
  shows "\<exists>b'. matchLoop s clk p b ts = Inr (ts', b') \<and> matching s p inc' b' \<and>
    abs_of b' (opposite s) = rs' \<and> abs_of b' s = abs_of b s \<and> levels s b' = levels s b"
  using assms
proof (induction "length (abs_of b (opposite s))" arbitrary: b inc ts rule: less_induct)
  case less
  note m = less.prems(1)
  show ?case
  proof (cases "levels (opposite s) b")
    case Nil
    then have "abs_of b (opposite s) = []" by (simp add: abs_of_def ids_def)
    with less.prems Nil show ?thesis using matchLoop_done [OF m] by auto
  next
    case (Cons e m')
    obtain bp l where lv: "levels (opposite s) b = (bp, l) # m'" using Cons by (cases e) auto
    consider "getRemainingQuantity inc = 0 \<or> \<not> willing inc bp"
      | "getRemainingQuantity inc \<noteq> 0" "willing inc bp"
        "getRemainingQuantity (hd (abs_of b (opposite s))) \<le> getRemainingQuantity inc"
      | "getRemainingQuantity inc \<noteq> 0" "willing inc bp"
        "getRemainingQuantity inc < getRemainingQuantity (hd (abs_of b (opposite s)))"
      by linarith
    then show ?thesis
    proof cases
      case 1
      from front_of_level [OF matchingD(7) [OF m] lv] obtain res where
        res: "abs_of b (opposite s) = res # tl (abs_of b (opposite s))" "limit_price res = bp"
        by metis
      with 1 less.prems(2) have "ts' = ts" "inc' = inc" "rs' = abs_of b (opposite s)"
        using sweep_stop [of inc res clk "tl (abs_of b (opposite s))" ts] by simp_all
      with 1 lv m show ?thesis using matchLoop_done [OF m] by auto
    next
      case 2
      obtain b' us inc2 where round: "matchLoop s clk p b ts = matchLoop s clk p b' us"
        "matching s p inc2 b'" "abs_of b' (opposite s) = tl (abs_of b (opposite s))"
        "abs_of b (opposite s) \<noteq> []" "abs_of b' s = abs_of b s" "levels s b' = levels s b"
        "sweep clk inc (abs_of b (opposite s)) ts = sweep clk inc2 (abs_of b' (opposite s)) us"
        by (rule matchLoop_full [OF m lv 2])
      from round(3,4) have "length (abs_of b' (opposite s)) < length (abs_of b (opposite s))" by simp
      from less.hyps [OF this round(2), of us] round less.prems(2) show ?thesis by simp
    next
      case 3
      from matchLoop_partial [OF m lv 3] less.prems(2) show ?thesis by (metis prod.inject)
    qed
  qed
qed

section \<open>Resting\<close>

lemma level_ids_map_at:
  "\<exists>xs ys. level_ids m = xs @ ys \<and>
     level_ids (map_at lt [] k (\<lambda>l. l @ [i]) m) = xs @ i # ys"
proof (induction m)
  case Nil
  then show ?case by simp
next
  case (Cons e m)
  obtain q l where e: "e = (q, l)" by (cases e)
  from Cons obtain xs ys where IH: "level_ids m = xs @ ys"
    "level_ids (map_at lt [] k (\<lambda>l. l @ [i]) m) = xs @ i # ys" by blast
  consider "lt q k" | "\<not> lt q k" "lt k q" | "\<not> lt q k" "\<not> lt k q" by blast
  then show ?case
  proof cases
    case 1
    with IH show ?thesis by (intro exI [of _ "l @ xs"] exI [of _ ys]) (simp add: e)
  next
    case 2
    then show ?thesis by (intro exI [of _ "[]"] exI [of _ "l @ level_ids m"]) (simp add: e)
  next
    case 3
    then show ?thesis by (intro exI [of _ l] exI [of _ "level_ids m"]) (simp add: e)
  qed
qed

lemma map_at_queue_up:
  assumes "map_inv (cmp s) isfinite m" and "isfinite p" and "limit_price (f i) = p"
    and "\<forall>(q, l) \<in> set m. l \<noteq> [] \<and> (\<forall>j \<in> set l. limit_price (f j) = q)"
  shows "map f (level_ids (map_at (cmp s) [] p (\<lambda>l. l @ [i]) m)) =
    queue_up s (f i) (map f (level_ids m))"
  using assms
proof (induction m)
  case Nil
  then show ?case by (simp add: queue_up_def Let_def)
next
  case (Cons e m)
  obtain q l where e: "e = (q, l)" by (cases e)
  from Cons.prems have q: "isfinite q" "map_inv (cmp s) isfinite m" "\<forall>k \<in> fst ` set m. cmp s q k"
    and l: "l \<noteq> []" "\<forall>j \<in> set l. limit_price (f j) = q"
    and m: "\<forall>(q, l) \<in> set m. l \<noteq> [] \<and> (\<forall>j \<in> set l. limit_price (f j) = q)"
    by (auto simp: e)
  consider "cmp s q p" | "q = p" | "cmp s p q"
    using keys.total [OF q(1) Cons.prems(2)] by blast
  then show ?case
  proof cases
    case 1
    with l Cons.prems(3) keys.asym [OF 1]
    have "queue_up s (f i) (map f l @ map f (level_ids m)) = map f l @ queue_up s (f i) (map f (level_ids m))"
      by (intro queue_up_append) (auto simp: cmp_better)
    then show ?thesis
      using 1 Cons.IH [OF q(2) Cons.prems(2,3) m] by (simp add: e)
  next
    case 2
    with l Cons.prems(3) keys.irrefl [of s p]
    have "queue_up s (f i) (map f l @ map f (level_ids m)) = map f l @ queue_up s (f i) (map f (level_ids m))"
      by (intro queue_up_append) (auto simp: cmp_better)
    moreover have "queue_up s (f i) (map f (level_ids m)) = f i # map f (level_ids m)"
      using q(3) m 2 Cons.prems(3) by (intro queue_up_front, cases m) (auto simp: neq_Nil_conv cmp_better)
    ultimately show ?thesis using 2 keys.irrefl by (simp add: e)
  next
    case 3
    with l Cons.prems(3) have "queue_up s (f i) (map f (l @ level_ids m)) = f i # map f (l @ level_ids m)"
      by (intro queue_up_front) (auto simp: neq_Nil_conv cmp_better)
    with keys.asym [OF 3] 3 show ?thesis by (simp add: e)
  qed
qed

text \<open>A level of the side the order rests on, after it has joined.\<close>

lemma rest_level_entries:
  assumes inv: "map_inv (cmp s) isfinite m" and p: "isfinite p"
    and e: "(q, k) \<in> set (map_at (cmp s) [] p (\<lambda>l. l @ [i]) m)"
  shows "k \<noteq> [] \<and> (\<forall>j \<in> set k. j = i \<and> q = p \<or> (\<exists>l. (q, l) \<in> set m \<and> j \<in> set l)) \<or> (q, k) \<in> set m"
proof -
  let ?m = "map_at (cmp s) [] p (\<lambda>l. l @ [i]) m"
  have inv': "map_inv (cmp s) isfinite ?m" by (rule keys.map_inv_map_at [OF inv p])
  from e inv' have q: "isfinite q" by (auto simp: map_inv_def)
  from keys.map_find_Some [OF inv' q] e have "map_find (cmp s) q ?m = Some k" by simp
  with keys.map_find_map_at [OF inv p q, of "[]" "\<lambda>l. l @ [i]"]
  have k: "if q = p then k = (case map_find (cmp s) p m of None \<Rightarrow> [] | Some l \<Rightarrow> l) @ [i]
      else map_find (cmp s) q m = Some k"
    by (auto split: if_splits)
  show ?thesis
  proof (cases "q = p")
    case True
    with k keys.map_find_Some [OF inv p] show ?thesis by (auto split: option.splits)
  next
    case False
    with k keys.map_find_Some [OF inv q] show ?thesis by simp
  qed
qed

lemma restInBook_refines:
  assumes m: "matching s i inc b" and dyn: "dynType inc = LimitOrder p"
    and rem: "getRemainingQuantity inc \<noteq> 0" and st: "getStatus inc = rest_status inc"
  obtains b' where "restInBook b i = Inr b'" "book_wf {} b'"
    "abs_of b' s = queue_up s inc (abs_of b s)" "abs_of b' (opposite s) = abs_of b (opposite s)"
proof -
  note wf = matchingD [OF m]
  let ?m = "map_at (cmp s) [] p (\<lambda>l. l @ [i]) (levels s b)"
  let ?b1 = "set_levels s ?m b"
  define b' where "b' = ?b1\<lparr>orderLocation := (orderLocation ?b1)(i \<mapsto> location s p i)\<rparr>"
  have lv: "levels s b' = ?m" "levels (opposite s) b' = levels (opposite s) b"
    by (cases s; simp add: b'_def)+
  have ow: "ownedOrders b' = ownedOrders b" "orderLocation b' = (orderLocation b)(i \<mapsto> location s p i)"
    by (simp_all add: b'_def)
  from wf(5) dyn rem have inc: "isfinite p" "resting_order s inc" "limit_price inc = p"
    using wf(4) st by (auto simp: order_ok_def price_ok_def resting_order_def limit_price_def)
  from wf(6) have inv: "map_inv (cmp s) isfinite (levels s b)" by (simp add: side_wf_def)
  have new: "resting_at s b' p i" using wf dyn inc by (simp add: resting_at_def ow)
  have old: "resting_at s b' q j" if "(q, l) \<in> set (levels s b)" "j \<in> set l" for q l j
  proof -
    from that wf(8) have "j \<noteq> i" by (auto simp: ids_def set_level_ids)
    then show ?thesis using side_wf_level(2) [OF wf(6) that] resting_at_cong [of b' j b] by (simp add: ow)
  qed
  have "k \<noteq> [] \<and> (\<forall>j \<in> set k. resting_at s b' q j)" if "(q, k) \<in> set ?m" for q k
    using rest_level_entries [OF inv inc(1) that]
  proof (elim disjE conjE)
    assume "(q, k) \<in> set (levels s b)"
    with old side_wf_level(1) [OF wf(6)] show ?thesis by blast
  next
    assume "k \<noteq> []" "\<forall>j \<in> set k. j = i \<and> q = p \<or> (\<exists>l. (q, l) \<in> set (levels s b) \<and> j \<in> set l)"
    with new show ?thesis by (auto intro: old)
  qed
  moreover obtain xs ys where ids: "ids s b = xs @ ys" "ids s b' = xs @ i # ys"
    using level_ids_map_at [of "levels s b" "cmp s" p i] by (auto simp: ids_def lv)
  moreover from wf(6) have "distinct (ids s b)" by (simp add: side_wf_def)
  ultimately have side: "side_wf s b'"
    using wf(8) keys.map_inv_map_at [OF inv inc(1)] by (auto simp: side_wf_def lv)
  have opp: "side_wf (opposite s) b'" "ids (opposite s) b' = ids (opposite s) b"
    "abs_of b' (opposite s) = abs_of b (opposite s)"
    using side_wf_frame [OF wf(7) lv(2)] wf(9) by (auto simp: ow)
  have "book_wf {} b'"
    using side opp book_wfD(3-5) [OF wf(1), of s] ids by (intro book_wfI [of s]) (auto simp: ow)
  moreover have "abs_of b' s = queue_up s inc (abs_of b s)"
  proof -
    have "order_at b i = inc" by (simp add: order_at_def wf(2))
    with inc(3) have "map (order_at b) (level_ids ?m) = queue_up s inc (map (order_at b) (level_ids (levels s b)))"
      using map_at_queue_up [OF inv inc(1), of "order_at b" i] side_wf_level(1) [OF wf(6)]
        side_wf_level_price [OF wf(6)] by fastforce
    moreover have "order_at b' = order_at b" by (simp add: order_at_def ow fun_eq_iff)
    ultimately show ?thesis by (simp add: abs_of_def ids_def lv)
  qed
  moreover have "restInBook b i = Inr b'"
    using wf dyn by (simp add: restInBook_def deref_def Let_def b'_def location_def)
  ultimately show thesis using opp by (intro that)
qed

section \<open>Adding an order\<close>

lemma store_matching:
  assumes "book_wf {} b" and "ownedOrders b (getId ord) = None" and "order_ok ord"
  shows "matching (getSide ord) (getId ord) ord (store (getId ord) ord b)"
    and "abs_of (store (getId ord) ord b) = abs_of b"
proof -
  have new: "getId ord \<notin> set (ids s b)" for s
    using assms(2) book_wfD(3) [OF assms(1), of s] by (metis UnCI domIff)
  note upd = book_wf_owned_update [OF assms(1) new, of "store (getId ord) ord b" "Some ord"]
  show "matching (getSide ord) (getId ord) ord (store (getId ord) ord b)"
    "abs_of (store (getId ord) ord b) = abs_of b"
    using upd assms(3) by (simp_all add: matching_def)
qed

text \<open>The incoming order gets its final status before it is dropped or rests.\<close>

lemma matching_new: "matching s i inc b \<Longrightarrow> i \<notin> set (ids t b)"
  using matchingD(8,9) [of s i inc b] by (cases "t = s"; cases s; cases t) auto

lemma matching_setStatus:
  assumes "matching s i inc b"
  shows "matching s i (setStatus inc st) (store i (setStatus inc st) b)"
    and "abs_of (store i (setStatus inc st) b) = abs_of b"
  using book_wf_owned_update [OF matchingD(1) [OF assms] matching_new [OF assms],
      of "store i (setStatus inc st) b" "Some (setStatus inc st)"] matchingD(3-5) [OF assms]
  by (simp_all add: matching_def)

lemma matching_drop:
  assumes "matching s i inc b"
  shows "book_wf {} (erase_owned i b)" and "abs_of (erase_owned i b) = abs_of b"
  using book_wf_owned_update [OF matchingD(1) [OF assms] matching_new [OF assms],
      of "erase_owned i b" None]
  by simp_all

lemma addOrder_refines_wf:
  assumes wf: "book_wf {} b" and new: "ownedOrders b (getId ord) = None" and ok: "order_ok ord"
  shows "\<exists>ts b'. addOrder clk b (Some ord) = Inr (ts, b') \<and> book_wf {} b' \<and>
    spec_add clk (abs_of b) ord = (ts, abs_of b')"
proof -
  let ?s = "getSide ord" and ?i = "getId ord" and ?b1 = "store (getId ord) ord b"
  obtain ts ord' rs where sw: "sweep clk ord (abs_of b (opposite ?s)) [] = (ts, ord', rs)"
    by (metis prod_cases3)
  note start = store_matching [OF wf new ok]
  from matchLoop_sweep [OF start(1), of clk "[]"] sw start(2) obtain b2 where
    loop: "matchLoop ?s clk ?i ?b1 [] = Inr (ts, b2)" and m2: "matching ?s ?i ord' b2"
    and abs2: "abs_of b2 (opposite ?s) = rs" "abs_of b2 ?s = abs_of b ?s"
    by auto
  have A: "abs_of b2 = (abs_of b)(opposite ?s := rs)"
  proof
    fix t show "abs_of b2 t = ((abs_of b)(opposite ?s := rs)) t"
      using abs2 by (cases t; cases ?s) auto
  qed
  have inc: "matchIncoming clk ?b1 ?i = Inr (ts, b2)"
    using loop by (simp add: matchIncoming_def deref_def)
  note m2D = matchingD [OF m2]
  have add: "addOrder clk b (Some ord) =
      (if getRemainingQuantity ord' = 0 then
         Inr (ts, erase_owned ?i (store ?i (setStatus ord' FILLED) b2))
       else if getOrderKind ord' = LIMIT then
         bindE (restInBook (store ?i (setStatus ord' (rest_status ord')) b2) ?i) (\<lambda>b3. Inr (ts, b3))
       else Inr (ts, erase_owned ?i (store ?i (setStatus ord' CANCELLED) b2)))"
    using new m2D(2) inc by (simp add: addOrder_def Let_def deref_def rest_status_def)
  have drop: "book_wf {} (erase_owned ?i (store ?i (setStatus ord' st) b2)) \<and>
      abs_of (erase_owned ?i (store ?i (setStatus ord' st) b2)) = abs_of b2" for st
    using matching_drop [OF matching_setStatus(1) [OF m2]] matching_setStatus(2) [OF m2] by simp
  show ?thesis
  proof (cases "getRemainingQuantity ord' = 0 \<or> getOrderKind ord' = MARKET")
    case True
    with add drop sw A show ?thesis by (auto simp: spec_add_def simp del: getOrderKind.simps)
  next
    case False
    then obtain p where p: "dynType ord' = LimitOrder p"
      by (auto split: order_class.splits)
    from restInBook_refines [OF matching_setStatus(1) [OF m2, of "rest_status ord'"]] p False
    obtain b3 where rest: "restInBook (store ?i (setStatus ord' (rest_status ord')) b2) ?i = Inr b3"
      "book_wf {} b3" "abs_of b3 ?s = queue_up ?s (setStatus ord' (rest_status ord')) (abs_of b2 ?s)"
      "abs_of b3 (opposite ?s) = abs_of b2 (opposite ?s)"
      using matching_setStatus(2) [OF m2] by (auto simp: rest_status_def)
    then have "abs_of b3 = (abs_of b2)(?s := queue_up ?s (setStatus ord' (rest_status ord')) (abs_of b ?s))"
      using abs2 by (intro ext, case_tac x; cases ?s) auto
    with rest False p add sw A show ?thesis by (auto simp: spec_add_def)
  qed
qed

section \<open>Cancelling an order\<close>

lemma filter_neq_notin: "i \<notin> set xs \<Longrightarrow> filter (\<lambda>j. j \<noteq> i) xs = xs"
  by (induction xs) auto

lemma remove1_filter_neq: "distinct xs \<Longrightarrow> remove1 i xs = filter (\<lambda>j. j \<noteq> i) xs"
  by (induction xs) (auto simp: filter_neq_notin)

text \<open>Taking one pointer out of its level takes it out of the side's sequence.\<close>

lemma level_ids_map_at_remove:
  assumes "map_inv (cmp s) isfinite m" and "(p, l) \<in> set m" and "i \<in> set l"
    and "distinct (level_ids m)"
  shows "level_ids (map_at (cmp s) [] p (\<lambda>_. remove1 i l) m) = filter (\<lambda>j. j \<noteq> i) (level_ids m)"
  using assms
proof (induction m)
  case Nil
  then show ?case by simp
next
  case (Cons e m)
  obtain q k where e: "e = (q, k)" by (cases e)
  from Cons.prems have q: "map_inv (cmp s) isfinite m" "\<forall>x \<in> fst ` set m. cmp s q x"
    and d: "distinct k" "distinct (level_ids m)" "set k \<inter> set (level_ids m) = {}"
    by (auto simp: e)
  show ?case
  proof (cases "(p, l) = (q, k)")
    case True
    with d Cons.prems(3) have "i \<notin> set (level_ids m)" by auto
    with True d(1) keys.irrefl show ?thesis by (simp add: e remove1_filter_neq filter_neq_notin)
  next
    case False
    with Cons.prems(2) have "(p, l) \<in> set m" by (auto simp: e)
    moreover from this q(2) have "cmp s q p" by force
    moreover from \<open>(p, l) \<in> set m\<close> Cons.prems(3) have "i \<in> set (level_ids m)"
      by (auto simp: set_level_ids)
    with d(3) have "i \<notin> set k" by auto
    ultimately show ?thesis
      using Cons.IH [OF q(1) _ Cons.prems(3) d(2)] by (simp add: e filter_neq_notin)
  qed
qed

lemma level_ids_map_erase:
  "map_inv (cmp s) isfinite m \<Longrightarrow> (p, []) \<in> set m \<Longrightarrow> level_ids (map_erase (cmp s) p m) = level_ids m"
proof (induction m)
  case Nil
  then show ?case by simp
next
  case (Cons e m)
  obtain q k where e: "e = (q, k)" by (cases e)
  show ?case
  proof (cases "(p, []) = (q, k)")
    case True
    then show ?thesis using keys.irrefl by (simp add: e)
  next
    case False
    with Cons.prems have "(p, []) \<in> set m" "cmp s q p" "map_inv (cmp s) isfinite m"
      by (force simp: e)+
    with Cons.IH show ?thesis by (simp add: e)
  qed
qed

lemma cancel_levels_facts:
  assumes inv: "map_inv (cmp s) isfinite m" and e: "(p, l) \<in> set m" and i: "i \<in> set l"
    and d: "distinct (level_ids m)" and ne: "\<forall>(q, k) \<in> set m. k \<noteq> []"
  shows "map_inv (cmp s) isfinite (cancel_levels s p i l m)"
    and "level_ids (cancel_levels s p i l m) = filter (\<lambda>j. j \<noteq> i) (level_ids m)"
    and "\<forall>(q, k) \<in> set (cancel_levels s p i l m). k \<noteq> [] \<and> (\<exists>k'. (q, k') \<in> set m \<and> set k \<subseteq> set k')"
proof -
  let ?m = "map_at (cmp s) [] p (\<lambda>_. remove1 i l) m"
  from inv e have p: "isfinite p" by (auto simp: map_inv_def)
  have inv': "map_inv (cmp s) isfinite ?m" by (rule keys.map_inv_map_at [OF inv p])
  then show inv'': "map_inv (cmp s) isfinite (cancel_levels s p i l m)"
    using keys.map_inv_map_erase [OF inv', of p]
    by (cases "remove1 i l = []") (simp_all add: cancel_levels_def)
  have find: "map_find (cmp s) q ?m = (if q = p then Some (remove1 i l) else map_find (cmp s) q m)"
    if "isfinite q" for q
    using keys.map_find_map_at [OF inv p that, of "[]" "\<lambda>_. remove1 i l"] by simp
  have "(p, []) \<in> set ?m" if "remove1 i l = []"
    using find [OF p] keys.map_find_Some [OF inv' p, of "[]"] that by simp
  then show "level_ids (cancel_levels s p i l m) = filter (\<lambda>j. j \<noteq> i) (level_ids m)"
    using level_ids_map_at_remove [OF inv e i d] level_ids_map_erase [OF inv', of p]
    by (cases "remove1 i l = []") (simp_all add: cancel_levels_def)
  show "\<forall>(q, k) \<in> set (cancel_levels s p i l m). k \<noteq> [] \<and> (\<exists>k'. (q, k') \<in> set m \<and> set k \<subseteq> set k')"
  proof (clarify)
    fix q k
    assume qk: "(q, k) \<in> set (cancel_levels s p i l m)"
    with inv'' have q: "isfinite q" by (auto simp: map_inv_def)
    from qk have f: "map_find (cmp s) q (cancel_levels s p i l m) = Some k"
      using keys.map_find_Some [OF inv'' q] by simp
    show "k \<noteq> [] \<and> (\<exists>k'. (q, k') \<in> set m \<and> set k \<subseteq> set k')"
    proof (cases "q = p")
      case True
      with f have "k = remove1 i l" "k \<noteq> []"
        using find [OF p] keys.map_find_map_erase [OF inv' p p]
        by (auto simp: cancel_levels_def Let_def split: if_splits)
      with True e show ?thesis using set_remove1_subset [of i l] by auto
    next
      case False
      with f have "map_find (cmp s) q m = Some k"
        using find [OF q] keys.map_find_map_erase [OF inv' p q]
        by (auto simp: cancel_levels_def Let_def split: if_splits)
      with keys.map_find_Some [OF inv q] ne show ?thesis by auto
    qed
  qed
qed

lemma cancel_side_wf:
  assumes side: "side_wf s b" and pl: "(p, l) \<in> set (levels s b)" "i \<in> set l"
    and lv: "levels s b' = cancel_levels s p i l (levels s b)"
    and same: "\<forall>j. j \<noteq> i \<longrightarrow> ownedOrders b' j = ownedOrders b j \<and> orderLocation b' j = orderLocation b j"
  shows "side_wf s b'" "ids s b' = filter (\<lambda>j. j \<noteq> i) (ids s b)"
    "abs_of b' s = filter (\<lambda>r. getId r \<noteq> i) (abs_of b s)"
proof -
  from side have inv: "map_inv (cmp s) isfinite (levels s b)" "distinct (level_ids (levels s b))"
    "\<forall>(q, k) \<in> set (levels s b). k \<noteq> []"
    by (auto simp: side_wf_def ids_def)
  note facts = cancel_levels_facts [OF inv(1) pl inv(2,3), folded lv]
  show ids: "ids s b' = filter (\<lambda>j. j \<noteq> i) (ids s b)" using facts(2) by (simp add: ids_def)
  have "resting_at s b' q j" if "(q, k) \<in> set (levels s b')" "j \<in> set k" for q k j
  proof -
    from that have "j \<in> set (ids s b')" by (auto simp: ids_def set_level_ids)
    with ids have "j \<noteq> i" by simp
    moreover from that facts(3) obtain k' where "(q, k') \<in> set (levels s b)" "j \<in> set k'"
      by fastforce
    with side_wf_level(2) [OF side] have "resting_at s b q j" by blast
    ultimately show ?thesis using resting_at_cong [of b' j b] same by simp
  qed
  with facts(1,3) inv(2) show "side_wf s b'" by (auto simp: side_wf_def ids) (simp add: ids_def)
  have "getId (order_at b j) = j" if "j \<in> set (ids s b)" for j
    using that by (auto elim!: side_wf_mem [OF side] resting_atE)
  then have "filter (\<lambda>r. getId r \<noteq> i) (abs_of b s) = map (order_at b) (filter (\<lambda>j. j \<noteq> i) (ids s b))"
    by (auto simp: abs_of_def filter_map intro!: arg_cong [of _ _ "map (order_at b)"] filter_cong)
  also have "\<dots> = abs_of b' s" using same by (simp add: abs_of_def ids order_at_def)
  finally show "abs_of b' s = filter (\<lambda>r. getId r \<noteq> i) (abs_of b s)" by simp
qed

lemma spec_cancel_other:
  assumes "side_wf s b" and "i \<notin> set (ids s b)"
  shows "spec_cancel (abs_of b) i s = abs_of b s"
  using abs_of_resting(2) [OF assms(1)] assms(2) by (auto simp: spec_cancel_def filter_id_conv)

lemma cancelOrder_resting:
  assumes wf: "book_wf {} b" and i: "i \<in> set (ids s b)"
  obtains b' where "cancelOrder b i = Inr (True, b')" "book_wf {} b'"
    "abs_of b' = spec_cancel (abs_of b) i" "ownedOrders b' = (ownedOrders b)(i := None)"
proof -
  note side = book_wfD(1,2) [OF wf, of s]
  from side_wf_mem [OF side(1) i] obtain p l where pl: "(p, l) \<in> set (levels s b)" "i \<in> set l"
    and at: "resting_at s b p i" .
  define b' where
    "b' = erase_owned i (erase_location i (set_levels s (cancel_levels s p i l (levels s b)) b))"
  have b': "levels s b' = cancel_levels s p i l (levels s b)" "levels (opposite s) b' = levels (opposite s) b"
    "ownedOrders b' = (ownedOrders b)(i := None)" "orderLocation b' = (orderLocation b)(i := None)"
    by (simp_all add: b'_def)
  have "map_find (cmp s) p (levels s b) = Some l"
    using keys.map_find_Some [of s "levels s b" p l] pl(1) side_wf_level(3) [OF side(1) pl(1)] side(1)
    by (simp add: side_wf_def)
  with at pl(2) have res: "cancelOrder b i = Inr (True, b')"
    by (auto simp: cancelOrder_def location_def Let_def cancel_levels_def b'_def erase_owned_def
        store_def elim!: resting_atE)
  have own: "side_wf s b'" "ids s b' = filter (\<lambda>j. j \<noteq> i) (ids s b)"
    "abs_of b' s = filter (\<lambda>r. getId r \<noteq> i) (abs_of b s)"
    by (rule cancel_side_wf [OF side(1) pl b'(1)]; simp add: b')+
  from ids_disjoint [OF side] i have other: "i \<notin> set (ids (opposite s) b)" by auto
  have opp: "side_wf (opposite s) b'" "ids (opposite s) b' = ids (opposite s) b"
    "abs_of b' (opposite s) = abs_of b (opposite s)"
    by (rule side_wf_frame [OF side(2) b'(2)]; use other in \<open>auto simp: b'\<close>)+
  have "book_wf {} b'"
    using own opp book_wfD(3-5) [OF wf, of s] other by (intro book_wfI [of s]) (auto simp: b')
  moreover have "abs_of b' t = spec_cancel (abs_of b) i t" for t
    using own(3) opp(3) spec_cancel_other [OF side(2) other]
    by (cases "t = s"; cases s; cases t) (auto simp: spec_cancel_def)
  ultimately show thesis using res b'(3) by (intro that) auto
qed

lemma cancelOrder_refines_wf:
  assumes wf: "book_wf {} b"
  shows "\<exists>b'. cancelOrder b i = Inr (ownedOrders b i \<noteq> None, b') \<and> book_wf {} b' \<and>
    abs_of b' = spec_cancel (abs_of b) i \<and> ownedOrders b' = (ownedOrders b)(i := None)"
proof (cases "ownedOrders b i")
  case None
  with book_wfD(3,5) [OF wf, of BUY] have "orderLocation b i = None" by (auto simp: domIff)
  moreover have new: "i \<notin> set (ids s b)" for s
    using None book_wfD(3) [OF wf, of s] by (metis UnCI domIff)
  have "spec_cancel (abs_of b) i = abs_of b"
    by (rule ext) (rule spec_cancel_other [OF book_wfD(1) [OF wf] new])
  ultimately show ?thesis using None wf by (auto simp: cancelOrder_def)
next
  case (Some ord)
  then obtain s where "i \<in> set (ids s b)" using book_wfD(3) [OF wf, of BUY] by auto
  then show ?thesis using Some by (auto elim!: cancelOrder_resting [OF wf])
qed

section \<open>The invariant of whole operations\<close>

lemma level_ids_in_priority:
  assumes "map_inv (cmp s) isfinite m" and "\<forall>(q, l) \<in> set m. \<forall>j \<in> set l. limit_price (f j) = q"
  shows "in_priority s (map f (level_ids m))"
  using assms
proof (induction m)
  case Nil
  then show ?case by (simp add: in_priority_def)
next
  case (Cons e m)
  obtain q l where e: "e = (q, l)" by (cases e)
  with Cons.prems have l: "\<forall>j \<in> set l. limit_price (f j) = q"
    and m: "map_inv (cmp s) isfinite m" "\<forall>(q, l) \<in> set m. \<forall>j \<in> set l. limit_price (f j) = q"
    and after: "\<forall>k \<in> fst ` set m. cmp s q k"
    by auto
  have "sorted_wrt (\<lambda>r r'. \<not> better s (limit_price r') (limit_price r)) (map f l)"
    using l keys.irrefl [of s q] by (induction l) (auto simp: cmp_better)
  moreover have "\<not> better s (limit_price (f j)) (limit_price (f i))"
    if "i \<in> set l" "j \<in> set (level_ids m)" for i j
    using that l m(2) after keys.asym [of s q] by (fastforce simp: set_level_ids cmp_better)
  ultimately show ?case
    using Cons.IH [OF m] by (auto simp: e in_priority_def sorted_wrt_append)
qed

lemma abs_of_in_priority: "side_wf s b \<Longrightarrow> in_priority s (abs_of b s)"
  unfolding abs_of_def ids_def
  by (rule level_ids_in_priority) (auto simp: side_wf_level_price side_wf_def)

lemma book_inv_empty: "book_inv empty_book"
proof -
  have "levels s empty_book = []" for s by (cases s) (simp_all add: empty_book_def)
  then have "side_wf s empty_book" "ids s empty_book = []" for s
    by (simp_all add: side_wf_def ids_def map_inv_def)
  then show ?thesis
    by (simp add: book_inv_def book_wf_def uncrossed_def abs_of_def) (simp add: empty_book_def)
qed

lemma addOrder_keeps:
  assumes inv: "book_inv b" and new: "ownedOrders b (getId ord) = None" and ok: "order_ok ord"
  obtains ts b' where "addOrder clk b (Some ord) = Inr (ts, b')" "book_inv b'"
    "spec_add clk (abs_of b) ord = (ts, abs_of b')"
proof -
  from inv have wf: "book_wf {} b" and unc: "uncrossed (abs_of b)" by (simp_all add: book_inv_def)
  obtain ts b' where add: "addOrder clk b (Some ord) = Inr (ts, b')" "book_wf {} b'"
    "spec_add clk (abs_of b) ord = (ts, abs_of b')"
    using addOrder_refines_wf [OF wf new ok] by blast
  have "in_priority s (abs_of b s) \<and> (\<forall>r \<in> set (abs_of b s). resting_order s r)" for s
    using abs_of_in_priority abs_of_resting(1) book_wfD(1) [OF wf, of s] by blast
  then have "uncrossed (abs_of b')"
    using spec_add_uncrossed [OF unc _ _ ok, of clk] add(3) by simp
  with add show thesis by (intro that) (simp_all add: book_inv_def)
qed

lemma cancelOrder_keeps:
  assumes "book_inv b"
  obtains b' where "cancelOrder b i = Inr (ownedOrders b i \<noteq> None, b')" "book_inv b'"
    "abs_of b' = spec_cancel (abs_of b) i" "ownedOrders b' = (ownedOrders b)(i := None)"
proof -
  from assms have wf: "book_wf {} b" and unc: "uncrossed (abs_of b)" by (simp_all add: book_inv_def)
  from cancelOrder_refines_wf [OF wf, of i] unc show thesis
    by (auto simp: book_inv_def uncrossed_def spec_cancel_def intro: that)
qed

end
