(* ===== verification/BookProps.thy ===== *)
theory BookProps
  imports BookSpec
begin

text \<open>
  The properties of the order book, derived from its refinement of the price-time specification.
  \<open>book_reachable\<close> are the books that any sequence of calls leads to.
\<close>

section \<open>Reachable books and what a successful call did\<close>

text \<open>\<open>Order\<close> objects come out of the constructors, so they are well formed; a null pointer may be
  passed. A call that throws leaves the book as it was.\<close>

inductive book_reachable :: "book \<Rightarrow> bool" where
  empty: "book_reachable empty_book"
| add: "book_reachable b \<Longrightarrow> order_ok ord \<Longrightarrow> addOrder clk b (Some ord) = Inr (ts, b') \<Longrightarrow>
    book_reachable b'"
| cancel: "book_reachable b \<Longrightarrow> cancelOrder b i = Inr (found, b') \<Longrightarrow> book_reachable b'"

definition limit_order :: "order_id \<Rightarrow> side \<Rightarrow> int \<Rightarrow> rat \<Rightarrow> order" where
  "limit_order i s q p =
     \<lparr>getId = i, getTraderId = 1, getSide = s, getQuantity = q, getRemainingQuantity = q,
      getTimestamp = 0, getStatus = NEW, dynType = LimitOrder (Finite p)\<rparr>"

definition market_order :: "order_id \<Rightarrow> side \<Rightarrow> int \<Rightarrow> order" where
  "market_order i s q = (limit_order i s q 1)\<lparr>dynType := MarketOrder\<rparr>"

text \<open>The book after a sequence of orders, where a rejected order changes nothing.\<close>

fun add_all :: "order list \<Rightarrow> book \<Rightarrow> book" where
  "add_all [] b = b"
| "add_all (ord # ords) b =
     (case addOrder (\<lambda>_. 0) b (Some ord) of
        Inl e \<Rightarrow> add_all ords b
      | Inr (ts, b') \<Rightarrow> add_all ords b')"

definition book_of :: "order list \<Rightarrow> book" where
  "book_of ords = add_all ords empty_book"

lemma addOrder_dup: "ownedOrders b (getId ord) \<noteq> None \<Longrightarrow>
    addOrder clk b (Some ord) = Inl (invalid_argument ''Order ID is already active'')"
  by (auto simp: addOrder_def)

lemma addOrder_Inr_new:
  "addOrder clk b (Some ord) = Inr (ts, b') \<Longrightarrow> ownedOrders b (getId ord) = None"
  using addOrder_dup by fastforce

lemma book_reachable_inv: "book_reachable b \<Longrightarrow> book_inv b"
proof (induction rule: book_reachable.induct)
  case empty
  show ?case by (rule book_inv_empty)
next
  case (add b ord clk ts b')
  from addOrder_keeps [OF add.IH addOrder_Inr_new [OF add.hyps(3)] add.hyps(2)] add.hyps(3)
  show ?case by (metis Inr_inject prod.inject)
next
  case (cancel b i found b')
  from cancelOrder_keeps [OF cancel.IH] cancel.hyps(2) show ?case by (metis Inr_inject prod.inject)
qed

lemma order_ok_limit_order: "0 < q \<Longrightarrow> q < 2 ^ 31 \<Longrightarrow> 0 < p \<Longrightarrow> order_ok (limit_order i s q p)"
  by (simp add: order_ok_def limit_order_def int32_def price_ok_def)

lemma add_all_reachable:
  "book_reachable b \<Longrightarrow> \<forall>ord \<in> set ords. order_ok ord \<Longrightarrow> book_reachable (add_all ords b)"
  by (induction ords arbitrary: b) (auto split: sum.splits intro: book_reachable.add)

lemma book_of_reachable: "(\<forall>ord \<in> set ords. order_ok ord) \<Longrightarrow> book_reachable (book_of ords)"
  unfolding book_of_def by (rule add_all_reachable [OF book_reachable.empty])

text \<open>A successful \<open>addOrder\<close>, in terms of the specification's sweep.\<close>

lemma addOrder_parts:
  assumes "book_inv b" and "order_ok ord" and "addOrder clk b (Some ord) = Inr (ts, b')"
  obtains ord' where "book_inv b'"
    "sweep clk ord (abs_of b (opposite (getSide ord))) [] = (ts, ord', abs_of b' (opposite (getSide ord)))"
    "abs_of b' (getSide ord) =
       (if getRemainingQuantity ord' = 0 \<or> getOrderKind ord = MARKET then abs_of b (getSide ord)
        else queue_up (getSide ord) (setStatus ord' (rest_status ord')) (abs_of b (getSide ord)))"
proof -
  obtain ts1 b1 where *: "addOrder clk b (Some ord) = Inr (ts1, b1)" "book_inv b1"
    "spec_add clk (abs_of b) ord = (ts1, abs_of b1)"
    by (rule addOrder_keeps [OF assms(1) addOrder_Inr_new [OF assms(3)] assms(2)])
  with assms(3) have spec: "book_inv b'" "spec_add clk (abs_of b) ord = (ts, abs_of b')" by simp_all
  obtain ts2 ord' rs where sw: "sweep clk ord (abs_of b (opposite (getSide ord))) [] = (ts2, ord', rs)"
    by (metis prod_cases3)
  from sweep_incoming_simps(5) [OF sw] have "getOrderKind ord' = getOrderKind ord" by simp
  with sw spec(2) have "ts2 = ts" and A: "abs_of b' = (let A' = (abs_of b)(opposite (getSide ord) := rs) in
      if getRemainingQuantity ord' = 0 \<or> getOrderKind ord = MARKET then A'
      else A'(getSide ord := queue_up (getSide ord) (setStatus ord' (rest_status ord')) (abs_of b (getSide ord))))"
    by (auto simp: spec_add_def Let_def simp del: getOrderKind.simps split: if_splits)
  with sw spec(1) show thesis by (intro that [of ord']) (simp_all add: A Let_def del: getOrderKind.simps)
qed

lemma levels_Nil_iff: "side_wf s b \<Longrightarrow> levels s b = [] \<longleftrightarrow> abs_of b s = []"
  using set_limit_price_abs_of [of s b] by auto

lemma best_level_dominates:
  assumes "side_wf s b" and "levels s b = (p, l) # m" and "r \<in> set (abs_of b s)"
  shows "limit_price r = p \<or> better s p (limit_price r)"
proof -
  from assms(3) set_limit_price_abs_of [OF assms(1)] have "limit_price r \<in> fst ` set (levels s b)"
    by blast
  moreover from assms(1,2) have "\<forall>k \<in> fst ` set m. cmp s p k" by (simp add: side_wf_def)
  ultimately show ?thesis using assms(2) by (auto simp: cmp_better)
qed

lemma book_inv_side: "book_inv b \<Longrightarrow> side_wf s b"
  using book_wfD(1) by (auto simp: book_inv_def)

lemma cancelOrder_inactive:
  assumes "book_inv b" and "ownedOrders b i = None"
  shows "cancelOrder b i = Inr (False, b)"
proof -
  from assms book_wfD(3,5) [of "{}" b BUY] have "orderLocation b i = None"
    by (auto simp: book_inv_def domIff)
  then show ?thesis by (simp add: cancelOrder_def)
qed

text \<open>The active ids are those of the resting orders, so a call adds at most the id of its own order.\<close>

lemma active_ids:
  assumes "book_inv b"
  shows "dom (ownedOrders b) = getId ` set (abs_of b s) \<union> getId ` set (abs_of b (opposite s))"
proof -
  from assms have "dom (ownedOrders b) = set (ids s b) \<union> set (ids (opposite s) b)"
    using book_wfD(3) [of "{}" b s] by (simp add: book_inv_def)
  moreover have "set (ids t b) = getId ` set (abs_of b t)" for t
    using map_getId_abs_of [OF book_inv_side [OF assms], of t] by (metis set_map)
  ultimately show ?thesis by simp
qed

lemma addOrder_active:
  assumes "book_inv b" and "order_ok ord" and "addOrder clk b (Some ord) = Inr (ts, b')"
  shows "dom (ownedOrders b') \<subseteq> insert (getId ord) (dom (ownedOrders b))"
proof -
  let ?s = "getSide ord" and ?o = "opposite (getSide ord)"
  obtain ord' where inv': "book_inv b'" and sw: "sweep clk ord (abs_of b ?o) [] = (ts, ord', abs_of b' ?o)"
    and own: "abs_of b' ?s = (if getRemainingQuantity ord' = 0 \<or> getOrderKind ord = MARKET then abs_of b ?s
        else queue_up ?s (setStatus ord' (rest_status ord')) (abs_of b ?s))"
    by (rule addOrder_parts [OF assms])
  have "getId ` set (abs_of b' ?o) \<subseteq> getId ` set (abs_of b ?o)"
    using sweep_suffix [OF sw] by (metis set_drop_subset set_map)
  moreover have "getId ` set (abs_of b' ?s) \<subseteq> insert (getId ord) (getId ` set (abs_of b ?s))"
    using own sweep_incoming_simps(1) [OF sw] by (auto simp: set_queue_up split: if_splits)
  ultimately show ?thesis
    unfolding active_ids [OF inv', of ?s] active_ids [OF assms(1), of ?s] by auto
qed

lemma best_bid_below_best_ask_inv:
  assumes "book_inv b" and "getBestBid b = Some p" and "getBestAsk b = Some q"
  shows "p < q"
proof -
  note wf = book_inv_side [OF assms(1)]
  from assms have "p \<in> fst ` set (levels BUY b)" "q \<in> fst ` set (levels SELL b)"
    by (auto simp: getBestBid_def getBestAsk_def split: list.splits)
  then have "p \<in> limit_price ` set (abs_of b BUY)" "q \<in> limit_price ` set (abs_of b SELL)"
    using set_limit_price_abs_of [OF wf] by simp_all
  with assms(1) show ?thesis by (auto simp: book_inv_def uncrossed_def)
qed

text \<open>The \<open>while\<close> loop of \<open>matchIncoming\<close> cut off after a number of rounds: nothing is returned when the loop
  would go on.\<close>

fun match_rounds ::
  "nat \<Rightarrow> side \<Rightarrow> (nat \<Rightarrow> timestamp) \<Rightarrow> order_id \<Rightarrow> book \<Rightarrow> trade list \<Rightarrow> (trade list \<times> book) result option" where
  "match_rounds 0 s clk incoming b trades = None"
| "match_rounds (Suc n) s clk incoming b trades =
     (case deref b incoming of
        Inl e \<Rightarrow> Some (Inl e)
      | Inr inc \<Rightarrow>
          if 0 < getRemainingQuantity inc \<and> levels (opposite s) b \<noteq> [] then
            (case priceOk s inc (fst (hd (levels (opposite s) b))) of
               Inl e \<Rightarrow> Some (Inl e)
             | Inr ok \<Rightarrow>
                 if \<not> ok then Some (Inr (trades, b))
                 else (case matchStep s clk incoming b trades of
                         Inl e \<Rightarrow> Some (Inl e)
                       | Inr (trades', b') \<Rightarrow> match_rounds n s clk incoming b' trades'))
          else Some (Inr (trades, b)))"

lemma match_rounds_enough: "match_measure s p b < n \<Longrightarrow> match_rounds n s clk p b ts = Some (matchLoop s clk p b ts)"
proof (induction n arbitrary: b ts)
  case (Suc n)
  have less: "match_measure s p b' < n"
    if "ownedOrders b p = Some inc" "0 < getRemainingQuantity inc" "matchStep s clk p b ts = Inr (ts', b')" for inc ts' b'
    using matchStep_measure [OF that] Suc.prems by simp
  then show ?case
    by (cases "ownedOrders b p"; subst matchLoop.simps)
      (auto simp: deref_def bindE_def Suc.IH simp del: deref_eq_Inr split: sum.splits)
qed simp

section \<open>Properties\<close>

text \<open>C1: adding an order refines the price-time specification. From a book that satisfies the
  invariant, a well-formed order with a new id is accepted without undefined behaviour, the
  invariant holds again, and the trades and the resting orders of both sides are exactly those of
  the specification: sweep the other side from the best price and the oldest order on, then queue
  behind every order of the same or a better price.\<close>

theorem addOrder_refines:
  assumes "book_inv b" and "ownedOrders b (getId ord) = None" and "order_ok ord"
  shows "\<exists>ts b'. addOrder clk b (Some ord) = Inr (ts, b') \<and> book_inv b' \<and>
    spec_add clk (abs_of b) ord = (ts, abs_of b')"
  using addOrder_keeps [OF assms, of clk] by metis

theorem addOrder_refines_witness:
  "\<exists>ts b'. addOrder (\<lambda>_. 0) empty_book (Some (limit_order 1 SELL 10 100)) = Inr (ts, b') \<and>
     book_inv b' \<and> spec_add (\<lambda>_. 0) (abs_of empty_book) (limit_order 1 SELL 10 100) = (ts, abs_of b')"
proof (rule addOrder_refines [OF book_inv_empty])
  show "ownedOrders empty_book (getId (limit_order 1 SELL 10 100)) = None"
    by (simp add: empty_book_def)
  show "order_ok (limit_order 1 SELL 10 100)" by (simp add: order_ok_limit_order)
qed

text \<open>C4: cancelling refines the specification. It returns whether the id was active, the resting
  order with that id and nothing else leaves its side, the id can be used again, the invariant is
  kept and no undefined behaviour (a stale iterator, a missing level) is reached.\<close>

theorem cancelOrder_refines:
  assumes "book_inv b"
  shows "\<exists>b'. cancelOrder b i = Inr (ownedOrders b i \<noteq> None, b') \<and> book_inv b' \<and>
    abs_of b' = spec_cancel (abs_of b) i \<and> ownedOrders b' = (ownedOrders b)(i := None)"
  using cancelOrder_keeps [OF assms, of i] by metis

theorem cancelOrder_refines_witness:
  "\<exists>b'. cancelOrder (book_of [limit_order 1 SELL 10 100]) 1 = Inr (True, b') \<and> book_inv b'"
proof -
  have "book_inv (book_of [limit_order 1 SELL 10 100])"
    by (intro book_reachable_inv book_of_reachable) (simp add: order_ok_limit_order)
  from cancelOrder_refines [OF this, of 1]
  have "\<exists>b'. cancelOrder (book_of [limit_order 1 SELL 10 100]) 1 =
      Inr (ownedOrders (book_of [limit_order 1 SELL 10 100]) 1 \<noteq> None, b') \<and> book_inv b'" by blast
  moreover have "ownedOrders (book_of [limit_order 1 SELL 10 100]) 1 \<noteq> None" by code_simp
  ultimately show ?thesis by simp
qed

text \<open>C5: whatever sequence of calls led to the book, the next call has no undefined behaviour: no
  dangling \<open>Order*\<close> is followed, no empty level is read, no stale iterator is erased and no quantity
  overflows. A null order and an id that is still active are the only requests \<open>addOrder\<close> rejects,
  each with its own \<open>std::invalid_argument\<close>, and \<open>cancelOrder\<close> always returns.\<close>

theorem book_calls_safe:
  assumes "book_reachable b" and "\<And>ord. order = Some ord \<Longrightarrow> order_ok ord"
  shows "(case addOrder clk b order of
      Inl e \<Rightarrow> order = None \<and> e = invalid_argument ''Cannot add a null order'' \<or>
        (\<exists>ord. order = Some ord \<and> ownedOrders b (getId ord) \<noteq> None \<and>
          e = invalid_argument ''Order ID is already active'')
    | Inr (ts, b') \<Rightarrow> (\<exists>ord. order = Some ord \<and> ownedOrders b (getId ord) = None) \<and> book_inv b')
    \<and> (\<exists>found b'. cancelOrder b i = Inr (found, b') \<and> book_inv b')"
proof -
  note inv = book_reachable_inv [OF assms(1)]
  have "\<exists>found b'. cancelOrder b i = Inr (found, b') \<and> book_inv b'"
    using cancelOrder_keeps [OF inv] by metis
  moreover have "case addOrder clk b (Some ord) of
      Inl e \<Rightarrow> ownedOrders b (getId ord) \<noteq> None \<and> e = invalid_argument ''Order ID is already active''
    | Inr (ts, b') \<Rightarrow> ownedOrders b (getId ord) = None \<and> book_inv b'" if given: "order = Some ord" for ord
  proof (cases "ownedOrders b (getId ord) = None")
    case True
    then obtain ts b' where "addOrder clk b (Some ord) = Inr (ts, b')" "book_inv b'"
      by (rule addOrder_keeps [OF inv _ assms(2) [OF given]])
    with True show ?thesis by simp
  next
    case False
    then show ?thesis using addOrder_dup [OF False] by simp
  qed
  ultimately show ?thesis
    by (cases order) (auto simp: addOrder_def [of clk b None] split: sum.splits)
qed

theorem book_calls_safe_witness:
  "\<exists>found b'. cancelOrder (book_of [limit_order 1 SELL 10 100]) 7 = Inr (found, b') \<and> book_inv b'"
proof -
  have "book_reachable (book_of [limit_order 1 SELL 10 100])"
    by (intro book_of_reachable) (simp add: order_ok_limit_order)
  from book_calls_safe [OF this, of None "\<lambda>_. 0" 7] show ?thesis by simp
qed

text \<open>C23: the market is never crossed: in every reachable book the best bid is strictly below the best
  ask.\<close>

theorem best_bid_below_best_ask:
  assumes "book_reachable b" and "getBestBid b = Some p" and "getBestAsk b = Some q"
  shows "p < q"
  by (rule best_bid_below_best_ask_inv [OF book_reachable_inv [OF assms(1)] assms(2,3)])

theorem best_bid_below_best_ask_witness:
  "getBestBid (book_of [limit_order 1 SELL 10 105, limit_order 2 BUY 10 100]) = Some (Finite 100) \<and>
   getBestAsk (book_of [limit_order 1 SELL 10 105, limit_order 2 BUY 10 100]) = Some (Finite 105) \<and>
   Finite 100 < Finite 105"
proof -
  let ?b = "book_of [limit_order 1 SELL 10 105, limit_order 2 BUY 10 100]"
  have r: "book_reachable ?b" by (intro book_of_reachable) (simp add: order_ok_limit_order)
  have bid: "getBestBid ?b = Some (Finite 100)" by code_simp
  have ask: "getBestAsk ?b = Some (Finite 105)" by code_simp
  show ?thesis using bid ask best_bid_below_best_ask [OF r bid ask] by (intro conjI)
qed

text \<open>The best bid is the highest and the best ask the lowest price of a resting order of its
  side, and there is none exactly when no order rests there.\<close>

lemma best_prices_are_best:
  assumes "book_inv b"
  shows "(getBestBid b = None \<longleftrightarrow> abs_of b BUY = []) \<and>
    (getBestAsk b = None \<longleftrightarrow> abs_of b SELL = []) \<and>
    (getBestBid b = Some p \<longrightarrow> p \<in> limit_price ` set (abs_of b BUY) \<and>
      (\<forall>r \<in> set (abs_of b BUY). limit_price r \<le> p)) \<and>
    (getBestAsk b = Some p \<longrightarrow> p \<in> limit_price ` set (abs_of b SELL) \<and>
      (\<forall>r \<in> set (abs_of b SELL). p \<le> limit_price r))"
proof -
  note wf = book_inv_side [OF assms]
  have fin: "limit_price r \<noteq> NaN" if "r \<in> set (abs_of b s)" for r s
    using resting_order_price abs_of_resting(1) [OF wf that] by (metis isfinite.simps(4))
  have bid: "limit_price r \<le> p" if "bids b = (p, l) # m" "r \<in> set (abs_of b BUY)" for l m r
    using best_level_dominates [OF wf [of BUY], of p l m r] that fin [OF that(2)]
    by (auto intro: less_double_imp_le)
  have ask: "p \<le> limit_price r" if "asks b = (p, l) # m" "r \<in> set (abs_of b SELL)" for l m r
    using best_level_dominates [OF wf [of SELL], of p l m r] that fin [OF that(2)]
    by (auto intro: less_double_imp_le)
  have mem: "p \<in> limit_price ` set (abs_of b s)" if "levels s b = (p, l) # m" for s l m
    using set_limit_price_abs_of [OF wf, of s] that by simp
  show ?thesis
  proof (intro conjI impI)
    show "getBestBid b = None \<longleftrightarrow> abs_of b BUY = []"
      using levels_Nil_iff [OF wf, of BUY] by (auto simp: getBestBid_def split: list.splits)
    show "getBestAsk b = None \<longleftrightarrow> abs_of b SELL = []"
      using levels_Nil_iff [OF wf, of SELL] by (auto simp: getBestAsk_def split: list.splits)
  next
    assume "getBestBid b = Some p"
    then obtain l m where lv: "bids b = (p, l) # m" by (auto simp: getBestBid_def split: list.splits)
    show "p \<in> limit_price ` set (abs_of b BUY)" using mem [of BUY] lv by simp
    show "\<forall>r \<in> set (abs_of b BUY). limit_price r \<le> p" using bid [OF lv] by blast
  next
    assume "getBestAsk b = Some p"
    then obtain l m where lv: "asks b = (p, l) # m" by (auto simp: getBestAsk_def split: list.splits)
    show "p \<in> limit_price ` set (abs_of b SELL)" using mem [of SELL] lv by simp
    show "\<forall>r \<in> set (abs_of b SELL). p \<le> limit_price r" using ask [OF lv] by blast
  qed
qed

text \<open>Shares are conserved. The volume an order trades is what it loses and what the other side
  loses; every trade has a positive quantity; on its own side a limit order adds exactly what is left
  of it, and a market order adds nothing.\<close>

lemma addOrder_conserves:
  assumes "book_inv b" and "order_ok ord" and "addOrder clk b (Some ord) = Inr (ts, b')"
  shows "0 \<le> volume ts \<and> volume ts \<le> getRemainingQuantity ord \<and>
    (\<forall>t \<in> set ts. 0 < quantity t) \<and>
    total_remaining (abs_of b' (opposite (getSide ord))) =
      total_remaining (abs_of b (opposite (getSide ord))) - volume ts \<and>
    total_remaining (abs_of b' (getSide ord)) = total_remaining (abs_of b (getSide ord)) +
      (if getOrderKind ord = MARKET then 0 else getRemainingQuantity ord - volume ts)"
proof -
  obtain ord' where parts:
    "sweep clk ord (abs_of b (opposite (getSide ord))) [] = (ts, ord', abs_of b' (opposite (getSide ord)))"
    "abs_of b' (getSide ord) =
       (if getRemainingQuantity ord' = 0 \<or> getOrderKind ord = MARKET then abs_of b (getSide ord)
        else queue_up (getSide ord) (setStatus ord' (rest_status ord')) (abs_of b (getSide ord)))"
    by (rule addOrder_parts [OF assms])
  from assms(2) have nn: "0 \<le> getRemainingQuantity ord" by (simp add: order_ok_def)
  have "\<forall>r \<in> set (abs_of b (opposite (getSide ord))). 0 < getRemainingQuantity r"
    using abs_of_resting(1) [OF book_inv_side [OF assms(1)]] by (auto simp: resting_order_def)
  with sweep_positive_trades [OF parts(1) nn] have pos: "\<forall>t \<in> set ts. 0 < quantity t" by simp
  then have "0 \<le> volume ts" by (intro sum_list_nonneg) auto
  with pos sweep_conserves [OF parts(1)] sweep_remaining_nonneg [OF parts(1) nn] parts(2)
  show ?thesis by (auto simp: total_queue_up simp del: getOrderKind.simps)
qed

text \<open>C24: price-time priority. The trades of an incoming order are with the resting orders of the other
  side in priority order from the front, one trade each, at the resting order's own price; every one
  but the last is filled completely, what was behind the last is untouched, and the incoming order is
  the other party of each trade. Priority order means that no earlier order has a worse price.\<close>

theorem addOrder_priority:
  assumes "book_inv b" and "order_ok ord" and "addOrder clk b (Some ord) = Inr (ts, b')"
  shows "in_priority (opposite (getSide ord)) (abs_of b (opposite (getSide ord))) \<and>
    (let rs = abs_of b (opposite (getSide ord)); n = length ts in
     n \<le> length rs \<and>
     map (counterparty (getSide ord)) ts = map getId (take n rs) \<and>
     map (initiator (getSide ord)) ts = replicate n (getId ord) \<and>
     map price ts = map limit_price (take n rs) \<and>
     map quantity (butlast ts) = map getRemainingQuantity (take (n - 1) rs) \<and>
     (\<exists>front. length front \<le> 1 \<and> abs_of b' (opposite (getSide ord)) = front @ drop n rs))"
proof -
  obtain ord' where sw:
    "sweep clk ord (abs_of b (opposite (getSide ord))) [] = (ts, ord', abs_of b' (opposite (getSide ord)))"
    by (rule addOrder_parts [OF assms])
  from assms(2) have "0 \<le> getRemainingQuantity ord" by (simp add: order_ok_def)
  from sweep_priority [OF sw this] abs_of_in_priority [OF book_inv_side [OF assms(1)]]
  show ?thesis by (auto simp: Let_def)
qed

theorem addOrder_priority_witness:
  "\<exists>ts b'. addOrder (\<lambda>_. 0) (book_of [limit_order 1 SELL 5 100, limit_order 2 SELL 5 100])
       (Some (limit_order 3 BUY 5 100)) = Inr (ts, b') \<and> map sellOrderId ts = [1]"
proof -
  let ?b = "book_of [limit_order 1 SELL 5 100, limit_order 2 SELL 5 100]" and ?o = "limit_order 3 BUY 5 100"
  have inv: "book_inv ?b"
    by (intro book_reachable_inv book_of_reachable) (simp add: order_ok_limit_order)
  have ok: "order_ok ?o" by (simp add: order_ok_limit_order)
  have "case addOrder (\<lambda>_. 0) ?b (Some ?o) of Inl _ \<Rightarrow> False | Inr (ts, b') \<Rightarrow> length ts = 1" by code_simp
  then obtain ts b' where add: "addOrder (\<lambda>_. 0) ?b (Some ?o) = Inr (ts, b')" "length ts = 1"
    by (auto split: sum.splits)
  have side: "opposite (getSide ?o) = SELL" "getSide ?o = BUY" by (simp_all add: limit_order_def)
  have "map getId (take 1 (abs_of ?b SELL)) = [1]" by code_simp
  moreover have "counterparty BUY = sellOrderId" by (rule ext) simp
  ultimately have "map sellOrderId ts = [1]"
    using addOrder_priority [OF inv ok add(1)] add side by (simp add: Let_def)
  with add(1) show ?thesis by (intro exI conjI)
qed

text \<open>C25: an order never trades at a price worse than its limit, and it stops trading only when it is
  done, when the other side is empty, or when the best price left there is beyond its limit.\<close>

theorem addOrder_respects_limit:
  assumes "book_inv b" and "order_ok ord" and "addOrder clk b (Some ord) = Inr (ts, b')"
  shows "(\<forall>t \<in> set ts. willing ord (price t)) \<and>
    (volume ts = getRemainingQuantity ord \<or> levels (opposite (getSide ord)) b' = [] \<or>
     (\<forall>r \<in> set (abs_of b' (opposite (getSide ord))). \<not> willing ord (limit_price r)))"
proof -
  let ?o = "opposite (getSide ord)"
  obtain ord' where inv': "book_inv b'" and sw: "sweep clk ord (abs_of b ?o) [] = (ts, ord', abs_of b' ?o)"
    by (rule addOrder_parts [OF assms])
  note wf' = book_inv_side [OF inv', of ?o]
  have "\<not> willing ord (limit_price r)"
    if "\<not> willing ord (limit_price (hd (abs_of b' ?o)))" "r \<in> set (abs_of b' ?o)" for r
  proof -
    have fin: "\<forall>r \<in> set (abs_of b' ?o). isfinite (limit_price r)"
      using abs_of_resting(1) [OF wf'] resting_order_price by blast
    with that have "better (getSide ord) (limit_price (hd (abs_of b' ?o))) (limit_price ord)"
      using not_willing_better [OF that(1) _ assms(2)] by (cases "abs_of b' ?o") auto
    moreover have "in_priority (other_side (getSide ord)) (abs_of b' ?o)" "abs_of b' ?o \<noteq> []"
      using abs_of_in_priority [OF wf'] that(2) by (auto simp: opposite_other_side)
    ultimately have "better (getSide ord) (limit_price r) (limit_price ord)"
      using in_priority_all [OF _ fin _ _ that(2)] by blast
    then show ?thesis by (rule better_not_willing [OF that(1)])
  qed
  then show ?thesis
    using sweep_trades_prefix [OF sw] sweep_exhausts [OF sw] sweep_conserves [OF sw] levels_Nil_iff [OF wf']
    by auto
qed

theorem addOrder_respects_limit_witness:
  "\<exists>ts b'. addOrder (\<lambda>_. 0) (book_of [limit_order 1 SELL 10 105]) (Some (limit_order 2 BUY 10 100)) = Inr (ts, b') \<and>
     (\<forall>t \<in> set ts. willing (limit_order 2 BUY 10 100) (price t))"
proof -
  let ?b = "book_of [limit_order 1 SELL 10 105]" and ?o = "limit_order 2 BUY 10 100"
  have inv: "book_inv ?b"
    by (intro book_reachable_inv book_of_reachable) (simp add: order_ok_limit_order)
  have ok: "order_ok ?o" by (simp add: order_ok_limit_order)
  have "ownedOrders ?b (getId ?o) = None" by code_simp
  then obtain ts b' where add: "addOrder (\<lambda>_. 0) ?b (Some ?o) = Inr (ts, b')"
    by (rule addOrder_keeps [OF inv _ ok])
  from addOrder_respects_limit [OF inv ok add] add show ?thesis by blast
qed

text \<open>A market order never rests. It trades until it is done or the other side is empty, its own
  side does not change, and afterwards its id is not active and cannot be cancelled.\<close>

lemma market_order_never_rests:
  assumes "book_inv b" and "order_ok ord" and "getOrderKind ord = MARKET"
    and "addOrder clk b (Some ord) = Inr (ts, b')"
  shows "abs_of b' (getSide ord) = abs_of b (getSide ord) \<and>
    (volume ts = getRemainingQuantity ord \<or> levels (opposite (getSide ord)) b' = []) \<and>
    ownedOrders b' (getId ord) = None \<and> cancelOrder b' (getId ord) = Inr (False, b')"
proof -
  let ?s = "getSide ord" and ?o = "opposite (getSide ord)" and ?i = "getId ord"
  obtain ord' where inv': "book_inv b'" and sw: "sweep clk ord (abs_of b ?o) [] = (ts, ord', abs_of b' ?o)"
    and own: "abs_of b' ?s = abs_of b ?s"
    using addOrder_parts [OF assms(1,2,4)] assms(3) by (metis (no_types, lifting))
  have new: "ownedOrders b ?i = None" by (rule addOrder_Inr_new [OF assms(4)])
  have "?i \<notin> set (ids t b)" for t
    using new book_wfD(3) [of "{}" b t] assms(1) by (auto simp: book_inv_def)
  moreover have "set (ids ?s b') = set (ids ?s b)" "set (ids ?o b') \<subseteq> set (ids ?o b)"
    using own sweep_suffix [OF sw] map_getId_abs_of [OF book_inv_side [OF inv']]
      map_getId_abs_of [OF book_inv_side [OF assms(1)]] by (metis, metis set_drop_subset)
  ultimately have gone: "?i \<notin> set (ids ?s b') \<union> set (ids ?o b')" by blast
  then have "ownedOrders b' ?i = None" "orderLocation b' ?i = None"
    using book_wfD(3,5) [of "{}" b' ?s] inv' by (auto simp: book_inv_def)
  moreover have "volume ts = getRemainingQuantity ord \<or> levels ?o b' = []"
    using sweep_exhausts [OF sw] sweep_conserves [OF sw] levels_Nil_iff [OF book_inv_side [OF inv'], of ?o]
      assms(3) by (auto simp: willing_def split: order_class.splits)
  ultimately show ?thesis using own by (simp add: cancelOrder_def)
qed

text \<open>An order that rests without trading can be taken back: cancelling it returns \<open>true\<close> and leaves
  the resting orders of both sides, in their order, as they were before it came.\<close>

lemma add_then_cancel:
  assumes "book_inv b" and "order_ok ord" and "addOrder clk b (Some ord) = Inr ([], b')"
    and "getOrderKind ord = LIMIT" and "0 < getRemainingQuantity ord"
  shows "\<exists>b''. cancelOrder b' (getId ord) = Inr (True, b'') \<and> abs_of b'' = abs_of b \<and>
    cancelOrder b'' (getId ord) = Inr (False, b'')"
proof -
  let ?s = "getSide ord" and ?o = "opposite (getSide ord)" and ?i = "getId ord"
  obtain ord' where inv': "book_inv b'" and sw: "sweep clk ord (abs_of b ?o) [] = ([], ord', abs_of b' ?o)"
    and own: "abs_of b' ?s = (if getRemainingQuantity ord' = 0 \<or> getOrderKind ord = MARKET then abs_of b ?s
        else queue_up ?s (setStatus ord' (rest_status ord')) (abs_of b ?s))"
    by (rule addOrder_parts [OF assms(1-3)])
  let ?r = "setStatus ord' (rest_status ord')"
  from sweep_conserves [OF sw] assms(4,5) own have own': "abs_of b' ?s = queue_up ?s ?r (abs_of b ?s)"
    by (simp del: getOrderKind.simps)
  have opp: "abs_of b' ?o = abs_of b ?o" by (rule sweep_no_trades [OF sw])
  have new: "getId r \<noteq> ?i" if "r \<in> set (abs_of b t)" for r t
    using abs_of_resting(3) [OF book_inv_side [OF assms(1)] that] addOrder_Inr_new [OF assms(3)] by auto
  have id: "getId ?r = ?i" using sweep_incoming_simps(1) [OF sw] by simp
  have cancelled: "spec_cancel (abs_of b') ?i = abs_of b"
  proof
    fix t
    show "spec_cancel (abs_of b') ?i t = abs_of b t"
    proof (cases "t = ?s")
      case True
      then show ?thesis
        using own' id new [of _ ?s] by (simp add: spec_cancel_def filter_queue_up)
    next
      case False
      then have "t = ?o" by (cases t; cases ?s) auto
      then show ?thesis using opp new [of _ ?o] by (auto simp: spec_cancel_def filter_id_conv)
    qed
  qed
  have "?r \<in> set (abs_of b' ?s)" using own' by (simp add: set_queue_up)
  then have active: "ownedOrders b' ?i \<noteq> None"
    using abs_of_resting(3) [OF book_inv_side [OF inv']] id by fastforce
  obtain b'' where c: "cancelOrder b' ?i = Inr (True, b'')" "book_inv b''"
    "abs_of b'' = spec_cancel (abs_of b') ?i" "ownedOrders b'' = (ownedOrders b')(?i := None)"
    using cancelOrder_keeps [OF inv', of ?i] active by metis
  then have "cancelOrder b'' ?i = Inr (False, b'')" by (intro cancelOrder_inactive) simp_all
  with c cancelled show ?thesis by auto
qed

text \<open>C29: the matching loop ends. From any book, well formed or not, and for any incoming order, the \<open>while\<close> loop
  of \<open>matchIncoming\<close> returns or fails within two rounds more than twice the number of orders of the side it
  searches, and what it gives is what the model of the loop gives.\<close>

theorem matching_terminates:
  "match_rounds (2 * length (ids (opposite s) b) + 2) s clk incoming b trades = Some (matchLoop s clk incoming b trades)"
  by (rule match_rounds_enough) (simp add: match_measure_def ids_def level_ids_def split: option.splits)

text \<open>C31: what the containers of a reachable book hold. Every owned order is stored under its own id, is a
  limit order with a finite positive price, has something left of a quantity that an \<open>int\<close> can hold, and is
  open or partially filled according to whether it has traded; the location index names its side, its
  price and its position, and it is in exactly that price level.\<close>

theorem resting_orders_typed:
  assumes "book_reachable b" and "ownedOrders b i = Some ord"
  shows "getId ord = i \<and> 0 < getRemainingQuantity ord \<and> getRemainingQuantity ord \<le> getQuantity ord \<and>
    getQuantity ord < 2 ^ 31 \<and>
    getStatus ord = (if getRemainingQuantity ord < getQuantity ord then PARTIALLY_FILLED else OPEN) \<and>
    (\<exists>p. 0 < p \<and> dynType ord = LimitOrder (Finite p) \<and>
       orderLocation b i = Some \<lparr>loc_side = getSide ord, loc_price = Finite p, loc_iterator = i\<rparr> \<and>
       (\<forall>s. \<forall>(q, l) \<in> set (levels s b). i \<in> set l \<longleftrightarrow> s = getSide ord \<and> q = Finite p))"
proof -
  note inv = book_reachable_inv [OF assms(1)]
  from assms(2) book_wfD(3) [of "{}" b BUY] inv obtain s where "i \<in> set (ids s b)"
    by (auto simp: book_inv_def)
  then obtain p l where lv: "(p, l) \<in> set (levels s b)" "i \<in> set l" and r: "resting_at s b p i"
    by (rule side_wf_mem [OF book_inv_side [OF inv]])
  from r assms(2) have o: "getId ord = i" "dynType ord = LimitOrder p" "resting_order s ord" "getSide ord = s"
    "orderLocation b i = Some (location s p i)" by (auto elim: resting_atE)
  have "t = s \<and> q = p" if "(q, k) \<in> set (levels t b)" "i \<in> set k" for t q k
    using side_wf_level(2) [OF book_inv_side [OF inv] that] o(5) by (auto simp: location_def elim!: resting_atE)
  moreover have "k = l" if "(p, k) \<in> set (levels s b)" for k
    using eq_key_imp_eq_value [OF keys.map_inv_distinct that lv(1)] book_inv_side [OF inv, of s]
    by (auto simp: side_wf_def)
  ultimately have "\<forall>t. \<forall>(q, k) \<in> set (levels t b). i \<in> set k \<longleftrightarrow> t = getSide ord \<and> q = p"
    using lv(2) o(4) by blast
  moreover from o(2,3) obtain x where "p = Finite x" "0 < x"
    by (cases p) (auto simp: resting_order_def order_ok_def price_ok_def)
  ultimately show ?thesis using o
    by (auto simp: resting_order_def order_ok_def int32_def price_ok_def rest_status_def location_def)
qed

theorem resting_orders_typed_witness:
  "\<exists>ord. ownedOrders (book_of [limit_order 1 SELL 10 105]) 1 = Some ord \<and> getId ord = 1 \<and> 0 < getRemainingQuantity ord"
proof -
  let ?b = "book_of [limit_order 1 SELL 10 105]"
  have r: "book_reachable ?b" by (intro book_of_reachable) (simp add: order_ok_limit_order)
  have "ownedOrders ?b 1 \<noteq> None" by code_simp
  then obtain ord where o: "ownedOrders ?b 1 = Some ord" by auto
  show ?thesis using resting_orders_typed [OF r o] o by blast
qed

end
