(* ===== verification/FifoSpec.thy ===== *)
theory FifoSpec
  imports Prelude
begin

text \<open>
  What the engine and the benchmarks rely on in a queue, whichever of the two queues it is: items come
  out in the order in which they were accepted, none is lost and none is duplicated. The contract is a
  locale over the two calls, so it is stated once and discharged by \<open>ThreadSafeQueue\<close> and by
  \<open>LockFreeSPSCQueue\<close>.

  \<^item> \<open>put x q\<close> returns whether the item was accepted;
  \<^item> \<open>get q\<close> is \<open>None\<close> when the call blocks, and otherwise what it returns (\<open>None\<close> for an empty
    \<open>std::optional\<close>) with the queue after it.
\<close>

section \<open>Sequences of calls\<close>

datatype 'a queue_call = Put 'a | Get

record ('a, 'q) queue_run =
  accepted :: "'a list"
  delivered :: "'a list"
  final :: 'q

fun fifo_run ::
  "('a \<Rightarrow> 'q \<Rightarrow> bool \<times> 'q) \<Rightarrow> ('q \<Rightarrow> ('a option \<times> 'q) option) \<Rightarrow> 'a queue_call list \<Rightarrow> 'q \<Rightarrow>
     ('a, 'q) queue_run" where
  "fifo_run put get [] q = \<lparr>accepted = [], delivered = [], final = q\<rparr>"
| "fifo_run put get (Put x # calls) q =
     (let (ok, q') = put x q; r = fifo_run put get calls q'
      in if ok then r\<lparr>accepted := x # accepted r\<rparr> else r)"
| "fifo_run put get (Get # calls) q =
     (case get q of
        None \<Rightarrow> fifo_run put get calls q
      | Some (None, q') \<Rightarrow> fifo_run put get calls q'
      | Some (Some x, q') \<Rightarrow>
          let r = fifo_run put get calls q' in r\<lparr>delivered := x # delivered r\<rparr>)"

section \<open>The contract\<close>

locale fifo =
  fixes put :: "'a \<Rightarrow> 'q \<Rightarrow> bool \<times> 'q"
    and get :: "'q \<Rightarrow> ('a option \<times> 'q) option"
    and items :: "'q \<Rightarrow> 'a list"
    and inv :: "'q \<Rightarrow> bool"
  assumes put_inv: "inv q \<Longrightarrow> put x q = (ok, q') \<Longrightarrow> inv q'"
    and put_items: "inv q \<Longrightarrow> put x q = (ok, q') \<Longrightarrow> items q' = (if ok then items q @ [x] else items q)"
    and get_inv: "inv q \<Longrightarrow> get q = Some (r, q') \<Longrightarrow> inv q'"
    and get_Some: "inv q \<Longrightarrow> get q = Some (Some x, q') \<Longrightarrow> items q = x # items q'"
    and get_None: "inv q \<Longrightarrow> get q = Some (None, q') \<Longrightarrow> items q = [] \<and> items q' = []"
    and get_blocks: "inv q \<Longrightarrow> get q = None \<Longrightarrow> items q = []"
begin

lemma run_fifo:
  assumes "inv q" and "fifo_run put get calls q = r"
  shows "inv (final r) \<and> items q @ accepted r = delivered r @ items (final r)"
  using assms
proof (induction calls arbitrary: q r)
  case Nil
  then show ?case by auto
next
  case (Cons c calls)
  show ?case
  proof (cases c)
    case (Put x)
    obtain ok q' where p: "put x q = (ok, q')" by (cases "put x q")
    note step = Cons.IH [OF put_inv [OF Cons.prems(1) p] refl]
    from Cons.prems(2) Put p step put_items [OF Cons.prems(1) p] show ?thesis
      by (auto simp: Let_def split: if_splits)
  next
    case Get
    show ?thesis
    proof (cases "get q")
      case None
      with Cons.prems Get Cons.IH show ?thesis by auto
    next
      case (Some rq)
      then obtain res q' where g: "get q = Some (res, q')" by (cases rq) auto
      note step = Cons.IH [OF get_inv [OF Cons.prems(1) g] refl]
      from Cons.prems Get g step get_Some get_None show ?thesis
        by (cases res) (auto simp: Let_def)
    qed
  qed
qed

lemma get_nonempty:
  assumes "inv q" and "items q = x # xs"
  obtains q' where "get q = Some (Some x, q')" and "items q' = xs"
proof -
  from get_blocks [OF assms(1)] assms(2) obtain r q' where g: "get q = Some (r, q')" by fastforce
  with get_None [OF assms(1)] assms(2) obtain y where "r = Some y" by (cases r) auto
  with get_Some [OF assms(1), of y q'] g assms(2) that show thesis by simp
qed

end

end
