(* ===== verification/ThreadSafeQueue.thy ===== *)
theory ThreadSafeQueue
  imports FifoSpec
begin

text \<open>
  \<open>include/ThreadSafeQueue.h\<close>: the mutex-protected queue through which every command reaches the
  matching thread. Every operation holds the mutex while it touches the state, so a call is one atomic
  step. The condition variable is what makes a \<open>pop\<close> that finds its predicate false wait: such a call
  does not return, which is the value \<open>None\<close> of the model.
\<close>

section \<open>State and operations\<close>

record 'a ts_queue =
  queue :: "'a list"
  stopping :: bool

definition new_queue :: "'a ts_queue" where
  "new_queue = \<lparr>queue = [], stopping = False\<rparr>"

definition push :: "'a \<Rightarrow> 'a ts_queue \<Rightarrow> 'a ts_queue" where
  "push item q = q\<lparr>queue := queue q @ [item]\<rparr>"

definition pop :: "'a ts_queue \<Rightarrow> ('a option \<times> 'a ts_queue) option" where
  "pop q =
     (if queue q \<noteq> [] \<or> stopping q then
        (case queue q of
           [] \<Rightarrow> Some (None, q)
         | item # rest \<Rightarrow> Some (Some item, q\<lparr>queue := rest\<rparr>))
      else None)"

definition stop_queue :: "'a ts_queue \<Rightarrow> 'a ts_queue" where
  "stop_queue q = q\<lparr>stopping := True\<rparr>"

definition reset_queue :: "'a ts_queue \<Rightarrow> 'a ts_queue" where
  "reset_queue q = q\<lparr>stopping := False\<rparr>"

section \<open>Lemmas\<close>

lemma queue_simps [simp]:
  "queue (push x q) = queue q @ [x]" "stopping (push x q) = stopping q"
  "queue (stop_queue q) = queue q" "stopping (stop_queue q)"
  "queue (reset_queue q) = queue q" "\<not> stopping (reset_queue q)"
  "queue new_queue = []" "\<not> stopping new_queue"
  by (simp_all add: push_def stop_queue_def reset_queue_def new_queue_def)

lemma pop_cases:
  "pop q = None \<longleftrightarrow> queue q = [] \<and> \<not> stopping q"
  "pop q = Some (None, q') \<longleftrightarrow> queue q = [] \<and> stopping q \<and> q' = q"
  "pop q = Some (Some x, q') \<longleftrightarrow> (\<exists>rest. queue q = x # rest \<and> q' = q\<lparr>queue := rest\<rparr>)"
  by (auto simp: pop_def split: list.splits)

text \<open>The queue keeps the contract of a first-in first-out queue, whether it is stopping or not.\<close>

interpretation tsq: fifo "\<lambda>x q. (True, push x q)" pop queue "\<lambda>_. True"
  by unfold_locales (auto simp: pop_cases)

section \<open>Properties\<close>

text \<open>Whatever pushes and pops are made on a queue, in whatever order, the items delivered are the
  items pushed, in the order of the pushes, and the rest is still in the queue: nothing is lost,
  duplicated or reordered.\<close>

lemma thread_safe_queue_fifo:
  "let r = fifo_run (\<lambda>x q. (True, push x q)) pop calls q
   in queue q @ accepted r = delivered r @ queue (final r)"
  using tsq.run_fifo [where q = q and calls = calls] by (simp add: Let_def)

text \<open>Shutting down loses nothing. A pop after \<open>stop()\<close> always returns. It returns the oldest
  item as long as there is one, and reports the shutdown only when the queue is empty; without
  \<open>stop()\<close> a pop of an empty queue waits.\<close>

lemma queue_stop_drains:
  "(\<exists>r. pop (stop_queue q) = Some r) \<and>
   (pop (stop_queue q) = Some (None, q') \<longleftrightarrow> queue q = [] \<and> q' = stop_queue q) \<and>
   (pop (reset_queue q) = None \<longleftrightarrow> queue q = [])"
  by (auto simp: pop_def split: list.splits)

end
