(* ===== verification/Journal.thy ===== *)
theory Journal
  imports Orders
begin

text \<open>
  \<open>include/JournalEvent.h\<close>, \<open>include/IJournal.h\<close> and \<open>include/IMarketDataSink.h\<close>: the persistable
  form of a command, the two plug-in interfaces of the engine and the implementations the headers
  define.

  An abstract base class is a record of its virtual functions over the state \<open>'j\<close> of the implementing
  class; a pointer to an object is that record with the object's state. \<open>loadAll\<close> may throw (a database
  that cannot be read), so it returns a result. The wall clock is read once per event and is an
  argument of the two constructors of events.
\<close>

section \<open>JournalEvent.h\<close>

record journal_event =
  ev_seq :: "64 word"
  ev_type :: command_type
  ev_kind :: order_kind
  ev_orderId :: order_id
  ev_traderId :: trader_id
  ev_side :: side
  ev_quantity :: int
  ev_price :: double
  ev_epochNanos :: int

definition JournalEvent :: journal_event where
  "JournalEvent =
     \<lparr>ev_seq = 0, ev_type = SUBMIT, ev_kind = LIMIT, ev_orderId = 0, ev_traderId = 0, ev_side = BUY,
      ev_quantity = 0, ev_price = dzero, ev_epochNanos = 0\<rparr>"

definition makeSubmitEvent :: "int \<Rightarrow> order \<Rightarrow> 64 word \<Rightarrow> journal_event result" where
  "makeSubmitEvent now ord s =
     (let k = getOrderKind ord;
          ev = JournalEvent\<lparr>ev_seq := s, ev_type := SUBMIT, ev_kind := k, ev_orderId := getId ord,
                 ev_traderId := getTraderId ord, ev_side := getSide ord,
                 ev_quantity := getQuantity ord\<rparr>
      in bindE (if k = LIMIT then getPrice ord else Inr dzero) (\<lambda>p.
           Inr (ev\<lparr>ev_price := p, ev_epochNanos := now\<rparr>)))"

definition makeCancelEvent :: "int \<Rightarrow> order_id \<Rightarrow> 64 word \<Rightarrow> journal_event" where
  "makeCancelEvent now i s =
     JournalEvent\<lparr>ev_seq := s, ev_type := CANCEL, ev_orderId := i, ev_epochNanos := now\<rparr>"

section \<open>IJournal.h\<close>

record 'j ijournal =
  append_op :: "journal_event \<Rightarrow> 'j \<Rightarrow> 'j"
  flush_op :: "'j \<Rightarrow> 'j"
  loadAll_op :: "'j \<Rightarrow> journal_event list result"
  recordTrade_op :: "trade \<Rightarrow> 'j \<Rightarrow> 'j"

definition NullJournal :: "unit ijournal" where
  "NullJournal =
     \<lparr>append_op = (\<lambda>_ j. j), flush_op = (\<lambda>j. j), loadAll_op = (\<lambda>_. Inr []), recordTrade_op = (\<lambda>_ j. j)\<rparr>"

text \<open>The state of an \<open>InMemoryJournal\<close> is its vector \<open>events_\<close>.\<close>

definition InMemoryJournal :: "journal_event list ijournal" where
  "InMemoryJournal =
     \<lparr>append_op = (\<lambda>ev events. events @ [ev]), flush_op = (\<lambda>j. j), loadAll_op = Inr,
      recordTrade_op = (\<lambda>_ j. j)\<rparr>"

definition journal_size :: "journal_event list \<Rightarrow> nat" where
  "journal_size events = length events"

section \<open>IMarketDataSink.h\<close>

record 's imarket_data_sink =
  onTrade_op :: "trade \<Rightarrow> 's \<Rightarrow> 's"
  onTopOfBook_op :: "bool \<Rightarrow> double \<Rightarrow> bool \<Rightarrow> double \<Rightarrow> 's \<Rightarrow> 's"

definition NullMarketDataSink :: "unit imarket_data_sink" where
  "NullMarketDataSink = \<lparr>onTrade_op = (\<lambda>_ s. s), onTopOfBook_op = (\<lambda>_ _ _ _ s. s)\<rparr>"

section \<open>The contract of a write-ahead log\<close>

text \<open>\<open>log_of\<close> is what the log holds. Appending adds at the end; recording trades and flushing leave it
  alone. A journal promises this while it is \<open>ready\<close>, which its operations keep, and for logs that \<open>fit\<close>
  (both may be always true). This much the running engine relies on, of every journal.\<close>

locale event_log =
  fixes J :: "'j ijournal"
    and log_of :: "'j \<Rightarrow> journal_event list"
    and ready :: "'j \<Rightarrow> bool"
    and fits :: "journal_event list \<Rightarrow> bool"
  assumes log_append: "ready j \<Longrightarrow> fits (log_of j @ [ev]) \<Longrightarrow>
      log_of (append_op J ev j) = log_of j @ [ev] \<and> ready (append_op J ev j)"
    and log_recordTrade: "ready j \<Longrightarrow> fits (log_of j) \<Longrightarrow>
      log_of (recordTrade_op J t j) = log_of j \<and> ready (recordTrade_op J t j)"
    and log_flush: "ready j \<Longrightarrow> log_of (flush_op J j) = log_of j \<and> ready (flush_op J j)"

text \<open>A journal that is durable at once: \<open>loadAll\<close> reads back all of it in the order of the appends.\<close>

locale wal = event_log +
  assumes log_loadAll: "ready j \<Longrightarrow> fits (log_of j) \<Longrightarrow> loadAll_op J j = Inr (log_of j)"

text \<open>A journal that also keeps a row for every trade, in the order in which they are recorded.\<close>

locale trade_record = event_log J log_of ready fits
  for J :: "'j ijournal" and log_of :: "'j \<Rightarrow> journal_event list" and ready :: "'j \<Rightarrow> bool"
    and fits :: "journal_event list \<Rightarrow> bool" +
  fixes rows_of :: "'j \<Rightarrow> 'r list"
    and row :: "trade \<Rightarrow> 'r"
  assumes rows_append: "ready j \<Longrightarrow> fits (log_of j @ [ev]) \<Longrightarrow> rows_of (append_op J ev j) = rows_of j"
    and rows_recordTrade: "ready j \<Longrightarrow> fits (log_of j) \<Longrightarrow> rows_of (recordTrade_op J t j) = rows_of j @ [row t]"
    and rows_flush: "rows_of (flush_op J j) = rows_of j"

interpretation mem: wal InMemoryJournal "\<lambda>events. events" "\<lambda>_. True" "\<lambda>_. True"
  by unfold_locales (simp_all add: InMemoryJournal_def)

section \<open>Lemmas\<close>

lemma makeSubmitEvent_Inr:
  "makeSubmitEvent now ord s = Inr
     \<lparr>ev_seq = s, ev_type = SUBMIT, ev_kind = getOrderKind ord, ev_orderId = getId ord,
      ev_traderId = getTraderId ord, ev_side = getSide ord, ev_quantity = getQuantity ord,
      ev_price = (case dynType ord of LimitOrder p \<Rightarrow> p | MarketOrder \<Rightarrow> dzero), ev_epochNanos = now\<rparr>"
  by (cases "dynType ord") (simp_all add: makeSubmitEvent_def JournalEvent_def)

lemma makeCancelEvent_simps [simp]:
  "ev_seq (makeCancelEvent now i s) = s"
  "ev_type (makeCancelEvent now i s) = CANCEL"
  "ev_orderId (makeCancelEvent now i s) = i"
  by (simp_all add: makeCancelEvent_def)

text \<open>An order as it comes from the factory is rebuilt from its event, up to the time stamp of the
  new object.\<close>

lemma createOrder_of_event:
  assumes "fresh_order ord" and "makeSubmitEvent now ord s = Inr ev"
  shows "createOrder now' (ev_kind ev) (ev_orderId ev) (ev_traderId ev) (ev_side ev) (ev_quantity ev)
    (ev_price ev) = Inr (ord\<lparr>getTimestamp := now'\<rparr>)"
  using assms
  by (cases "dynType ord")
    (auto simp: makeSubmitEvent_Inr createOrder_Inr fresh_order_def order_ok_def price_ok_def)

section \<open>Properties\<close>

text \<open>An order journaled as it comes from the factory is read back. Building the event never
  throws, for market orders either, and the factory rebuilds from the event the same order with only
  the time stamp of the new object different.\<close>

lemma submit_event_roundtrip:
  assumes "fresh_order ord"
  shows "\<exists>ev. makeSubmitEvent now ord s = Inr ev \<and> ev_seq ev = s \<and> ev_type ev = SUBMIT \<and>
    createOrder now' (ev_kind ev) (ev_orderId ev) (ev_traderId ev) (ev_side ev) (ev_quantity ev)
      (ev_price ev) = Inr (ord\<lparr>getTimestamp := now'\<rparr>)"
proof -
  obtain ev where ev: "makeSubmitEvent now ord s = Inr ev" "ev_seq ev = s" "ev_type ev = SUBMIT"
    using makeSubmitEvent_Inr [of now ord s] by simp
  with createOrder_of_event [OF assms ev(1)] show ?thesis by blast
qed

end
