(* ===== verification/Engine.thy ===== *)
theory Engine
  imports BookProps ThreadSafeQueue Journal
begin

text \<open>
  \<open>include/Command.h\<close>, \<open>include/Engine.h\<close> and \<open>src/Engine.cpp\<close>: the commands, the engine object, the
  work of the matching thread on one command, its loop, the caller's operations and recovery. The
  interleaving of the threads is in \<open>EngineRun\<close>.

  \<^item> The plug-in pointers \<open>journal_\<close> and \<open>sink_\<close> are \<open>None\<close> while they point at the engine's own
    \<open>nullJournal_\<close> and \<open>nullSink_\<close>, and otherwise the virtual functions of the plugged-in object with
    its state. The callback of \<open>setOnTrade\<close> is a function on the state \<open>'u\<close> it captures.
  \<^item> An exception on the matching thread is not caught: the call of \<open>processCommand\<close> ends as \<open>Throws\<close> with
    the engine as it was left, and the process ends by \<open>std::terminate\<close>.
  \<^item> \<open>reading\<close> is what the clocks show while one command is handled: the wall clock for the event, the
    steady clock for the construction of an order on replay and for each trade.
  \<^item> \<open>tradeLog_\<close> and \<open>onTrade_\<close> are guarded by mutexes of their own and written by one thread, so the
    locks add no step here.
\<close>

section \<open>Command.h\<close>

record command =
  cmd_type :: command_type
  cmd_order :: "order option"
  cancelId :: order_id

definition Command_submit :: "order option \<Rightarrow> command" where
  "Command_submit ord = \<lparr>cmd_type = SUBMIT, cmd_order = ord, cancelId = 0\<rparr>"

definition Command_cancel :: "order_id \<Rightarrow> command" where
  "Command_cancel i = \<lparr>cmd_type = CANCEL, cmd_order = None, cancelId = i\<rparr>"

section \<open>The engine object\<close>

text \<open>A \<open>std::thread\<close> that was never started or has been joined, one that runs, and one that has
  returned and waits to be joined.\<close>

datatype thread_state = not_joinable | executing | finished

record ('j, 's, 'u) engine =
  eng_book :: book
  incomingQueue :: "command ts_queue"
  matchingThread :: thread_state
  running :: bool
  nextSeq :: "64 word"
  journal :: "('j ijournal \<times> 'j) option"
  sink :: "('s imarket_data_sink \<times> 's) option"
  tradeLog :: "trade list"
  onTrade :: "(trade \<Rightarrow> 'u \<Rightarrow> 'u) option"
  user_state :: 'u

definition new_Engine :: "'u \<Rightarrow> ('j, 's, 'u) engine" where
  "new_Engine u =
     \<lparr>eng_book = empty_book, incomingQueue = new_queue, matchingThread = not_joinable, running = False,
      nextSeq = 1, journal = None, sink = None, tradeLog = [], onTrade = None, user_state = u\<rparr>"

record reading =
  wall_now :: int
  order_now :: timestamp
  trade_now :: "nat \<Rightarrow> timestamp"

definition setJournal ::
  "('j ijournal \<times> 'j) option \<Rightarrow> ('j, 's, 'u) engine \<Rightarrow> ('j, 's, 'u) engine" where
  "setJournal j e = e\<lparr>journal := j\<rparr>"

definition setMarketDataSink ::
  "('s imarket_data_sink \<times> 's) option \<Rightarrow> ('j, 's, 'u) engine \<Rightarrow> ('j, 's, 'u) engine" where
  "setMarketDataSink s e = e\<lparr>sink := s\<rparr>"

definition setOnTrade ::
  "(trade \<Rightarrow> 'u \<Rightarrow> 'u) option \<Rightarrow> ('j, 's, 'u) engine \<Rightarrow> ('j, 's, 'u) engine" where
  "setOnTrade f e = e\<lparr>onTrade := f\<rparr>"

definition getTradeLog :: "('j, 's, 'u) engine \<Rightarrow> trade list" where
  "getTradeLog e = tradeLog e"

definition submitOrder :: "order option \<Rightarrow> ('j, 's, 'u) engine \<Rightarrow> ('j, 's, 'u) engine" where
  "submitOrder ord e = e\<lparr>incomingQueue := push (Command_submit ord) (incomingQueue e)\<rparr>"

definition engine_cancelOrder :: "order_id \<Rightarrow> ('j, 's, 'u) engine \<Rightarrow> ('j, 's, 'u) engine" where
  "engine_cancelOrder i e = e\<lparr>incomingQueue := push (Command_cancel i) (incomingQueue e)\<rparr>"

section \<open>Calls of the plug-ins\<close>

definition journal_append :: "journal_event \<Rightarrow> ('j, 's, 'u) engine \<Rightarrow> ('j, 's, 'u) engine" where
  "journal_append ev e = e\<lparr>journal := map_option (\<lambda>(J, j). (J, append_op J ev j)) (journal e)\<rparr>"

definition journal_recordTrade :: "trade \<Rightarrow> ('j, 's, 'u) engine \<Rightarrow> ('j, 's, 'u) engine" where
  "journal_recordTrade t e = e\<lparr>journal := map_option (\<lambda>(J, j). (J, recordTrade_op J t j)) (journal e)\<rparr>"

definition journal_flush :: "('j, 's, 'u) engine \<Rightarrow> ('j, 's, 'u) engine" where
  "journal_flush e = e\<lparr>journal := map_option (\<lambda>(J, j). (J, flush_op J j)) (journal e)\<rparr>"

definition journal_loadAll :: "('j, 's, 'u) engine \<Rightarrow> journal_event list result" where
  "journal_loadAll e = (case journal e of None \<Rightarrow> Inr [] | Some (J, j) \<Rightarrow> loadAll_op J j)"

definition sink_onTrade :: "trade \<Rightarrow> ('j, 's, 'u) engine \<Rightarrow> ('j, 's, 'u) engine" where
  "sink_onTrade t e = e\<lparr>sink := map_option (\<lambda>(S, s). (S, onTrade_op S t s)) (sink e)\<rparr>"

definition sink_onTopOfBook ::
  "bool \<Rightarrow> double \<Rightarrow> bool \<Rightarrow> double \<Rightarrow> ('j, 's, 'u) engine \<Rightarrow> ('j, 's, 'u) engine" where
  "sink_onTopOfBook hasBid bid hasAsk ask e =
     e\<lparr>sink := map_option (\<lambda>(S, s). (S, onTopOfBook_op S hasBid bid hasAsk ask s)) (sink e)\<rparr>"

definition callback_call :: "trade \<Rightarrow> ('j, 's, 'u) engine \<Rightarrow> ('j, 's, 'u) engine" where
  "callback_call t e = (case onTrade e of None \<Rightarrow> e | Some f \<Rightarrow> e\<lparr>user_state := f t (user_state e)\<rparr>)"

section \<open>The matching thread\<close>

text \<open>Step 1 of the loop body: the event to write ahead. Reading through the null pointer of an empty
  \<open>unique_ptr\<close> is undefined.\<close>

definition commandEvent :: "int \<Rightarrow> command \<Rightarrow> 64 word \<Rightarrow> journal_event result" where
  "commandEvent now cmd s =
     (if cmd_type cmd = SUBMIT then
        (case cmd_order cmd of None \<Rightarrow> Inl undefined_behaviour | Some ord \<Rightarrow> makeSubmitEvent now ord s)
      else Inr (makeCancelEvent now (cancelId cmd) s))"

text \<open>Step 2: the command applied to the book.\<close>

definition applyCommand ::
  "(nat \<Rightarrow> timestamp) \<Rightarrow> command \<Rightarrow> book \<Rightarrow> (trade list \<times> book) result" where
  "applyCommand clk cmd b =
     (if cmd_type cmd = SUBMIT then addOrder clk b (cmd_order cmd)
      else bindE (cancelOrder b (cancelId cmd)) (\<lambda>(_, b'). Inr ([], b')))"

text \<open>Step 3, for one trade.\<close>

definition publishTrade :: "('j, 's, 'u) engine \<Rightarrow> trade \<Rightarrow> ('j, 's, 'u) engine" where
  "publishTrade e t =
     callback_call t (sink_onTrade t (journal_recordTrade t (e\<lparr>tradeLog := tradeLog e @ [t]\<rparr>)))"

definition publishTop :: "('j, 's, 'u) engine \<Rightarrow> ('j, 's, 'u) engine" where
  "publishTop e =
     (let bid = getBestBid (eng_book e); ask = getBestAsk (eng_book e)
      in sink_onTopOfBook (bid \<noteq> None) (case bid of None \<Rightarrow> dzero | Some p \<Rightarrow> p)
           (ask \<noteq> None) (case ask of None \<Rightarrow> dzero | Some p \<Rightarrow> p) e)"

text \<open>The loop body for one command that was popped.\<close>

definition processCommand ::
  "reading \<Rightarrow> command \<Rightarrow> ('j, 's, 'u) engine \<Rightarrow> ('j, 's, 'u) engine outcome" where
  "processCommand rd cmd e =
     (let s = nextSeq e; e1 = e\<lparr>nextSeq := s + 1\<rparr> in
      case commandEvent (wall_now rd) cmd s of
        Inl err \<Rightarrow> Throws err e1
      | Inr ev \<Rightarrow>
      let e2 = journal_append ev e1 in
      case applyCommand (trade_now rd) cmd (eng_book e2) of
        Inl err \<Rightarrow> Throws err e2
      | Inr (trades, b') \<Rightarrow> Returns (publishTop (foldl publishTrade (e2\<lparr>eng_book := b'\<rparr>) trades)))"

text \<open>One round of the loop: \<open>pop\<close>, then either the loop ends, or the command is processed. A round that
  waits in \<open>pop\<close> makes no step.\<close>

datatype 'e loop_round = Waits | Breaks 'e | Handles command "'e outcome"

definition matchingRound ::
  "reading \<Rightarrow> ('j, 's, 'u) engine \<Rightarrow> ('j, 's, 'u) engine loop_round" where
  "matchingRound rd e =
     (case pop (incomingQueue e) of
        None \<Rightarrow> Waits
      | Some (None, q) \<Rightarrow> Breaks (e\<lparr>incomingQueue := q\<rparr>)
      | Some (Some cmd, q) \<Rightarrow> Handles cmd (processCommand rd cmd (e\<lparr>incomingQueue := q\<rparr>)))"

section \<open>Start, stop\<close>

text \<open>\<open>join\<close> returns once the thread has finished; until then it blocks, which is \<open>None\<close>.\<close>

definition join :: "('j, 's, 'u) engine \<Rightarrow> ('j, 's, 'u) engine option" where
  "join e = (case matchingThread e of
       not_joinable \<Rightarrow> Some e
     | executing \<Rightarrow> None
     | finished \<Rightarrow> Some (e\<lparr>matchingThread := not_joinable\<rparr>))"

definition start :: "('j, 's, 'u) engine \<Rightarrow> ('j, 's, 'u) engine option" where
  "start e =
     (if running e then Some e
      else map_option (\<lambda>e'. e'\<lparr>incomingQueue := reset_queue (incomingQueue e'), running := True,
                              matchingThread := executing\<rparr>) (join e))"

text \<open>\<open>stop()\<close> up to the \<open>join\<close>, and from the \<open>join\<close> on.\<close>

definition stop_signal :: "('j, 's, 'u) engine \<Rightarrow> ('j, 's, 'u) engine" where
  "stop_signal e = e\<lparr>running := False, incomingQueue := stop_queue (incomingQueue e)\<rparr>"

definition stop_join :: "('j, 's, 'u) engine \<Rightarrow> ('j, 's, 'u) engine option" where
  "stop_join e = map_option journal_flush (join e)"

section \<open>Recovery\<close>

definition applyEvent :: "reading \<Rightarrow> journal_event \<Rightarrow> book \<Rightarrow> (trade list \<times> book) result" where
  "applyEvent rd ev b =
     (if ev_type ev = SUBMIT then
        bindE (createOrder (order_now rd) (ev_kind ev) (ev_orderId ev) (ev_traderId ev) (ev_side ev)
                 (ev_quantity ev) (ev_price ev)) (\<lambda>ord.
        addOrder (trade_now rd) b (Some ord))
      else bindE (cancelOrder b (ev_orderId ev)) (\<lambda>(_, b'). Inr ([], b')))"

text \<open>The loop of \<open>recover\<close>; \<open>rds\<close> gives the clock readings, one per event.\<close>

fun recoverLoop ::
  "(nat \<Rightarrow> reading) \<Rightarrow> journal_event list \<Rightarrow> 64 word \<Rightarrow> ('j, 's, 'u) engine \<Rightarrow>
     ('j, 's, 'u) engine outcome" where
  "recoverLoop rds [] maxSeq e = Returns (e\<lparr>nextSeq := maxSeq + 1\<rparr>)"
| "recoverLoop rds (ev # events) maxSeq e =
     (case applyEvent (rds 0) ev (eng_book e) of
        Inl err \<Rightarrow> Throws err e
      | Inr (trades, b') \<Rightarrow>
          recoverLoop (\<lambda>n. rds (Suc n)) events (max maxSeq (ev_seq ev))
            (e\<lparr>eng_book := b', tradeLog := tradeLog e @ trades\<rparr>))"

definition recover ::
  "(nat \<Rightarrow> reading) \<Rightarrow> ('j, 's, 'u) engine \<Rightarrow> ('j, 's, 'u) engine outcome" where
  "recover rds e =
     (case journal_loadAll e of Inl err \<Rightarrow> Throws err e | Inr events \<Rightarrow> recoverLoop rds events 0 e)"

section \<open>What the plug-in calls leave alone\<close>

lemma journal_frame [plug_ins, simp]:
  "eng_book (journal_append ev e) = eng_book e" "incomingQueue (journal_append ev e) = incomingQueue e"
  "matchingThread (journal_append ev e) = matchingThread e" "running (journal_append ev e) = running e"
  "nextSeq (journal_append ev e) = nextSeq e" "sink (journal_append ev e) = sink e"
  "tradeLog (journal_append ev e) = tradeLog e" "onTrade (journal_append ev e) = onTrade e"
  "user_state (journal_append ev e) = user_state e"
  "journal (journal_append ev e) = map_option (\<lambda>(J, j). (J, append_op J ev j)) (journal e)"
  by (simp_all add: journal_append_def)

lemma flush_frame [plug_ins, simp]:
  "eng_book (journal_flush e) = eng_book e" "incomingQueue (journal_flush e) = incomingQueue e"
  "matchingThread (journal_flush e) = matchingThread e" "running (journal_flush e) = running e"
  "nextSeq (journal_flush e) = nextSeq e" "tradeLog (journal_flush e) = tradeLog e"
  "journal (journal_flush e) = map_option (\<lambda>(J, j). (J, flush_op J j)) (journal e)"
  by (simp_all add: journal_flush_def)

lemma publishTrade_frame [plug_ins, simp]:
  "eng_book (publishTrade e t) = eng_book e" "incomingQueue (publishTrade e t) = incomingQueue e"
  "matchingThread (publishTrade e t) = matchingThread e" "running (publishTrade e t) = running e"
  "nextSeq (publishTrade e t) = nextSeq e" "onTrade (publishTrade e t) = onTrade e"
  "tradeLog (publishTrade e t) = tradeLog e @ [t]"
  "journal (publishTrade e t) = map_option (\<lambda>(J, j). (J, recordTrade_op J t j)) (journal e)"
  "sink (publishTrade e t) = map_option (\<lambda>(S, s). (S, onTrade_op S t s)) (sink e)"
  "user_state (publishTrade e t) = (case onTrade e of None \<Rightarrow> user_state e | Some f \<Rightarrow> f t (user_state e))"
  by (simp_all add: publishTrade_def callback_call_def sink_onTrade_def journal_recordTrade_def split: option.splits)

lemma publishTrades_frame [plug_ins, simp]:
  "eng_book (foldl publishTrade e ts) = eng_book e" "incomingQueue (foldl publishTrade e ts) = incomingQueue e"
  "matchingThread (foldl publishTrade e ts) = matchingThread e" "running (foldl publishTrade e ts) = running e"
  "nextSeq (foldl publishTrade e ts) = nextSeq e" "onTrade (foldl publishTrade e ts) = onTrade e"
  "tradeLog (foldl publishTrade e ts) = tradeLog e @ ts"
  by (induction ts arbitrary: e) simp_all

lemma publishTop_frame [plug_ins, simp]:
  "eng_book (publishTop e) = eng_book e" "incomingQueue (publishTop e) = incomingQueue e"
  "matchingThread (publishTop e) = matchingThread e" "running (publishTop e) = running e"
  "nextSeq (publishTop e) = nextSeq e" "onTrade (publishTop e) = onTrade e"
  "tradeLog (publishTop e) = tradeLog e" "journal (publishTop e) = journal e"
  "user_state (publishTop e) = user_state e"
  by (simp_all add: publishTop_def sink_onTopOfBook_def Let_def)

end
