(* ===== verification/ClockFree.thy ===== *)
theory ClockFree
  imports OrderBook
begin

text \<open>
  The clock only labels orders and trades: no decision of the matching code depends on a time stamp.
  Forgetting every time stamp commutes with each operation of the book, so two runs of the same calls
  under different clocks end in the same book and report the same trades up to their time stamps, or
  throw the same exception. This is what makes a replay of the journal meaningful.
\<close>

section \<open>Forgetting the time stamps\<close>

definition untimed_trade :: "trade \<Rightarrow> trade" where
  "untimed_trade t = t\<lparr>trade_time := 0\<rparr>"

definition untimed_book :: "book \<Rightarrow> book" where
  "untimed_book b = b\<lparr>ownedOrders := (\<lambda>i. map_option untimed (ownedOrders b i))\<rparr>"

abbreviation untimed_result :: "(trade list \<times> book) result \<Rightarrow> (trade list \<times> book) result" where
  "untimed_result \<equiv> map_sum id (map_prod (map untimed_trade) untimed_book)"

abbreviation no_clock :: "nat \<Rightarrow> timestamp" where
  "no_clock \<equiv> \<lambda>_. 0"

section \<open>Orders and the store\<close>

lemma bindE_map_sum [untime]: "bindE (map_sum id f r) g = bindE r (\<lambda>x. g (f x))"
  by (cases r) simp_all

lemma map_sum_bindE [untime]: "map_sum id f (bindE r g) = bindE r (\<lambda>x. map_sum id f (g x))"
  by (cases r) simp_all

lemma untimed_sel [simp]:
  "getId (untimed ord) = getId ord"
  "getTraderId (untimed ord) = getTraderId ord"
  "getSide (untimed ord) = getSide ord"
  "getQuantity (untimed ord) = getQuantity ord"
  "getRemainingQuantity (untimed ord) = getRemainingQuantity ord"
  "getStatus (untimed ord) = getStatus ord"
  "dynType (untimed ord) = dynType ord"
  by (simp_all add: untimed_def)

lemma untimed_getTimestamp_update [simp]: "untimed (ord\<lparr>getTimestamp := t\<rparr>) = untimed ord"
  by (simp add: untimed_def)

lemma untimed_setStatus [untime]: "setStatus (untimed ord) st = untimed (setStatus ord st)"
  by (simp add: untimed_def setStatus_def)

lemma untimed_reduceQuantity [untime]: "reduceQuantity (untimed ord) n = map_sum id untimed (reduceQuantity ord n)"
  by (cases ord) (simp add: reduceQuantity_def untimed_def untime)

lemma untimed_priceOk [untime]: "priceOk s (untimed ord) best = priceOk s ord best"
  by (simp add: priceOk_def)

lemma untimed_mkTrade [untime]: "untimed_trade (mkTrade s i r p q t) = mkTrade s i r p q 0"
  by (cases s) (simp_all add: untimed_trade_def)

lemma untimed_book_sel [simp]:
  "levels s (untimed_book b) = levels s b"
  "bids (untimed_book b) = bids b"
  "asks (untimed_book b) = asks b"
  "orderLocation (untimed_book b) = orderLocation b"
  "ownedOrders (untimed_book b) i = map_option untimed (ownedOrders b i)"
  by (cases s; simp add: untimed_book_def) (simp_all add: untimed_book_def)

lemma untimed_deref [untime]: "deref (untimed_book b) p = map_sum id untimed (deref b p)"
  by (simp add: deref_def split: option.split)

lemma untimed_store [untime]: "store p (untimed ord) (untimed_book b) = untimed_book (store p ord b)"
  by (auto simp: store_def untimed_book_def fun_eq_iff intro!: book.equality)

lemma untimed_erase [untime]:
  "erase_owned p (untimed_book b) = untimed_book (erase_owned p b)"
  "erase_location p (untimed_book b) = untimed_book (erase_location p b)"
  by (auto simp: erase_owned_def erase_location_def untimed_book_def fun_eq_iff intro!: book.equality)

lemma untimed_set_levels [untime]: "set_levels s m (untimed_book b) = untimed_book (set_levels s m b)"
  by (cases s) (simp_all add: untimed_book_def)

section \<open>Operations\<close>

lemma untimed_settleResting [untime]:
  "settleResting s p r lv rest (untimed res) (untimed_book b) = untimed_book (settleResting s p r lv rest res b)"
  by (simp add: settleResting_def Let_def untime)

lemma untimed_matchStep:
  "matchStep s no_clock p (untimed_book b) (map untimed_trade ts) = untimed_result (matchStep s clk p b ts)"
  by (simp add: matchStep_def Let_def untime split: list.split)

lemma untimed_matchLoop:
  "matchLoop s no_clock p (untimed_book b) (map untimed_trade ts) = untimed_result (matchLoop s clk p b ts)"
proof (induction s clk p b ts rule: matchLoop.induct)
  case (1 s clk p b ts)
  show ?case
    apply (subst (1 2) matchLoop.simps)
    using 1 by (auto simp: untime untimed_matchStep [where clk = clk] intro!: bindE_cong) (simp add: id_def)
qed

lemma untimed_matchIncoming [untime]:
  "matchIncoming no_clock (untimed_book b) p = untimed_result (matchIncoming clk b p)"
  using untimed_matchLoop [where ts = "[]"] by (simp add: matchIncoming_def untime)

lemma untimed_restInBook [untime]: "restInBook (untimed_book b) p = map_sum id untimed_book (restInBook b p)"
  by (simp add: restInBook_def Let_def untime) (auto simp: untimed_book_def intro!: bindE_cong)

lemma untimed_addOrder:
  "addOrder no_clock (untimed_book b) (map_option untimed ord) = untimed_result (addOrder clk b ord)"
  by (cases ord)
    (auto simp: addOrder_def Let_def untime untimed_matchIncoming [where clk = clk] intro!: bindE_cong)

lemma untimed_cancelOrder: "cancelOrder (untimed_book b) i = map_sum id (map_prod id untimed_book) (cancelOrder b i)"
  by (simp add: cancelOrder_def Let_def untime split: option.split)

end
