(* ===== verification/EngineRun.thy ===== *)
theory EngineRun
  imports Engine ClockFree
begin

text \<open>
  The engine with its threads. Any number of caller threads submit and cancel at any time, one thread
  controls the engine (\<open>start\<close>, \<open>stop\<close>), and the matching thread runs its loop. The steps that touch
  shared state are atomic: a push or a pop holds the queue's mutex, and everything else the matching
  thread touches is its own. A run is any interleaving of these steps; the readings of the clocks are
  arbitrary in every step.

  \<open>stop()\<close> is two steps, up to the \<open>join\<close> and from it on, so that submissions and rounds of the
  matching thread can come between them. An exception on the matching thread ends the process: no
  further step is possible.

  The specification is sequential: \<open>applyCommands\<close> applies commands one after the other to an empty
  book with no clock at all.
\<close>

section \<open>Steps\<close>

record ('j, 's, 'u) system =
  eng :: "('j, 's, 'u) engine"
  in_stop :: bool
  terminated :: "cpp_error option"

datatype sys_label =
    Submit "order option"
  | Cancel order_id
  | Start
  | StopSignal
  | StopJoin
  | Round reading

definition idle :: "('j, 's, 'u) engine \<Rightarrow> ('j, 's, 'u) system" where
  "idle e = \<lparr>eng = e, in_stop = False, terminated = None\<rparr>"

definition matchingThread_step ::
  "reading \<Rightarrow> ('j, 's, 'u) system \<Rightarrow> ('j, 's, 'u) system option" where
  "matchingThread_step rd s =
     (if matchingThread (eng s) \<noteq> executing then None
      else case matchingRound rd (eng s) of
        Waits \<Rightarrow> None
      | Breaks e \<Rightarrow> Some (s\<lparr>eng := e\<lparr>matchingThread := finished\<rparr>\<rparr>)
      | Handles cmd out \<Rightarrow> Some (s\<lparr>eng := after out, terminated := thrown out\<rparr>))"

definition sys_next :: "sys_label \<Rightarrow> ('j, 's, 'u) system \<Rightarrow> ('j, 's, 'u) system option" where
  "sys_next l s =
     (if terminated s \<noteq> None then None
      else case l of
        Submit ord \<Rightarrow> Some (s\<lparr>eng := submitOrder ord (eng s)\<rparr>)
      | Cancel i \<Rightarrow> Some (s\<lparr>eng := engine_cancelOrder i (eng s)\<rparr>)
      | Start \<Rightarrow> if in_stop s then None else map_option (\<lambda>e. s\<lparr>eng := e\<rparr>) (start (eng s))
      | StopSignal \<Rightarrow>
          if in_stop s \<or> \<not> running (eng s) then None
          else Some (s\<lparr>eng := stop_signal (eng s), in_stop := True\<rparr>)
      | StopJoin \<Rightarrow>
          if in_stop s then map_option (\<lambda>e. s\<lparr>eng := e, in_stop := False\<rparr>) (stop_join (eng s))
          else None
      | Round rd \<Rightarrow> matchingThread_step rd s)"

inductive system_run :: "('j, 's, 'u) system \<Rightarrow> sys_label list \<Rightarrow> ('j, 's, 'u) system \<Rightarrow> bool" where
  none: "system_run s [] s"
| step: "system_run s tr s' \<Longrightarrow> sys_next l s' = Some s'' \<Longrightarrow> system_run s (tr @ [l]) s''"

inductive_cases system_run_emptyE: "system_run s [] s'"

fun exec_labels :: "sys_label list \<Rightarrow> ('j, 's, 'u) system \<Rightarrow> ('j, 's, 'u) system option" where
  "exec_labels [] s = Some s"
| "exec_labels (l # ls) s = (case sys_next l s of None \<Rightarrow> None | Some s' \<Rightarrow> exec_labels ls s')"

section \<open>The sequential specification\<close>

text \<open>The commands pushed in a run, in the order in which the pushes took the queue's lock.\<close>

fun pushed :: "sys_label list \<Rightarrow> command list" where
  "pushed [] = []"
| "pushed (Submit ord # ls) = Command_submit ord # pushed ls"
| "pushed (Cancel i # ls) = Command_cancel i # pushed ls"
| "pushed (_ # ls) = pushed ls"

definition untimed_command :: "command \<Rightarrow> command" where
  "untimed_command cmd = cmd\<lparr>cmd_order := map_option untimed (cmd_order cmd)\<rparr>"

fun applyCommands :: "command list \<Rightarrow> trade list \<times> book \<Rightarrow> (trade list \<times> book) result" where
  "applyCommands [] st = Inr st"
| "applyCommands (cmd # cmds) st =
     bindE (applyCommand no_clock (untimed_command cmd) (snd st)) (\<lambda>(ts, b').
       applyCommands cmds (fst st @ ts, b'))"

definition untimed_state :: "('j, 's, 'u) engine \<Rightarrow> trade list \<times> book" where
  "untimed_state e = (map untimed_trade (tradeLog e), untimed_book (eng_book e))"

definition blank :: "trade list \<times> book" where
  "blank = ([], empty_book)"

text \<open>The log of the commands \<open>cmds\<close>, the first of which is number \<open>k\<close> from 0: one event each, in order,
  numbered consecutively from 1 in 64 bits.\<close>

definition seq_no :: "nat \<Rightarrow> 64 word" where
  "seq_no k = word_of_nat k + 1"

fun journaled :: "nat \<Rightarrow> command list \<Rightarrow> journal_event list \<Rightarrow> bool" where
  "journaled k [] evlog \<longleftrightarrow> evlog = []"
| "journaled k (cmd # cmds) evlog \<longleftrightarrow>
     (case evlog of
        [] \<Rightarrow> False
      | ev # evs \<Rightarrow> commandEvent (ev_epochNanos ev) cmd (seq_no k) = Inr ev \<and>
          journaled (Suc k) cmds evs)"

section \<open>Runs\<close>

lemma exec_labels_append:
  "exec_labels (ls @ ls') s = (case exec_labels ls s of None \<Rightarrow> None | Some s' \<Rightarrow> exec_labels ls' s')"
  by (induction ls arbitrary: s) (auto split: option.splits)

lemma system_run_iff: "system_run s tr s' \<longleftrightarrow> exec_labels tr s = Some s'"
proof
  show "system_run s tr s' \<Longrightarrow> exec_labels tr s = Some s'"
    by (induction rule: system_run.induct) (simp_all add: exec_labels_append)
  show "exec_labels tr s = Some s' \<Longrightarrow> system_run s tr s'"
    by (induction tr arbitrary: s' rule: rev_induct)
      (auto simp: exec_labels_append intro: system_run.intros split: option.splits)
qed

lemma pushed_append [simp]: "pushed (tr @ tr') = pushed tr @ pushed tr'"
  by (induction tr rule: pushed.induct) simp_all

section \<open>One command\<close>

lemma untimed_applyCommand:
  "applyCommand no_clock (untimed_command cmd) (untimed_book b) = untimed_result (applyCommand clk cmd b)"
  using untimed_addOrder [of b "cmd_order cmd" clk]
  by (auto simp: applyCommand_def untimed_command_def untime untimed_cancelOrder intro!: bindE_cong)

lemma applyCommands_append:
  "applyCommands (cmds @ cmds') st = bindE (applyCommands cmds st) (applyCommands cmds')"
  by (induction cmds arbitrary: st) (auto simp: bindE_assoc intro!: bindE_cong)

lemma journaled_append:
  "journaled k (cmds @ [cmd]) (evlog @ [ev]) \<longleftrightarrow>
     journaled k cmds evlog \<and> commandEvent (ev_epochNanos ev) cmd (seq_no (k + length cmds)) = Inr ev"
proof (induction cmds arbitrary: k evlog)
  case Nil
  then show ?case by (cases evlog) auto
next
  case step: (Cons c cmds)
  show ?case
  proof (cases evlog)
    case Nil
    then show ?thesis by (cases cmds) auto
  next
    case (Cons e es)
    then show ?thesis using step.IH [of "Suc k" es] by simp
  qed
qed

lemma commandEvent_time: "commandEvent now cmd s = Inr ev \<Longrightarrow> ev_epochNanos ev = now"
  by (auto simp: commandEvent_def makeSubmitEvent_Inr makeCancelEvent_def split: if_splits option.splits)

section \<open>Soundness of an engine for a history of commands\<close>

text \<open>The engine has applied exactly the commands \<open>cmds\<close>: its book and trade log are those of the
  sequential specification, its log holds these commands, and the next number follows.\<close>

definition engine_sound ::
  "'j ijournal \<Rightarrow> ('j \<Rightarrow> journal_event list) \<Rightarrow> command list \<Rightarrow> ('j, 's, 'u) engine \<Rightarrow> bool" where
  "engine_sound J log_of cmds e \<longleftrightarrow>
     applyCommands cmds blank = Inr (untimed_state e) \<and> nextSeq e = seq_no (length cmds) \<and>
     (\<exists>j. journal e = Some (J, j) \<and> journaled 0 cmds (log_of j))"

text \<open>The engine threw \<open>err\<close> while it handled \<open>cmd\<close> after \<open>cmds\<close>: at a null order before the event was
  written, otherwise when the command was applied, with its event already in the log.\<close>

definition engine_crashed ::
  "'j ijournal \<Rightarrow> ('j \<Rightarrow> journal_event list) \<Rightarrow> command list \<Rightarrow> command \<Rightarrow> cpp_error \<Rightarrow>
     ('j, 's, 'u) engine \<Rightarrow> bool" where
  "engine_crashed J log_of cmds cmd err e \<longleftrightarrow>
     applyCommands cmds blank = Inr (untimed_state e) \<and>
     (\<exists>j. journal e = Some (J, j) \<and>
       (if cmd_type cmd = SUBMIT \<and> cmd_order cmd = None
        then err = undefined_behaviour \<and> journaled 0 cmds (log_of j)
        else applyCommands (cmds @ [cmd]) blank = Inl err \<and> journaled 0 (cmds @ [cmd]) (log_of j)))"

lemma seq_no_Suc: "seq_no k + 1 = seq_no (Suc k)"
  by (simp add: seq_no_def)

lemma uint_seq_no: "Suc k < 2 ^ 64 \<Longrightarrow> uint (seq_no k) = int k + 1"
proof -
  assume k: "Suc k < 2 ^ 64"
  have "unat (word_of_nat (Suc k) :: 64 word) = Suc k mod 2 ^ LENGTH(64)" by (rule unat_of_nat)
  also have "\<dots> = Suc k" using k by simp
  finally have "uint (word_of_nat (Suc k) :: 64 word) = int (Suc k)" by (simp only: uint_nat)
  then show ?thesis by (simp add: seq_no_def add.commute)
qed

lemma untimed_state_simps [simp]:
  "untimed_state (e\<lparr>incomingQueue := q\<rparr>) = untimed_state e"
  "untimed_state (e\<lparr>nextSeq := n\<rparr>) = untimed_state e"
  "untimed_state (e\<lparr>running := r\<rparr>) = untimed_state e"
  "untimed_state (e\<lparr>matchingThread := t\<rparr>) = untimed_state e"
  "untimed_state (journal_append ev e) = untimed_state e"
  "untimed_state (journal_flush e) = untimed_state e"
  by (simp_all add: untimed_state_def)

lemma engine_sound_frame [simp]:
  "engine_sound J log_of cmds (e\<lparr>incomingQueue := q\<rparr>) = engine_sound J log_of cmds e"
  "engine_sound J log_of cmds (e\<lparr>running := r\<rparr>) = engine_sound J log_of cmds e"
  "engine_sound J log_of cmds (e\<lparr>matchingThread := t\<rparr>) = engine_sound J log_of cmds e"
  by (simp_all add: engine_sound_def)

lemma commandEvent_cases:
  "commandEvent now cmd s = Inl err \<longleftrightarrow> cmd_type cmd = SUBMIT \<and> cmd_order cmd = None \<and> err = undefined_behaviour"
  by (auto simp: commandEvent_def makeSubmitEvent_Inr split: option.splits)

lemma applyCommands_snoc:
  assumes "applyCommands cmds blank = Inr (untimed_state e)"
  shows "applyCommands (cmds @ [cmd]) blank =
    (case applyCommand clk cmd (eng_book e) of
       Inl err \<Rightarrow> Inl err
     | Inr (ts, b') \<Rightarrow> Inr (map untimed_trade (tradeLog e @ ts), untimed_book b'))"
  using assms untimed_applyCommand [of cmd "eng_book e" clk]
  by (cases "applyCommand clk cmd (eng_book e)") (auto simp: applyCommands_append untimed_state_def)

text \<open>The engine has the journal \<open>J\<close>, in a state that is ready.\<close>

definition journal_ready :: "'j ijournal \<Rightarrow> ('j \<Rightarrow> bool) \<Rightarrow> ('j, 's, 'u) engine \<Rightarrow> bool" where
  "journal_ready J ready e \<longleftrightarrow> (\<exists>j. journal e = Some (J, j) \<and> ready j)"

context event_log
begin

lemma journal_publishTrades:
  "journal e = Some (J, j) \<Longrightarrow> ready j \<Longrightarrow> fits (log_of j) \<Longrightarrow>
     \<exists>j'. journal (foldl publishTrade e ts) = Some (J, j') \<and> log_of j' = log_of j \<and> ready j'"
proof (induction ts arbitrary: e j)
  case (Cons t ts)
  then show ?case
    using Cons.IH [of "publishTrade e t" "recordTrade_op J t j"] log_recordTrade [of j t] by simp
qed simp

lemma processCommand_sound:
  assumes "engine_sound J log_of cmds e" and "journal_ready J ready e"
    and fits: "\<And>evs. journaled 0 (cmds @ [cmd]) evs \<Longrightarrow> fits evs"
  shows "(case processCommand rd cmd e of
      Returns e' \<Rightarrow> engine_sound J log_of (cmds @ [cmd]) e'
    | Throws err e' \<Rightarrow> engine_crashed J log_of cmds cmd err e') \<and>
    journal_ready J ready (after (processCommand rd cmd e))"
proof -
  from assms(1,2) obtain j where j: "journal e = Some (J, j)" "journaled 0 cmds (log_of j)" and r: "ready j"
    and st: "applyCommands cmds blank = Inr (untimed_state e)" and n: "nextSeq e = seq_no (length cmds)"
    by (auto simp: engine_sound_def journal_ready_def)
  show ?thesis
  proof (cases "commandEvent (wall_now rd) cmd (nextSeq e)")
    case (Inl err)
    then have "cmd_type cmd = SUBMIT \<and> cmd_order cmd = None \<and> err = undefined_behaviour"
      by (simp add: commandEvent_cases)
    with Inl j r st show ?thesis by (simp add: processCommand_def Let_def engine_crashed_def journal_ready_def)
  next
    case (Inr ev)
    let ?e2 = "journal_append ev (e\<lparr>nextSeq := nextSeq e + 1\<rparr>)" and ?j2 = "append_op J ev j"
    from Inr j(2) n have f: "journaled 0 (cmds @ [cmd]) (log_of j @ [ev])"
      using commandEvent_time [OF Inr] by (simp add: journaled_append)
    note j2 = log_append [OF r fits [OF f]]
    with j(1) f have j2: "journal ?e2 = Some (J, ?j2)" "journaled 0 (cmds @ [cmd]) (log_of ?j2)" "ready ?j2"
      "fits (log_of ?j2)" using fits by simp_all
    have ok: "\<not> (cmd_type cmd = SUBMIT \<and> cmd_order cmd = None)"
      using Inr by (auto simp: commandEvent_def split: option.splits)
    note seq = applyCommands_snoc [OF st, of cmd "trade_now rd"]
    show ?thesis
    proof (cases "applyCommand (trade_now rd) cmd (eng_book e)")
      case err: (Inl err)
      with Inr j2 ok st seq show ?thesis
        by (auto simp: processCommand_def Let_def engine_crashed_def journal_ready_def)
    next
      case app: (Inr tsb)
      obtain ts b' where tsb: "tsb = (ts, b')" by (cases tsb)
      obtain j3 where "journal (foldl publishTrade (?e2\<lparr>eng_book := b'\<rparr>) ts) = Some (J, j3)" "log_of j3 = log_of ?j2" "ready j3"
        using journal_publishTrades [of "?e2\<lparr>eng_book := b'\<rparr>" ?j2 ts] j2(1,3,4) by auto
      with Inr app tsb j2(2) n seq show ?thesis
        by (auto simp: processCommand_def Let_def engine_sound_def untimed_state_def seq_no_Suc journal_ready_def)
    qed
  qed
qed

lemma stop_join_sound: "engine_sound J log_of cmds e \<Longrightarrow> journal_ready J ready e \<Longrightarrow> stop_join e = Some e' \<Longrightarrow>
    engine_sound J log_of cmds e' \<and> journal_ready J ready e' \<and> incomingQueue e' = incomingQueue e"
  by (auto simp: stop_join_def join_def engine_sound_def journal_ready_def log_flush split: thread_state.splits)

end

text \<open>What holds of the commands \<open>cs\<close> pushed since the history \<open>h\<close>: a prefix of them has been handled, in
  order, and the rest waits in the queue; a command that threw is between the two.\<close>

definition system_sound ::
  "'j ijournal \<Rightarrow> ('j \<Rightarrow> journal_event list) \<Rightarrow> command list \<Rightarrow> command list \<Rightarrow> ('j, 's, 'u) system \<Rightarrow> bool" where
  "system_sound J log_of h cs s \<longleftrightarrow>
     (\<exists>handled. case terminated s of
        None \<Rightarrow> cs = handled @ queue (incomingQueue (eng s)) \<and> engine_sound J log_of (h @ handled) (eng s)
      | Some err \<Rightarrow> \<exists>cmd. cs = handled @ cmd # queue (incomingQueue (eng s)) \<and>
          engine_crashed J log_of (h @ handled) cmd err (eng s))"

lemma processCommand_frame:
  "incomingQueue (after (processCommand rd cmd e)) = incomingQueue e"
  "matchingThread (after (processCommand rd cmd e)) = matchingThread e"
  "running (after (processCommand rd cmd e)) = running e"
  by (auto simp: processCommand_def Let_def split: sum.splits)

context event_log
begin

text \<open>For the logs of as many commands as there are.\<close>

definition all_fit :: "nat \<Rightarrow> bool" where
  "all_fit n \<longleftrightarrow> (\<forall>cmds evs. length cmds \<le> n \<longrightarrow> journaled 0 cmds evs \<longrightarrow> fits evs)"

lemma round_sound:
  assumes "system_sound J log_of h cs s" and "journal_ready J ready (eng s)" and "all_fit (length h + length cs)"
    and "terminated s = None" and "matchingThread_step rd s = Some s'"
  shows "system_sound J log_of h cs s' \<and> journal_ready J ready (eng s')"
proof -
  from assms(1,4) obtain handled where h: "cs = handled @ queue (incomingQueue (eng s))"
    "engine_sound J log_of (h @ handled) (eng s)" by (auto simp: system_sound_def)
  from assms(5) consider (break) e where "matchingRound rd (eng s) = Breaks e"
      "s' = s\<lparr>eng := e\<lparr>matchingThread := finished\<rparr>\<rparr>"
    | (handle) cmd out where "matchingRound rd (eng s) = Handles cmd out"
      "s' = s\<lparr>eng := after out, terminated := thrown out\<rparr>"
    by (auto simp: matchingThread_step_def split: if_splits loop_round.splits)
  then show ?thesis
  proof cases
    case break
    then have "e = eng s\<lparr>incomingQueue := incomingQueue (eng s)\<rparr>"
      by (auto simp: matchingRound_def pop_cases split: option.splits)
    with break h assms(2,4) show ?thesis by (simp add: system_sound_def journal_ready_def)
  next
    case handle
    then obtain q where q: "pop (incomingQueue (eng s)) = Some (Some cmd, q)"
      "out = processCommand rd cmd (eng s\<lparr>incomingQueue := q\<rparr>)"
      by (auto simp: matchingRound_def split: option.splits)
    have items: "queue (incomingQueue (eng s)) = cmd # queue q" by (rule tsq.get_Some [OF TrueI q(1)])
    have "incomingQueue (after out) = q" using q(2) by (simp add: processCommand_frame)
    moreover have "fits evs" if "journaled 0 ((h @ handled) @ [cmd]) evs" for evs
    proof -
      have "length ((h @ handled) @ [cmd]) \<le> length h + length cs" using h(1) items by simp
      with assms(3) that show ?thesis unfolding all_fit_def by blast
    qed
    then have "(case out of Returns e' \<Rightarrow> engine_sound J log_of ((h @ handled) @ [cmd]) e'
        | Throws err e' \<Rightarrow> engine_crashed J log_of (h @ handled) cmd err e') \<and> journal_ready J ready (after out)"
      unfolding q(2) using h(2) assms(2) by (intro processCommand_sound) (simp_all add: journal_ready_def)
    ultimately show ?thesis
      using h(1) items handle(2) assms(4) unfolding system_sound_def
      by (cases out) (auto intro: exI [of _ "handled @ [cmd]"] exI [of _ handled])
  qed
qed

lemma all_fit_mono: "all_fit n \<Longrightarrow> m \<le> n \<Longrightarrow> all_fit m"
  unfolding all_fit_def by (meson order_trans)

lemma step_sound:
  assumes "system_sound J log_of h (pushed tr) s" and "journal_ready J ready (eng s)"
    and "all_fit (length h + length (pushed tr))" and "sys_next l s = Some s'"
  shows "system_sound J log_of h (pushed (tr @ [l])) s' \<and> journal_ready J ready (eng s')"
proof (cases "\<exists>rd. l = Round rd")
  case True
  with assms(4) round_sound [OF assms(1-3)] show ?thesis by (auto simp: sys_next_def split: if_splits)
next
  case False
  from assms(4) have t: "terminated s = None" by (auto simp: sys_next_def split: if_splits)
  with assms(1) obtain handled where h: "pushed tr = handled @ queue (incomingQueue (eng s))"
    "engine_sound J log_of (h @ handled) (eng s)" by (auto simp: system_sound_def)
  have "terminated s' = None \<and> engine_sound J log_of (h @ handled) (eng s') \<and>
      journal_ready J ready (eng s') \<and> queue (incomingQueue (eng s')) = queue (incomingQueue (eng s)) @ pushed [l]"
    using False assms(2,4) t h(2) stop_join_sound [OF h(2) assms(2)]
    by (cases l) (auto simp: journal_ready_def sys_next_def submitOrder_def engine_cancelOrder_def stop_signal_def
        start_def join_def split: if_splits thread_state.splits)
  with h(1) show ?thesis by (auto simp: system_sound_def)
qed

lemma run_sound:
  "system_run s0 tr s \<Longrightarrow> system_sound J log_of h [] s0 \<Longrightarrow> journal_ready J ready (eng s0) \<Longrightarrow>
     all_fit (length h + length (pushed tr)) \<Longrightarrow>
     system_sound J log_of h (pushed tr) s \<and> journal_ready J ready (eng s)"
proof (induction rule: system_run.induct)
  case (step s tr s' l s'')
  then have f: "all_fit (length h + length (pushed tr))" by (auto elim: all_fit_mono)
  with step have "system_sound J log_of h (pushed tr) s' \<and> journal_ready J ready (eng s')" by blast
  with f step.hyps(2) show ?case by (intro step_sound) simp_all
qed simp

end

end
