(* ===== verification/EngineInvariants.thy ===== *)
theory EngineInvariants
  imports EngineRun
begin

text \<open>
  What holds in every state of a run of the engine, each as a predicate on states with a lemma for a step
  and one for a run: commands that are well formed and have ids of their own never throw (\<open>safe_for\<close>), the
  books are reachable books (\<open>run_wf\<close>), book and trade log are those of a prefix of the pushed commands
  (\<open>applied_prefix\<close>), the callback has seen every trade (\<open>callback_inv\<close>), flags and threads agree
  (\<open>control_inv\<close>), and nothing waits once the engine was stopped and its thread is done (\<open>stop_quiet\<close>).
\<close>

section \<open>Definitions\<close>

definition plugged_engine ::
  "('j ijournal \<times> 'j) option \<Rightarrow> (trade \<Rightarrow> 'u \<Rightarrow> 'u) option \<Rightarrow> ('s imarket_data_sink \<times> 's) option \<Rightarrow> 'u \<Rightarrow>
     ('j, 's, 'u) engine" where
  "plugged_engine j f k u = setOnTrade f (setMarketDataSink k (setJournal j (new_Engine u)))"

definition mem_engine ::
  "journal_event list \<Rightarrow> (trade \<Rightarrow> 'u \<Rightarrow> 'u) option \<Rightarrow> ('s imarket_data_sink \<times> 's) option \<Rightarrow> 'u \<Rightarrow>
     (journal_event list, 's, 'u) engine" where
  "mem_engine evs f k u = plugged_engine (Some (InMemoryJournal, evs)) f k u"

abbreviation events_of :: "(journal_event list, 's, 'u) engine \<Rightarrow> journal_event list" where
  "events_of e \<equiv> (case journal e of None \<Rightarrow> [] | Some (_, evs) \<Rightarrow> evs)"

abbreviation waiting :: "('j, 's, 'u) system \<Rightarrow> command list" where
  "waiting s \<equiv> queue (incomingQueue (eng s))"

text \<open>Commands whose orders are well formed and have ids of their own.\<close>

fun submitted_ids :: "command list \<Rightarrow> order_id list" where
  "submitted_ids [] = []"
| "submitted_ids (cmd # cmds) =
     (case cmd_order cmd of Some ord \<Rightarrow> [getId ord] | None \<Rightarrow> []) @ submitted_ids cmds"

definition command_ok :: "command \<Rightarrow> bool" where
  "command_ok cmd = (case cmd_type cmd of
       SUBMIT \<Rightarrow> (case cmd_order cmd of None \<Rightarrow> False | Some ord \<Rightarrow> order_ok ord)
     | CANCEL \<Rightarrow> True)"

text \<open>A short run: two submissions, one of them trades, and a cancel that still waits.\<close>

definition at_zero :: reading where
  "at_zero = \<lparr>wall_now = 0, order_now = 0, trade_now = (\<lambda>_. 0)\<rparr>"

definition sample_run :: "sys_label list" where
  "sample_run =
     [Start, Submit (Some (limit_order 1 SELL 10 100)), Round at_zero,
      Submit (Some (limit_order 2 BUY 4 101)), Cancel 1, Round at_zero]"

definition sample_end :: "(journal_event list, unit, unit) system" where
  "sample_end = (case exec_labels sample_run (idle (mem_engine [] None None ())) of
     Some s \<Rightarrow> s | None \<Rightarrow> idle (mem_engine [] None None ()))"

section \<open>Lemmas\<close>

lemma sample_run: "system_run (idle (mem_engine [] None None ())) sample_run sample_end"
proof -
  have "exec_labels sample_run (idle (mem_engine [] None None ())) \<noteq> (None :: (journal_event list, unit, unit) system option)"
    by code_simp
  then show ?thesis unfolding system_run_iff sample_end_def by auto
qed

lemma sample_end_simps:
  "terminated sample_end = None" "length (tradeLog (eng sample_end)) = 1" "length (waiting sample_end) = 1"
  by code_simp+

lemmas plugged_engine_defs = plugged_engine_def setOnTrade_def setMarketDataSink_def setJournal_def new_Engine_def

lemma plugged_engine_simps [simp]:
  "eng_book (plugged_engine j f k u) = empty_book" "incomingQueue (plugged_engine j f k u) = new_queue"
  "matchingThread (plugged_engine j f k u) = not_joinable" "running (plugged_engine j f k u) = False"
  "nextSeq (plugged_engine j f k u) = 1" "journal (plugged_engine j f k u) = j"
  "tradeLog (plugged_engine j f k u) = []"
  by (simp_all add: plugged_engine_defs)

lemma idle_simps [simp]: "eng (idle e) = e" "in_stop (idle e) = False" "terminated (idle e) = None"
  by (simp_all add: idle_def)

lemma applyCommands_blank: "applyCommands [] blank = Inr (untimed_state (plugged_engine j f k u))"
  by (simp add: blank_def untimed_state_def untimed_book_def empty_book_def fun_eq_iff)

lemma mem_engine_sound: "system_sound InMemoryJournal (\<lambda>evs. evs) [] [] (idle (mem_engine [] f k u))"
  using applyCommands_blank by (simp add: system_sound_def engine_sound_def mem_engine_def seq_no_def)

lemma mem_run_keeps:
  assumes "system_run s0 tr s" and "system_sound InMemoryJournal (\<lambda>evs. evs) h [] s0"
  shows "system_sound InMemoryJournal (\<lambda>evs. evs) h (pushed tr) s"
proof -
  have "journal_ready InMemoryJournal (\<lambda>_. True) (eng s0)"
    using assms(2) by (auto simp: system_sound_def engine_sound_def engine_crashed_def journal_ready_def split: option.splits)
  with mem.run_sound [OF assms] show ?thesis by (simp add: mem.all_fit_def)
qed

lemma mem_run_sound:
  assumes "system_run (idle (mem_engine [] f k u)) tr s"
  obtains (live) handled where "terminated s = None" "pushed tr = handled @ waiting s"
      "engine_sound InMemoryJournal (\<lambda>evs. evs) handled (eng s)"
    | (dead) handled cmd err where "terminated s = Some err" "pushed tr = handled @ cmd # waiting s"
      "engine_crashed InMemoryJournal (\<lambda>evs. evs) handled cmd err (eng s)"
  using mem_run_keeps [OF assms mem_engine_sound] by (auto simp: system_sound_def split: option.splits)

text \<open>Well-formed commands with new ids are applied without an exception.\<close>

lemma command_ok_untimed [simp]: "command_ok (untimed_command cmd) = command_ok cmd"
  by (auto simp: command_ok_def untimed_command_def order_ok_def untimed_def
      split: command_type.splits option.splits)

lemma applyCommand_ok:
  assumes "book_inv b" and "command_ok cmd" and "set (submitted_ids [cmd]) \<inter> dom (ownedOrders b) = {}"
  obtains ts b' where "applyCommand clk cmd b = Inr (ts, b')" "book_inv b'"
    "dom (ownedOrders b') \<subseteq> set (submitted_ids [cmd]) \<union> dom (ownedOrders b)"
proof (cases "cmd_type cmd")
  case SUBMIT
  with assms(2) obtain ord where ord: "cmd_order cmd = Some ord" "order_ok ord"
    by (auto simp: command_ok_def split: option.splits)
  with assms(3) have "ownedOrders b (getId ord) = None" by (auto simp: domIff)
  then obtain ts b' where add: "addOrder clk b (Some ord) = Inr (ts, b')" "book_inv b'"
    by (rule addOrder_keeps [OF assms(1) _ ord(2)])
  with addOrder_active [OF assms(1) ord(2) add(1)] SUBMIT ord show thesis
    by (intro that [of ts b']) (auto simp: applyCommand_def)
next
  case CANCEL
  obtain b' where "cancelOrder b (cancelId cmd) = Inr (ownedOrders b (cancelId cmd) \<noteq> None, b')" "book_inv b'"
    "ownedOrders b' = (ownedOrders b)(cancelId cmd := None)"
    by (rule cancelOrder_keeps [OF assms(1)])
  with CANCEL show thesis by (intro that [of "[]" b']) (auto simp: applyCommand_def)
qed

lemma submitted_ids_untimed [simp]: "submitted_ids [untimed_command cmd] = submitted_ids [cmd]"
  by (simp add: untimed_command_def split: option.split)

lemma submitted_ids_append [simp]: "submitted_ids (cs @ cs') = submitted_ids cs @ submitted_ids cs'"
  by (induction cs) simp_all

definition safe_for :: "command list \<Rightarrow> ('j, 's, 'u) system \<Rightarrow> bool" where
  "safe_for cs s \<longleftrightarrow> terminated s = None \<and> book_inv (eng_book (eng s)) \<and>
     (\<exists>handled. cs = handled @ waiting s \<and>
        dom (ownedOrders (eng_book (eng s))) \<subseteq> set (submitted_ids handled))"

lemma processCommand_ok:
  assumes "applyCommand (trade_now rd) cmd (eng_book e) = Inr (ts, b')" and "command_ok cmd"
  shows "\<exists>e'. processCommand rd cmd e = Returns e' \<and> eng_book e' = b' \<and> incomingQueue e' = incomingQueue e"
proof -
  from assms(2) obtain ev where "commandEvent (wall_now rd) cmd (nextSeq e) = Inr ev"
    by (cases "commandEvent (wall_now rd) cmd (nextSeq e)") (auto simp: command_ok_def commandEvent_cases)
  with assms(1) show ?thesis by (simp add: processCommand_def Let_def)
qed

lemma round_safe:
  assumes "safe_for cs s" and "\<forall>cmd \<in> set cs. command_ok cmd" and "distinct (submitted_ids cs)"
    and "matchingThread_step rd s = Some s'"
  shows "safe_for cs s'"
proof -
  from assms(1) obtain handled where h: "terminated s = None" "book_inv (eng_book (eng s))"
    "cs = handled @ waiting s" "dom (ownedOrders (eng_book (eng s))) \<subseteq> set (submitted_ids handled)"
    by (auto simp: safe_for_def)
  show ?thesis
  proof (cases "pop (incomingQueue (eng s))")
    case (Some r)
    obtain x q where r: "pop (incomingQueue (eng s)) = Some (x, q)" using Some by (cases r) auto
    show ?thesis
    proof (cases x)
      case None
      with r have "q = incomingQueue (eng s)" by (simp add: pop_cases)
      moreover from None r assms(4) have "s' = s\<lparr>eng := eng s\<lparr>incomingQueue := q, matchingThread := finished\<rparr>\<rparr>"
        by (simp add: matchingThread_step_def matchingRound_def split: if_splits)
      ultimately show ?thesis using assms(1) by (simp add: safe_for_def)
    next
      case cmd: (Some cmd)
      with r have items: "waiting s = cmd # queue q" by (intro tsq.get_Some) simp_all
      with h(3,4) assms(2,3) have "command_ok cmd" "set (submitted_ids [cmd]) \<inter> dom (ownedOrders (eng_book (eng s))) = {}"
        by (auto split: option.splits)
      then obtain ts b' where app: "applyCommand (trade_now rd) cmd (eng_book (eng s)) = Inr (ts, b')" "book_inv b'"
        "dom (ownedOrders b') \<subseteq> set (submitted_ids [cmd]) \<union> dom (ownedOrders (eng_book (eng s)))"
        by (rule applyCommand_ok [OF h(2)])
      obtain e' where e': "processCommand rd cmd (eng s\<lparr>incomingQueue := q\<rparr>) = Returns e'" "eng_book e' = b'"
        "incomingQueue e' = q"
        using processCommand_ok [of rd cmd "eng s\<lparr>incomingQueue := q\<rparr>"] app \<open>command_ok cmd\<close> by auto
      with r cmd assms(4) have "s' = s\<lparr>eng := e', terminated := None\<rparr>"
        by (auto simp: matchingThread_step_def matchingRound_def split: if_splits)
      with e' app h items show ?thesis
        by (auto simp: safe_for_def intro!: exI [of _ "handled @ [cmd]"])
    qed
  qed (use assms(4) in \<open>auto simp: matchingThread_step_def matchingRound_def split: if_splits\<close>)
qed

lemma step_safe:
  assumes "safe_for cs s" and "sys_next l s = Some s'"
    and "\<forall>cmd \<in> set (cs @ pushed [l]). command_ok cmd" and "distinct (submitted_ids (cs @ pushed [l]))"
  shows "safe_for (cs @ pushed [l]) s'"
proof (cases "\<exists>rd. l = Round rd")
  case True
  with assms round_safe [OF assms(1)] show ?thesis by (auto simp: sys_next_def split: if_splits)
next
  case False
  with assms(1,2) have "terminated s' = None \<and> eng_book (eng s') = eng_book (eng s) \<and> waiting s' = waiting s @ pushed [l]"
    by (cases l) (auto simp: safe_for_def sys_next_def submitOrder_def engine_cancelOrder_def stop_signal_def
      stop_join_def start_def join_def split: if_splits thread_state.splits)
  with assms(1) show ?thesis by (auto simp: safe_for_def)
qed

text \<open>For an engine that was already given the commands \<open>h\<close>.\<close>

lemma run_safe_from:
  "system_run s0 tr s \<Longrightarrow> safe_for h s0 \<Longrightarrow> \<forall>cmd \<in> set (h @ pushed tr). command_ok cmd \<Longrightarrow>
     distinct (submitted_ids (h @ pushed tr)) \<Longrightarrow> safe_for (h @ pushed tr) s"
proof (induction rule: system_run.induct)
  case (step s tr s' l s'')
  then have "safe_for (h @ pushed tr) s'" by auto
  from step_safe [OF this step.hyps(2)] step.prems(2,3) show ?case by simp
qed simp

lemmas run_safe = run_safe_from [where h = "[]", unfolded append_Nil]

text \<open>The books of a run are books that some sequence of calls leads to.\<close>

definition well_formed_order :: "command \<Rightarrow> bool" where
  "well_formed_order cmd = (case cmd_order cmd of None \<Rightarrow> True | Some ord \<Rightarrow> order_ok ord)"

lemma applyCommand_reachable:
  assumes "book_reachable b" and "well_formed_order cmd" and "applyCommand clk cmd b = Inr (ts, b')"
  shows "book_reachable b'"
proof (cases "cmd_type cmd = SUBMIT")
  case True
  with assms show ?thesis
    by (cases "cmd_order cmd")
      (auto simp: applyCommand_def well_formed_order_def addOrder_def intro: book_reachable.add)
next
  case False
  with assms show ?thesis by (auto simp: applyCommand_def bindE_eq_Inr intro: book_reachable.cancel)
qed

lemma processCommand_reachable:
  assumes "book_reachable (eng_book e)" and "well_formed_order cmd"
  shows "book_reachable (eng_book (after (processCommand rd cmd e)))"
  using assms applyCommand_reachable
  by (auto simp: processCommand_def Let_def split: sum.splits)

definition run_wf :: "('j, 's, 'u) system \<Rightarrow> bool" where
  "run_wf s \<longleftrightarrow> book_reachable (eng_book (eng s)) \<and> (\<forall>cmd \<in> set (waiting s). well_formed_order cmd)"

lemma round_wf: "run_wf s \<Longrightarrow> matchingThread_step rd s = Some s' \<Longrightarrow> run_wf s'"
  by (auto simp: run_wf_def matchingThread_step_def matchingRound_def pop_cases processCommand_frame
      intro!: processCommand_reachable split: if_splits option.splits)

lemma step_wf:
  assumes "run_wf s" and "sys_next l s = Some s'" and "\<forall>cmd \<in> set (pushed [l]). well_formed_order cmd"
  shows "run_wf s'"
  using assms round_wf [OF assms(1)]
  by (cases l)
    (auto simp: sys_next_def run_wf_def submitOrder_def engine_cancelOrder_def stop_signal_def stop_join_def
      start_def join_def split: if_splits thread_state.splits)

lemma run_wf:
  "system_run s0 tr s \<Longrightarrow> run_wf s0 \<Longrightarrow> \<forall>cmd \<in> set (pushed tr). well_formed_order cmd \<Longrightarrow> run_wf s"
  by (induction rule: system_run.induct) (auto intro: step_wf)

lemma safe_start: "safe_for [] (idle (plugged_engine j f k u))"
  by (simp add: safe_for_def book_inv_empty) (simp add: empty_book_def)

section \<open>Sequential consistency, with any plug-ins\<close>

definition applied_prefix :: "command list \<Rightarrow> ('j, 's, 'u) system \<Rightarrow> bool" where
  "applied_prefix cs s \<longleftrightarrow> terminated s = None \<longrightarrow>
     (\<exists>handled. cs = handled @ waiting s \<and> applyCommands handled blank = Inr (untimed_state (eng s)))"

lemma processCommand_applied:
  assumes "applyCommands cmds blank = Inr (untimed_state e)" and "processCommand rd cmd e = Returns e'"
  shows "applyCommands (cmds @ [cmd]) blank = Inr (untimed_state e')"
proof -
  from assms(2) obtain ev where ev: "commandEvent (wall_now rd) cmd (nextSeq e) = Inr ev"
    by (auto simp: processCommand_def Let_def split: sum.splits)
  with assms(2) obtain ts b' where app: "applyCommand (trade_now rd) cmd (eng_book e) = Inr (ts, b')"
    by (auto simp: processCommand_def Let_def split: sum.splits)
  with ev assms(2) have "eng_book e' = b'" "tradeLog e' = tradeLog e @ ts"
    by (auto simp: processCommand_def Let_def)
  with applyCommands_snoc [OF assms(1), of cmd "trade_now rd"] app show ?thesis by (simp add: untimed_state_def)
qed

text \<open>What a step other than a round leaves alone, and what a round does.\<close>

lemma caller_step_frame:
  assumes "sys_next l s = Some s'" and "\<And>rd. l \<noteq> Round rd"
  shows "terminated s' = None" "eng_book (eng s') = eng_book (eng s)" "tradeLog (eng s') = tradeLog (eng s)"
    "user_state (eng s') = user_state (eng s)" "onTrade (eng s') = onTrade (eng s)"
    "waiting s' = waiting s @ pushed [l]"
  using assms
  by (cases l; auto simp: sys_next_def submitOrder_def engine_cancelOrder_def stop_signal_def stop_join_def
      start_def join_def journal_flush_def split: if_splits thread_state.splits)+

lemma round_cases:
  assumes "sys_next (Round rd) s = Some s'"
  obtains (break) "waiting s = []" "s' = s\<lparr>eng := (eng s)\<lparr>matchingThread := finished\<rparr>\<rparr>"
    | (handle) cmd q out where "waiting s = cmd # queue q" "out = processCommand rd cmd (eng s\<lparr>incomingQueue := q\<rparr>)"
        "s' = s\<lparr>eng := after out, terminated := thrown out\<rparr>" "incomingQueue (after out) = q"
        "matchingThread (eng s) = executing" "stopping q = stopping (incomingQueue (eng s))"
proof -
  from assms have m: "matchingThread (eng s) = executing" and t: "matchingThread_step rd s = Some s'"
    by (auto simp: sys_next_def matchingThread_step_def split: if_splits)
  show thesis
  proof (cases "pop (incomingQueue (eng s))")
    case None
    with t m show thesis by (simp add: matchingThread_step_def matchingRound_def)
  next
    case (Some r)
    obtain x q where r: "pop (incomingQueue (eng s)) = Some (x, q)" using Some by (cases r) auto
    show thesis
    proof (cases x)
      case None
      with r have "q = incomingQueue (eng s)" "waiting s = []" by (simp_all add: pop_cases)
      with None r t m break show thesis by (simp add: matchingThread_step_def matchingRound_def)
    next
      case cmd: (Some cmd)
      let ?out = "processCommand rd cmd (eng s\<lparr>incomingQueue := q\<rparr>)"
      from cmd r have "waiting s = cmd # queue q" "stopping q = stopping (incomingQueue (eng s))"
        by (auto simp: pop_cases)
      moreover have "s' = s\<lparr>eng := after ?out, terminated := thrown ?out\<rparr>"
        using cmd r t m by (simp add: matchingThread_step_def matchingRound_def)
      moreover have "incomingQueue (after ?out) = q" by (simp add: processCommand_frame)
      ultimately show thesis using m by (intro handle [of cmd q ?out]) simp_all
    qed
  qed
qed

lemma step_applied:
  assumes "applied_prefix cs s" and "sys_next l s = Some s'"
  shows "applied_prefix (cs @ pushed [l]) s'"
proof -
  from assms(2) have t: "terminated s = None" by (auto simp: sys_next_def split: if_splits)
  with assms(1) obtain handled where h: "cs = handled @ waiting s"
    "applyCommands handled blank = Inr (untimed_state (eng s))" by (auto simp: applied_prefix_def)
  show ?thesis
  proof (cases "\<exists>rd. l = Round rd")
    case True
    then obtain rd where l: "l = Round rd" by blast
    with assms(2) have "sys_next (Round rd) s = Some s'" by simp
    then show ?thesis
    proof (cases rule: round_cases)
      case break
      with h l show ?thesis by (auto simp: applied_prefix_def)
    next
      case (handle cmd q out)
      show ?thesis
      proof (cases out)
        case (Returns e')
        then have "applyCommands (handled @ [cmd]) blank = Inr (untimed_state e')"
          using processCommand_applied [of handled "eng s\<lparr>incomingQueue := q\<rparr>" rd cmd e'] h(2) handle(2) by simp
        moreover have "waiting s' = queue q" "eng s' = e'" using handle(3,4) Returns by simp_all
        ultimately show ?thesis
          using h(1) handle(1) l by (auto simp: applied_prefix_def intro!: exI [of _ "handled @ [cmd]"])
      qed (use handle(3) in \<open>simp add: applied_prefix_def\<close>)
    qed
  next
    case False
    with caller_step_frame [OF assms(2)] h show ?thesis by (auto simp: applied_prefix_def untimed_state_def)
  qed
qed

lemma run_applied_from: "system_run s0 tr s \<Longrightarrow> applied_prefix h s0 \<Longrightarrow> applied_prefix (h @ pushed tr) s"
proof (induction rule: system_run.induct)
  case (step s tr s' l s'')
  then have "applied_prefix (h @ pushed tr) s'" by simp
  from step_applied [OF this step.hyps(2)] show ?case by simp
qed simp

lemmas run_applied = run_applied_from [where h = "[]", unfolded append_Nil]

lemma applied_start: "applied_prefix [] (idle (plugged_engine j f k u))"
  using applyCommands_blank by (simp add: applied_prefix_def)

section \<open>The callback\<close>

text \<open>The callback of \<open>setOnTrade\<close> has been called once for every trade of the log, in order.\<close>

definition callback_inv :: "(trade \<Rightarrow> 'u \<Rightarrow> 'u) \<Rightarrow> 'u \<Rightarrow> ('j, 's, 'u) engine \<Rightarrow> bool" where
  "callback_inv f u e \<longleftrightarrow> onTrade e = Some f \<and> user_state e = fold f (tradeLog e) u"

lemma callback_publishTrades: "callback_inv f u e \<Longrightarrow> callback_inv f u (foldl publishTrade e ts)"
proof (induction ts arbitrary: e)
  case (Cons t ts)
  then have "callback_inv f u (publishTrade e t)" by (simp add: callback_inv_def)
  with Cons.IH show ?case by simp
qed simp

lemma callback_frame:
  "callback_inv f u (publishTop e) = callback_inv f u e" "callback_inv f u (journal_append ev e) = callback_inv f u e"
  "callback_inv f u (e\<lparr>eng_book := b\<rparr>) = callback_inv f u e" "callback_inv f u (e\<lparr>nextSeq := n\<rparr>) = callback_inv f u e"
  "callback_inv f u (e\<lparr>incomingQueue := q\<rparr>) = callback_inv f u e"
  "callback_inv f u (e\<lparr>matchingThread := t\<rparr>) = callback_inv f u e"
  by (simp_all add: callback_inv_def)

lemma callback_processCommand: "callback_inv f u e \<Longrightarrow> callback_inv f u (after (processCommand rd cmd e))"
  by (auto simp: processCommand_def Let_def callback_frame split: sum.splits intro!: callback_publishTrades)

lemma run_callback:
  "system_run s0 tr s \<Longrightarrow> callback_inv f u (eng s0) \<Longrightarrow> callback_inv f u (eng s)"
proof (induction rule: system_run.induct)
  case (step s tr s' l s'')
  then have inv: "callback_inv f u (eng s')" by simp
  show ?case
  proof (cases "\<exists>rd. l = Round rd")
    case True
    then obtain rd where "sys_next (Round rd) s' = Some s''" using step.hyps(2) by auto
    then show ?thesis
      by (cases rule: round_cases) (use inv in \<open>auto simp: callback_frame intro!: callback_processCommand\<close>)
  next
    case False
    with caller_step_frame [OF step.hyps(2)] inv show ?thesis by (simp add: callback_inv_def)
  qed
qed simp

section \<open>Shutting down\<close>

text \<open>The controlling thread, the flags and the matching thread agree: while the engine runs, the thread
  executes and the queue is not stopping; during \<open>stop()\<close> the queue is stopping; otherwise there is no
  thread to join.\<close>

definition control_inv :: "('j, 's, 'u) system \<Rightarrow> bool" where
  "control_inv s \<longleftrightarrow>
     (let e = eng s in
      if in_stop s then \<not> running e \<and> stopping (incomingQueue e) \<and> matchingThread e \<noteq> not_joinable
      else if running e then \<not> stopping (incomingQueue e) \<and> matchingThread e = executing
      else matchingThread e = not_joinable)"

lemma step_control:
  assumes "control_inv s" and "sys_next l s = Some s'"
  shows "control_inv s'"
proof (cases l)
  case (Round rd)
  with assms show ?thesis
    by (auto simp: sys_next_def control_inv_def Let_def matchingThread_step_def matchingRound_def pop_cases
        processCommand_frame split: if_splits option.splits)
qed (use assms in \<open>auto simp: sys_next_def control_inv_def Let_def submitOrder_def engine_cancelOrder_def
    stop_signal_def stop_join_def start_def join_def split: if_splits thread_state.splits\<close>)

lemma run_control: "system_run s0 tr s \<Longrightarrow> control_inv s0 \<Longrightarrow> control_inv s"
  by (induction rule: system_run.induct) (auto intro: step_control)

lemma control_start: "control_inv (idle (plugged_engine j f k u))"
  by (simp add: control_inv_def)

text \<open>Once the queue is stopping, the matching thread goes through the waiting commands and returns.\<close>

lemma drain:
  assumes "matchingThread (eng s) = executing" and "stopping (incomingQueue (eng s))" and "terminated s = None"
    and "length rs = length (waiting s) + 1"
  shows "\<exists>n s'. n \<le> length rs \<and> exec_labels (map Round (take n rs)) s = Some s' \<and> in_stop s' = in_stop s \<and>
    (terminated s' \<noteq> None \<or> terminated s' = None \<and> waiting s' = [] \<and> matchingThread (eng s') = finished)"
  using assms
proof (induction "waiting s" arbitrary: s rs)
  case Nil
  then obtain rd where rs: "rs = [rd]" by (cases rs) auto
  have "pop (incomingQueue (eng s)) = Some (None, incomingQueue (eng s))"
    using Nil by (simp add: pop_cases)
  with Nil.prems Nil.hyps have "sys_next (Round rd) s = Some (s\<lparr>eng := (eng s)\<lparr>incomingQueue := incomingQueue (eng s), matchingThread := finished\<rparr>\<rparr>)"
    by (simp add: sys_next_def matchingThread_step_def matchingRound_def)
  with Nil rs show ?case by (intro exI [of _ 1]) simp
next
  case (Cons cmd cmds)
  have "length (waiting s) = Suc (length cmds)" using Cons.hyps(2) by (metis length_Cons)
  with Cons.prems(4) obtain rd rs' where rs: "rs = rd # rs'" "length rs' = length cmds + 1"
    by (cases rs) auto
  let ?q = "(incomingQueue (eng s))\<lparr>queue := cmds\<rparr>"
  let ?out = "processCommand rd cmd (eng s\<lparr>incomingQueue := ?q\<rparr>)"
  let ?s1 = "s\<lparr>eng := after ?out, terminated := thrown ?out\<rparr>"
  have "pop (incomingQueue (eng s)) = Some (Some cmd, ?q)"
    using Cons.hyps(2) [symmetric] by (simp add: pop_cases)
  with Cons.prems have nxt: "sys_next (Round rd) s = Some ?s1"
    by (simp add: sys_next_def matchingThread_step_def matchingRound_def)
  show ?case
  proof (cases "thrown ?out")
    case None
    have "\<exists>n s'. n \<le> length rs' \<and> exec_labels (map Round (take n rs')) ?s1 = Some s' \<and> in_stop s' = in_stop ?s1 \<and>
        (terminated s' \<noteq> None \<or> terminated s' = None \<and> waiting s' = [] \<and> matchingThread (eng s') = finished)"
      using None Cons.prems rs(2) by (intro Cons.hyps(1)) (simp_all add: processCommand_frame)
    then obtain n s' where "n \<le> length rs'" "exec_labels (map Round (take n rs')) ?s1 = Some s'" "in_stop s' = in_stop s"
        "terminated s' \<noteq> None \<or> terminated s' = None \<and> waiting s' = [] \<and> matchingThread (eng s') = finished"
      by auto
    then show ?thesis using nxt rs(1) by (intro exI [of _ "Suc n"] exI [of _ s']) simp
  next
    case (Some err)
    then show ?thesis using nxt rs(1) by (intro exI [of _ 1] exI [of _ ?s1]) simp
  qed
qed

text \<open>A caller that submits nothing and does not start the engine again once it has called \<open>stop()\<close>: when
  the matching thread is done, nothing waits.\<close>

fun is_quiet :: "sys_label \<Rightarrow> bool" where
  "is_quiet (Submit _) = False"
| "is_quiet (Cancel _) = False"
| "is_quiet Start = False"
| "is_quiet _ = True"

fun has_stop :: "sys_label list \<Rightarrow> bool" where
  "has_stop [] = False"
| "has_stop (StopSignal # ls) = True"
| "has_stop (_ # ls) = has_stop ls"

fun quiet_after_stop :: "sys_label list \<Rightarrow> bool" where
  "quiet_after_stop [] = True"
| "quiet_after_stop (StopSignal # ls) = list_all is_quiet ls"
| "quiet_after_stop (_ # ls) = quiet_after_stop ls"

definition stop_quiet :: "('j, 's, 'u) system \<Rightarrow> bool" where
  "stop_quiet s \<longleftrightarrow> stopping (incomingQueue (eng s)) \<and> (matchingThread (eng s) = executing \<or> waiting s = [])"

lemma has_stop_append [simp]: "has_stop (tr @ tr') = (has_stop tr \<or> has_stop tr')"
  by (induction tr rule: has_stop.induct) simp_all

lemma quiet_append: "quiet_after_stop (tr @ [l]) = (quiet_after_stop tr \<and> (has_stop tr \<longrightarrow> is_quiet l))"
  by (induction tr rule: quiet_after_stop.induct) (cases l; simp)+

lemma quiet_step:
  assumes "stop_quiet s" and "is_quiet l" and "sys_next l s = Some s'"
  shows "stop_quiet s'"
proof (cases "\<exists>rd. l = Round rd")
  case True
  then obtain rd where "sys_next (Round rd) s = Some s'" using assms(3) by auto
  then show ?thesis
    by (cases rule: round_cases) (use assms(1) in \<open>auto simp: stop_quiet_def processCommand_frame\<close>)
next
  case False
  with assms show ?thesis
    by (cases l) (auto simp: stop_quiet_def sys_next_def stop_signal_def stop_join_def join_def
        split: if_splits thread_state.splits)
qed

lemma stop_signal_quiet: "control_inv s \<Longrightarrow> sys_next StopSignal s = Some s' \<Longrightarrow> stop_quiet s'"
  by (auto simp: stop_quiet_def control_inv_def Let_def sys_next_def stop_signal_def split: if_splits)

lemma run_quiet:
  "system_run s0 tr s \<Longrightarrow> control_inv s0 \<Longrightarrow> quiet_after_stop tr \<Longrightarrow> has_stop tr \<Longrightarrow> stop_quiet s"
proof (induction rule: system_run.induct)
  case (step s tr s' l s'')
  show ?case
  proof (cases "has_stop tr")
    case True
    with step show ?thesis by (auto simp: quiet_append intro: quiet_step)
  next
    case False
    with step.prems(3) have "l = StopSignal" by (cases l) simp_all
    with step.hyps stop_signal_quiet [OF run_control [OF step.hyps(1) step.prems(1)]] show ?thesis by simp
  qed
qed simp

text \<open>The calls made on the engine, by whatever thread.\<close>

fun callers :: "sys_label list \<Rightarrow> sys_label list" where
  "callers [] = []"
| "callers (Round rd # ls) = callers ls"
| "callers (l # ls) = l # callers ls"

lemma callers_facts: "pushed (callers tr) = pushed tr" "has_stop (callers tr) = has_stop tr"
  "list_all is_quiet (callers tr) = list_all is_quiet tr"
  by (induction tr rule: callers.induct) simp_all

lemma callers_quiet: "quiet_after_stop (callers tr) = quiet_after_stop tr"
  by (induction tr rule: callers.induct) (simp_all add: callers_facts)

end
