(* ===== verification/Recovery.thy ===== *)
theory Recovery
  imports EngineProps
begin

text \<open>
  Recovery (\<open>Engine::recover\<close> with \<open>applyEvent\<close>): replaying the log. The orders of the log are rebuilt by
  the factory from their events, so what is proved is for submitted orders as the factory returns them.

  The lemmas relate the replay of a log, event by event, to the sequential specification of
  \<open>EngineRun\<close>; with the soundness of the running engine this gives that a recovered engine is the engine
  that wrote the log, and that a log with an event that threw throws again.
\<close>

section \<open>Replay and the sequential specification\<close>

definition from_factory :: "command \<Rightarrow> bool" where
  "from_factory cmd = (case cmd_order cmd of None \<Rightarrow> True | Some ord \<Rightarrow> fresh_order ord)"

lemma untimed_applyEvent:
  assumes "commandEvent now cmd s = Inr ev" and "from_factory cmd"
  shows "untimed_result (applyEvent rd ev b) = applyCommand no_clock (untimed_command cmd) (untimed_book b)"
proof (cases "cmd_type cmd = SUBMIT")
  case True
  with assms obtain ord where ord: "cmd_order cmd = Some ord" "makeSubmitEvent now ord s = Inr ev" "fresh_order ord"
    by (auto simp: commandEvent_def from_factory_def split: option.splits)
  from ord(2) have "ev_type ev = SUBMIT" by (auto simp: makeSubmitEvent_Inr)
  with createOrder_of_event [OF ord(3,2)] True ord(1)
    untimed_addOrder [of b "Some (ord\<lparr>getTimestamp := order_now rd\<rparr>)" "trade_now rd"]
  show ?thesis by (simp add: applyEvent_def applyCommand_def untimed_command_def)
next
  case False
  with assms have "ev = makeCancelEvent now (cancelId cmd) s" by (simp add: commandEvent_def)
  with False show ?thesis
    by (auto simp: applyEvent_def applyCommand_def untimed_command_def untime untimed_cancelOrder intro!: bindE_cong)
qed

lemma commandEvent_seq: "commandEvent now cmd s = Inr ev \<Longrightarrow> ev_seq ev = s"
  by (auto simp: commandEvent_def makeSubmitEvent_Inr split: if_splits option.splits)

lemma max_seq_no: "Suc k < 2 ^ 64 \<Longrightarrow> max (word_of_nat k) (seq_no k) = (word_of_nat (Suc k) :: 64 word)"
proof -
  assume k: "Suc k < 2 ^ 64"
  have "seq_no k = word_of_nat (Suc k)" by (simp add: seq_no_def)
  moreover from k have "(word_of_nat k :: 64 word) \<le> word_of_nat (Suc k)"
    by (simp add: word_le_nat_alt unat_of_nat del: of_nat_Suc)
  ultimately show ?thesis by (simp add: max_def del: of_nat_Suc)
qed

lemma recoverLoop_refines:
  assumes "journaled k cmds evs" and "\<forall>cmd \<in> set cmds. from_factory cmd" and "k + length cmds < 2 ^ 64"
  shows "case applyCommands cmds (untimed_state e) of
      Inl err \<Rightarrow> thrown (recoverLoop rds evs (word_of_nat k) e) = Some err
    | Inr st \<Rightarrow> \<exists>e'. recoverLoop rds evs (word_of_nat k) e = Returns e' \<and> untimed_state e' = st \<and>
        nextSeq e' = seq_no (k + length cmds) \<and> journal e' = journal e \<and> incomingQueue e' = incomingQueue e \<and>
        running e' = running e \<and> matchingThread e' = matchingThread e"
  using assms
proof (induction cmds arbitrary: k evs rds e)
  case Nil
  then show ?case by (simp add: untimed_state_def seq_no_def)
next
  case (Cons cmd cmds)
  from Cons.prems(1) obtain ev evs' where evs: "evs = ev # evs'" "journaled (Suc k) cmds evs'"
    "commandEvent (ev_epochNanos ev) cmd (seq_no k) = Inr ev"
    by (auto split: list.splits)
  from Cons.prems(3) have m: "max (word_of_nat k) (ev_seq ev) = word_of_nat (Suc k)"
    using max_seq_no [of k] commandEvent_seq [OF evs(3)] by simp
  have app: "untimed_result (applyEvent (rds 0) ev (eng_book e)) =
      applyCommand no_clock (untimed_command cmd) (untimed_book (eng_book e))"
    using untimed_applyEvent [OF evs(3)] Cons.prems(2) by simp
  show ?case
  proof (cases "applyEvent (rds 0) ev (eng_book e)")
    case (Inl err)
    with app [symmetric] evs(1) show ?thesis by (simp add: untimed_state_def)
  next
    case (Inr tb)
    obtain ts b' where tb: "tb = (ts, b')" by (cases tb)
    let ?e = "e\<lparr>eng_book := b', tradeLog := tradeLog e @ ts\<rparr>"
    have a: "applyCommands (cmd # cmds) (untimed_state e) = applyCommands cmds (untimed_state ?e)"
      using app [symmetric] Inr tb by (simp add: untimed_state_def)
    have r: "recoverLoop rds evs (word_of_nat k) e =
        recoverLoop (\<lambda>n. rds (Suc n)) evs' (word_of_nat (Suc k)) ?e"
      using Inr tb evs(1) m by (simp del: of_nat_Suc)
    show ?thesis
      unfolding a r
      using Cons.IH [OF evs(2), where e = ?e and rds = "\<lambda>n. rds (Suc n)"] Cons.prems(2,3)
      by (cases "applyCommands cmds (untimed_state ?e)") (auto simp del: of_nat_Suc)
  qed
qed

text \<open>An engine that has done nothing yet, on a journal that reads back the log of the commands \<open>cmds\<close>.\<close>

lemma recover_refines:
  assumes "journal_loadAll e = Inr evs" and "untimed_state e = blank" and "journaled 0 cmds evs"
    and "\<forall>cmd \<in> set cmds. from_factory cmd" and "length cmds < 2 ^ 64"
  shows "case applyCommands cmds blank of
      Inl err \<Rightarrow> thrown (recover rds e) = Some err
    | Inr st \<Rightarrow> \<exists>e'. recover rds e = Returns e' \<and> untimed_state e' = st \<and>
        nextSeq e' = seq_no (length cmds) \<and> journal e' = journal e \<and> incomingQueue e' = incomingQueue e \<and>
        running e' = running e \<and> matchingThread e' = matchingThread e"
proof -
  have "recover rds e = recoverLoop rds evs (word_of_nat 0) e" using assms(1) by (simp add: recover_def)
  then show ?thesis using recoverLoop_refines [OF assms(3,4), where e = e and rds = rds] assms(2,5)
    by (cases "applyCommands cmds blank") auto
qed

lemma untimed_state_plugged [simp]: "untimed_state (plugged_engine j f k u) = blank"
  using applyCommands_blank [where j = j and f = f and k = k and u = u] by simp

lemma recover_mem_refines:
  assumes "journaled 0 cmds evs" and "\<forall>cmd \<in> set cmds. from_factory cmd" and "length cmds < 2 ^ 64"
  shows "case applyCommands cmds blank of
      Inl err \<Rightarrow> thrown (recover rds (mem_engine evs f k u)) = Some err
    | Inr st \<Rightarrow> \<exists>e'. recover rds (mem_engine evs f k u) = Returns e' \<and> untimed_state e' = st \<and>
        nextSeq e' = seq_no (length cmds) \<and> journal e' = Some (InMemoryJournal, evs) \<and>
        queue (incomingQueue e') = []"
proof -
  let ?e = "mem_engine evs f k u"
  have "journal_loadAll ?e = Inr evs" "untimed_state ?e = blank"
    by (simp_all add: journal_loadAll_def mem_engine_def mem.log_loadAll)
  from recover_refines [OF this assms, of rds] show ?thesis
    by (cases "applyCommands cmds blank") (auto simp: mem_engine_def)
qed

lemma recovered_sound:
  assumes "engine_sound InMemoryJournal (\<lambda>evs. evs) cmds e" and "\<forall>cmd \<in> set cmds. from_factory cmd"
    and "length cmds < 2 ^ 64"
  obtains e' where "recover rds (mem_engine (events_of e) f k u) = Returns e'" "untimed_state e' = untimed_state e"
    "nextSeq e' = nextSeq e" "journal e' = journal e" "queue (incomingQueue e') = []"
    "engine_sound InMemoryJournal (\<lambda>evs. evs) cmds e'"
proof -
  from assms(1) obtain evs where e: "journal e = Some (InMemoryJournal, evs)" "journaled 0 cmds evs"
    "applyCommands cmds blank = Inr (untimed_state e)" "nextSeq e = seq_no (length cmds)"
    by (auto simp: engine_sound_def)
  from recover_mem_refines [OF e(2) assms(2,3), of rds f k u] e that show thesis
    by (auto simp: engine_sound_def)
qed

text \<open>A new engine on the log of the sample run.\<close>

definition sample_restart :: "'u \<Rightarrow> (journal_event list, unit, 'u) engine" where
  "sample_restart u = mem_engine (events_of (eng sample_end)) None None u"

lemma fresh_limit_order: "0 < q \<Longrightarrow> q < 2 ^ 31 \<Longrightarrow> 0 < p \<Longrightarrow> fresh_order (limit_order i s q p)"
  using order_ok_limit_order [of q p i s] by (simp add: fresh_order_def limit_order_def)

lemma sample_from_factory: "\<forall>cmd \<in> set (pushed sample_run). from_factory cmd"
  by (simp add: sample_run_def from_factory_def Command_submit_def Command_cancel_def fresh_limit_order)

section \<open>Properties\<close>

text \<open>C2: recovery reproduces the engine. For every run, whatever its interleaving and clocks, that has not
  been terminated and has logged fewer than 2^64 events of factory-made orders and cancels: a new engine
  with the same journal recovers without an exception, under any clocks, to the same book and the same
  trade log up to time stamps, with the same next sequence number and the log unchanged.\<close>

theorem recovery_reproduces:
  assumes "system_run (idle (mem_engine [] f k u)) tr s" and "terminated s = None"
    and "\<forall>cmd \<in> set (pushed tr). from_factory cmd" and "length (pushed tr) < 2 ^ 64"
  shows "\<exists>e'. recover rds (mem_engine (events_of (eng s)) f' k' u') = Returns e' \<and>
    untimed_book (eng_book e') = untimed_book (eng_book (eng s)) \<and>
    map untimed_trade (tradeLog e') = map untimed_trade (tradeLog (eng s)) \<and>
    nextSeq e' = nextSeq (eng s) \<and> journal e' = journal (eng s)"
  using assms(1)
proof (cases rule: mem_run_sound)
  case (live handled)
  with assms(3,4) have h: "\<forall>cmd \<in> set handled. from_factory cmd" "length handled < 2 ^ 64" by auto
  obtain e' where "recover rds (mem_engine (events_of (eng s)) f' k' u') = Returns e'"
    "untimed_state e' = untimed_state (eng s)" "nextSeq e' = nextSeq (eng s)" "journal e' = journal (eng s)"
    by (rule recovered_sound [OF live(3) h])
  then show ?thesis by (auto simp: untimed_state_def)
qed (use assms(2) in simp)

theorem recovery_reproduces_witness:
  "\<exists>e'. recover (\<lambda>_. at_zero) (mem_engine (events_of (eng sample_end)) None (None :: (unit imarket_data_sink \<times> unit) option) ()) = Returns e' \<and>
     untimed_book (eng_book e') = untimed_book (eng_book (eng sample_end)) \<and> nextSeq e' = nextSeq (eng sample_end)"
proof -
  have "\<forall>cmd \<in> set (pushed sample_run). from_factory cmd" "length (pushed sample_run) < 2 ^ 64"
    by (rule sample_from_factory) (simp add: sample_run_def)
  from recovery_reproduces [OF sample_run sample_end_simps(1) this, where f' = None and u' = "()"
      and k' = "None :: (unit imarket_data_sink \<times> unit) option" and rds = "\<lambda>_. at_zero"]
  show ?thesis by auto
qed

text \<open>C8: a recovered engine continues where the other one stopped. Whatever runs after a recovery, the
  book and the trade log are those of applying the commands before and after the restart one after the
  other, and the log holds all of them in order with consecutive numbers.\<close>

theorem recovered_engine_continues:
  assumes "system_run (idle (mem_engine [] f k u)) tr s" and "terminated s = None"
    and "\<forall>cmd \<in> set (pushed tr). from_factory cmd" and "length (pushed tr) < 2 ^ 64"
    and "recover rds (mem_engine (events_of (eng s)) f' k' u') = Returns e'"
    and "system_run (idle e') tr' s'" and "terminated s' = None"
  shows "\<exists>before later. pushed tr = before @ waiting s \<and> pushed tr' = later @ waiting s' \<and>
    applyCommands (before @ later) blank = Inr (untimed_state (eng s')) \<and>
    journaled 0 (before @ later) (events_of (eng s'))"
  using assms(1)
proof (cases rule: mem_run_sound)
  case (live handled)
  with assms(3,4) have h: "\<forall>cmd \<in> set handled. from_factory cmd" "length handled < 2 ^ 64" by auto
  obtain e1 where "recover rds (mem_engine (events_of (eng s)) f' k' u') = Returns e1"
    "queue (incomingQueue e1) = []" "engine_sound InMemoryJournal (\<lambda>evs. evs) handled e1"
    by (rule recovered_sound [OF live(3) h])
  with assms(5) have "system_sound InMemoryJournal (\<lambda>evs. evs) handled [] (idle e')"
    by (simp add: system_sound_def)
  from mem_run_keeps [OF assms(6) this] assms(7) live(2) show ?thesis
    by (auto simp: system_sound_def engine_sound_def)
qed (use assms(2) in simp)

theorem recovered_engine_continues_witness:
  "\<exists>e' s' before later. recover (\<lambda>_. at_zero) (sample_restart ()) = Returns e' \<and>
     system_run (idle e') [Start, Cancel 1, Round at_zero] s' \<and> later = [Command_cancel 1] \<and>
     length before = 2 \<and> applyCommands (before @ later) blank = Inr (untimed_state (eng s'))"
proof -
  let ?tr = "[Start, Cancel 1, Round at_zero]"
  have ok: "\<forall>cmd \<in> set (pushed sample_run). from_factory cmd" "length (pushed sample_run) < 2 ^ 64"
    by (rule sample_from_factory) (simp add: sample_run_def)
  have "case recover (\<lambda>_. at_zero) (sample_restart ()) of Throws _ _ \<Rightarrow> False
      | Returns e' \<Rightarrow> (case exec_labels ?tr (idle e') of None \<Rightarrow> False
        | Some s' \<Rightarrow> terminated s' = None \<and> waiting s' = [])"
    by code_simp
  then obtain e' s' where e': "recover (\<lambda>_. at_zero) (sample_restart ()) = Returns e'"
    "system_run (idle e') ?tr s'" "terminated s' = None" "waiting s' = []"
    by (auto simp: system_run_iff split: outcome.splits option.splits)
  obtain before later where r: "pushed sample_run = before @ waiting sample_end" "pushed ?tr = later @ waiting s'"
    "applyCommands (before @ later) blank = Inr (untimed_state (eng s'))"
    using recovered_engine_continues [OF sample_run sample_end_simps(1) ok e'(1) [unfolded sample_restart_def] e'(2,3)]
    by blast
  have "length (pushed sample_run) = 3" by (simp add: sample_run_def)
  with r(1) sample_end_simps(3) have "length before = 2" by simp
  moreover from r(2) e'(4) have "later = [Command_cancel 1]" by simp
  ultimately show ?thesis using e'(1,2) r(3) by blast
qed

text \<open>C18: a duplicate id poisons the log. When the next command submits an order whose id is still active,
  the matching thread throws, which terminates the process, after the event was written; every later
  recovery from that log throws the same exception, so the engine cannot be brought back from it.\<close>

theorem duplicate_id_poisons_log:
  assumes "system_run (idle (mem_engine [] f k u)) tr s" and "terminated s = None"
    and "\<forall>cmd \<in> set (pushed tr). from_factory cmd" and "length (pushed tr) < 2 ^ 64"
    and "matchingThread (eng s) = executing" and "waiting s = Command_submit (Some ord) # rest"
    and "ownedOrders (eng_book (eng s)) (getId ord) \<noteq> None"
  shows "\<exists>s'. sys_next (Round rd) s = Some s' \<and>
    terminated s' = Some (invalid_argument ''Order ID is already active'') \<and>
    thrown (recover rds (mem_engine (events_of (eng s')) f' k' u')) =
      Some (invalid_argument ''Order ID is already active'')"
proof -
  let ?cmd = "Command_submit (Some ord)" and ?q = "(incomingQueue (eng s))\<lparr>queue := rest\<rparr>"
  let ?err = "invalid_argument ''Order ID is already active''"
  have "pop (incomingQueue (eng s)) = Some (Some ?cmd, ?q)" using assms(6) by (simp add: pop_cases)
  moreover have app: "applyCommand (trade_now rd) ?cmd (eng_book (eng s)) = Inl ?err"
    using addOrder_dup [OF assms(7)] by (simp add: applyCommand_def Command_submit_def)
  moreover obtain ev where "commandEvent (wall_now rd) ?cmd (nextSeq (eng s)) = Inr ev"
    by (simp add: commandEvent_def Command_submit_def makeSubmitEvent_Inr)
  ultimately obtain s' where s': "sys_next (Round rd) s = Some s'" "terminated s' = Some ?err"
    using assms(2,5)
    by (simp add: sys_next_def matchingThread_step_def matchingRound_def processCommand_def Let_def)
  have run: "system_run (idle (mem_engine [] f k u)) (tr @ [Round rd]) s'"
    by (rule system_run.step [OF assms(1) s'(1)])
  from run have "thrown (recover rds (mem_engine (events_of (eng s')) f' k' u')) = Some ?err"
  proof (cases rule: mem_run_sound)
    case (dead handled cmd err)
    with assms(3,4) s'(2) have h: "\<forall>c \<in> set (handled @ [cmd]). from_factory c" "length (handled @ [cmd]) < 2 ^ 64"
      and err: "err = ?err" by auto
    with dead(3) obtain evs where "journal (eng s') = Some (InMemoryJournal, evs)"
      "applyCommands (handled @ [cmd]) blank = Inl err" "journaled 0 (handled @ [cmd]) evs"
      by (auto simp: engine_crashed_def split: if_splits)
    with recover_mem_refines [OF _ h, of evs rds f' k' u'] err show ?thesis by simp
  qed (use s'(2) in simp)
  with s' show ?thesis by blast
qed

theorem duplicate_id_poisons_log_witness:
  "\<exists>s s'. system_run (idle (mem_engine [] None (None :: (unit imarket_data_sink \<times> unit) option) ()))
       [Start, Submit (Some (limit_order 1 SELL 10 100)), Round at_zero, Submit (Some (limit_order 1 BUY 4 90))] s \<and>
     sys_next (Round at_zero) s = Some s' \<and>
     thrown (recover (\<lambda>_. at_zero) (mem_engine (events_of (eng s')) None (None :: (unit imarket_data_sink \<times> unit) option) ())) =
       Some (invalid_argument ''Order ID is already active'')"
proof -
  let ?tr = "[Start, Submit (Some (limit_order 1 SELL 10 100)), Round at_zero, Submit (Some (limit_order 1 BUY 4 90))]"
  let ?s0 = "idle (mem_engine [] None None ()) :: (journal_event list, unit, unit) system"
  have "case exec_labels ?tr ?s0 of None \<Rightarrow> False | Some s \<Rightarrow> terminated s = None \<and>
      matchingThread (eng s) = executing \<and> waiting s = [Command_submit (Some (limit_order 1 BUY 4 90))] \<and>
      ownedOrders (eng_book (eng s)) (getId (limit_order 1 BUY 4 90)) \<noteq> None"
    by code_simp
  then obtain s where s: "system_run ?s0 ?tr s" "terminated s = None" "matchingThread (eng s) = executing"
    "waiting s = [Command_submit (Some (limit_order 1 BUY 4 90))]"
    "ownedOrders (eng_book (eng s)) (getId (limit_order 1 BUY 4 90)) \<noteq> None"
    by (auto simp: system_run_iff split: option.splits)
  have ok: "\<forall>cmd \<in> set (pushed ?tr). from_factory cmd" "length (pushed ?tr) < 2 ^ 64"
    by (simp_all add: from_factory_def Command_submit_def fresh_limit_order)
  from duplicate_id_poisons_log [OF s(1,2) ok s(3-5), of at_zero "\<lambda>_. at_zero" None None "()"] s(1)
  show ?thesis by blast
qed

end
