(* ===== verification/PgDatabase.thy ===== *)
theory PgDatabase
  imports Journal
begin

text \<open>
  The PostgreSQL side of \<open>persistence/PostgresJournal.cpp\<close>: the encodings of an event and of a trade as
  rows, the statements the program sends, and the database they are sent to.

  The database, reached through libpqxx, is a parameter: \<open>db_txn\<close> runs statements in one transaction and
  commits it, or throws; \<open>db_select\<close> is the query of \<open>loadAll\<close> on a connection of its own, which may throw
  as well. \<open>database_laws\<close> states what the code relies on: a committed transaction has had the effect of its
  statements on the two tables, one that threw has changed no table, and the query returns the rows of
  \<open>events\<close> in ascending order of \<open>seq\<close>. The effect of a statement is \<open>sql\<close>, which fails on a table that does
  not exist and on a second row with the same primary key. A \<open>healthy\<close> database fails no transaction
  for another reason. The ids the server assigns to the rows of \<open>trades\<close> are the positions in the table.

  A \<open>BIGINT\<close> column is signed, so the casts to \<open>long long\<close> read a 64-bit value as signed and the casts
  back wrap around.
\<close>

section \<open>Encodings\<close>

definition encodeCmd :: "command_type \<Rightarrow> int" where
  "encodeCmd t = (if t = SUBMIT then 0 else 1)"

definition decodeCmd :: "int \<Rightarrow> command_type" where
  "decodeCmd v = (if v = 0 then SUBMIT else CANCEL)"

definition encodeKind :: "order_kind \<Rightarrow> int" where
  "encodeKind k = (if k = LIMIT then 1 else 0)"

definition decodeKind :: "int \<Rightarrow> order_kind" where
  "decodeKind v = (if v = 1 then LIMIT else MARKET)"

definition encodeSide :: "side \<Rightarrow> int" where
  "encodeSide s = (if s = BUY then 0 else 1)"

definition decodeSide :: "int \<Rightarrow> side" where
  "decodeSide v = (if v = 0 then BUY else SELL)"

record event_row =
  row_seq :: int
  row_type :: int
  row_kind :: int
  row_order_id :: int
  row_trader_id :: int
  row_side :: int
  row_quantity :: int
  row_price :: double
  row_epoch_nanos :: int

record trade_row =
  row_buy_order_id :: int
  row_sell_order_id :: int
  row_trade_price :: double
  row_trade_quantity :: int
  row_trade_epoch_nanos :: int

text \<open>The struct \<open>TradeRow\<close>: a trade with the wall clock when it was recorded.\<close>

record queued_trade =
  queued :: trade
  queued_epochNanos :: int

definition event_to_row :: "journal_event \<Rightarrow> event_row" where
  "event_to_row ev =
     \<lparr>row_seq = sint (ev_seq ev), row_type = encodeCmd (ev_type ev), row_kind = encodeKind (ev_kind ev),
      row_order_id = sint (ev_orderId ev), row_trader_id = sint (ev_traderId ev),
      row_side = encodeSide (ev_side ev), row_quantity = ev_quantity ev, row_price = ev_price ev,
      row_epoch_nanos = ev_epochNanos ev\<rparr>"

definition row_to_event :: "event_row \<Rightarrow> journal_event" where
  "row_to_event row =
     \<lparr>ev_seq = word_of_int (row_seq row), ev_type = decodeCmd (row_type row), ev_kind = decodeKind (row_kind row),
      ev_orderId = word_of_int (row_order_id row), ev_traderId = word_of_int (row_trader_id row),
      ev_side = decodeSide (row_side row), ev_quantity = row_quantity row, ev_price = row_price row,
      ev_epochNanos = row_epoch_nanos row\<rparr>"

definition trade_to_row :: "queued_trade \<Rightarrow> trade_row" where
  "trade_to_row t =
     \<lparr>row_buy_order_id = sint (buyOrderId (queued t)), row_sell_order_id = sint (sellOrderId (queued t)),
      row_trade_price = price (queued t), row_trade_quantity = quantity (queued t),
      row_trade_epoch_nanos = queued_epochNanos t\<rparr>"

section \<open>The database\<close>

datatype statement =
    create_events | create_trades
  | ins_event event_row | ins_trade trade_row
  | truncate_events | truncate_trades

text \<open>The two tables; \<open>None\<close> is a table that does not exist.\<close>

record pg_tables =
  events_table :: "event_row list option"
  trades_table :: "trade_row list option"

fun sql :: "statement \<Rightarrow> pg_tables \<Rightarrow> pg_tables option" where
  "sql create_events T = Some (if events_table T = None then T\<lparr>events_table := Some []\<rparr> else T)"
| "sql create_trades T = Some (if trades_table T = None then T\<lparr>trades_table := Some []\<rparr> else T)"
| "sql (ins_event row) T =
     (case events_table T of
        None \<Rightarrow> None
      | Some rows \<Rightarrow> if row_seq row \<in> set (map row_seq rows) then None
          else Some (T\<lparr>events_table := Some (rows @ [row])\<rparr>))"
| "sql (ins_trade row) T =
     (case trades_table T of None \<Rightarrow> None | Some rows \<Rightarrow> Some (T\<lparr>trades_table := Some (rows @ [row])\<rparr>))"
| "sql truncate_events T = (if events_table T = None then None else Some (T\<lparr>events_table := Some []\<rparr>))"
| "sql truncate_trades T = (if trades_table T = None then None else Some (T\<lparr>trades_table := Some []\<rparr>))"

fun sql_txn :: "statement list \<Rightarrow> pg_tables \<Rightarrow> pg_tables option" where
  "sql_txn [] T = Some T"
| "sql_txn (s # ss) T = (case sql s T of None \<Rightarrow> None | Some T' \<Rightarrow> sql_txn ss T')"

record 'd database =
  db_txn :: "statement list \<Rightarrow> 'd \<Rightarrow> 'd outcome"
  db_select :: "'d \<Rightarrow> event_row list result"

definition database_laws :: "'d database \<Rightarrow> ('d \<Rightarrow> pg_tables) \<Rightarrow> bool" where
  "database_laws D tables \<longleftrightarrow>
     (\<forall>ss d d'. db_txn D ss d = Returns d' \<longrightarrow> sql_txn ss (tables d) = Some (tables d')) \<and>
     (\<forall>ss d d' err. db_txn D ss d = Throws err d' \<longrightarrow> tables d' = tables d) \<and>
     (\<forall>d rows. db_select D d = Inr rows \<longrightarrow>
        (\<exists>t. events_table (tables d) = Some t \<and> rows = sort_key row_seq t))"

definition healthy :: "'d database \<Rightarrow> ('d \<Rightarrow> pg_tables) \<Rightarrow> bool" where
  "healthy D tables \<longleftrightarrow>
     (\<forall>ss d. sql_txn ss (tables d) \<noteq> None \<longrightarrow> thrown (db_txn D ss d) = None) \<and>
     (\<forall>d. events_table (tables d) \<noteq> None \<longrightarrow> (\<exists>rows. db_select D d = Inr rows))"

text \<open>The statements of one batch of the writer.\<close>

definition batch_statements :: "journal_event list \<Rightarrow> queued_trade list \<Rightarrow> statement list" where
  "batch_statements events trades =
     map (\<lambda>ev. ins_event (event_to_row ev)) events @ map (\<lambda>t. ins_trade (trade_to_row t)) trades"

text \<open>A database that keeps the tables themselves and also rejects the transactions that satisfy \<open>bad\<close>.\<close>

definition list_database :: "(statement list \<Rightarrow> bool) \<Rightarrow> pg_tables database" where
  "list_database bad =
     \<lparr>db_txn = (\<lambda>ss d. if bad ss then Throws (runtime_error ''failed'') d
        else (case sql_txn ss d of None \<Rightarrow> Throws (runtime_error ''sql_error'') d | Some d' \<Rightarrow> Returns d')),
      db_select = (\<lambda>d. case events_table d of
          None \<Rightarrow> Inl (runtime_error ''undefined_table'') | Some t \<Rightarrow> Inr (sort_key row_seq t))\<rparr>"

section \<open>Lemmas\<close>

lemma list_database_laws: "database_laws (list_database bad) (\<lambda>d. d)"
  by (auto simp: database_laws_def list_database_def split: if_splits option.splits)

lemma list_database_healthy: "healthy (list_database (\<lambda>_. False)) (\<lambda>d. d)"
  by (auto simp: healthy_def list_database_def split: option.splits)

lemma healthyE:
  assumes "healthy D tables" and "database_laws D tables" and "sql_txn ss (tables d) = Some T"
  obtains d' where "db_txn D ss d = Returns d'" "tables d' = T"
proof -
  from assms(1,3) have "thrown (db_txn D ss d) = None" by (simp add: healthy_def)
  then obtain d' where d': "db_txn D ss d = Returns d'" by (cases "db_txn D ss d") auto
  with assms(2) have "sql_txn ss (tables d) = Some (tables d')" unfolding database_laws_def by blast
  with assms(3) d' that show thesis by simp
qed

lemma sql_txn_append: "sql_txn (ss @ ss') T = (case sql_txn ss T of None \<Rightarrow> None | Some T' \<Rightarrow> sql_txn ss' T')"
  by (induction ss arbitrary: T) (auto split: option.splits)

text \<open>A batch of inserts goes through exactly when its keys are new and distinct.\<close>

lemma sql_ins_events:
  assumes "events_table T = Some rows" and "distinct (map row_seq rows)"
  shows "sql_txn (map ins_event es) T =
    (if distinct (map row_seq (rows @ es)) then Some (T\<lparr>events_table := Some (rows @ es)\<rparr>) else None)"
  using assms
proof (induction es arbitrary: T rows)
  case (Cons e es)
  show ?case
  proof (cases "row_seq e \<in> set (map row_seq rows)")
    case False
    with Cons.prems have "sql (ins_event e) T = Some (T\<lparr>events_table := Some (rows @ [e])\<rparr>)" by simp
    with Cons.IH [of "T\<lparr>events_table := Some (rows @ [e])\<rparr>" "rows @ [e]"] Cons.prems False show ?thesis by simp
  qed (use Cons.prems in auto)
qed simp

lemma sql_ins_trades:
  "trades_table T = Some rows \<Longrightarrow> sql_txn (map ins_trade ts) T = Some (T\<lparr>trades_table := Some (rows @ ts)\<rparr>)"
  by (induction ts arbitrary: T rows) simp_all

lemma decodeCmd_encode [simp]: "decodeCmd (encodeCmd t) = t"
  by (cases t) (simp_all add: encodeCmd_def decodeCmd_def)

lemma decodeKind_encode [simp]: "decodeKind (encodeKind k) = k"
  by (cases k) (simp_all add: encodeKind_def decodeKind_def)

lemma decodeSide_encode [simp]: "decodeSide (encodeSide s) = s"
  by (cases s) (simp_all add: encodeSide_def decodeSide_def)

lemma row_to_event_to_row [simp]: "row_to_event (event_to_row ev) = ev"
  by (simp add: row_to_event_def event_to_row_def)

lemma sql_batch:
  assumes "events_table T = Some rows" and "trades_table T = Some trows"
    and "distinct (map row_seq rows)"
  shows "sql_txn (batch_statements es ts) T =
    (if distinct (map row_seq (rows @ map event_to_row es))
     then Some (T\<lparr>events_table := Some (rows @ map event_to_row es), trades_table := Some (trows @ map trade_to_row ts)\<rparr>)
     else None)"
proof -
  have b: "batch_statements es ts = map ins_event (map event_to_row es) @ map ins_trade (map trade_to_row ts)"
    by (simp add: batch_statements_def comp_def)
  show ?thesis
    using sql_ins_events [OF assms(1,3), of "map event_to_row es"] assms(2)
    by (simp add: b sql_txn_append sql_ins_trades del: map_map)
qed

text \<open>A list in strictly ascending order of sequence numbers below 2^63 is what the query returns for its
  rows, and its rows have distinct keys.\<close>

definition seq_ordered :: "journal_event list \<Rightarrow> bool" where
  "seq_ordered evs \<longleftrightarrow>
     sorted_wrt (<) (map (\<lambda>ev. uint (ev_seq ev)) evs) \<and> (\<forall>ev \<in> set evs. uint (ev_seq ev) < 2 ^ 63)"

lemma sint_small: "uint (w :: 64 word) < 2 ^ 63 \<Longrightarrow> sint w = uint w"
proof -
  assume "uint w < 2 ^ 63"
  moreover have "- (2 ^ 63) \<le> uint w" using unsigned_greater_eq [of w] by (simp add: order_trans [of _ 0])
  ultimately show ?thesis by (simp add: sint_uint signed_take_bit_int_eq_self)
qed

lemma seq_ordered_rows:
  assumes "seq_ordered evs"
  shows "sort_key row_seq (map event_to_row evs) = map event_to_row evs"
    and "distinct (map row_seq (map event_to_row evs))"
proof -
  have "map row_seq (map event_to_row evs) = map (\<lambda>ev. uint (ev_seq ev)) evs"
    using assms by (simp add: seq_ordered_def event_to_row_def sint_small)
  moreover have "sorted_wrt (<) (map (\<lambda>ev. uint (ev_seq ev)) evs)" using assms by (simp add: seq_ordered_def)
  ultimately have "sorted (map row_seq (map event_to_row evs)) \<and> distinct (map row_seq (map event_to_row evs))"
    by (simp only: strict_sorted_iff)
  then show "sort_key row_seq (map event_to_row evs) = map event_to_row evs"
    "distinct (map row_seq (map event_to_row evs))"
    by (simp_all only: sort_key_id_if_sorted)
qed

lemma seq_ordered_append: "seq_ordered (evs @ evs') \<Longrightarrow> seq_ordered evs"
  by (simp add: seq_ordered_def sorted_wrt_append)

end
