(* ===== verification/PostgresJournal.thy ===== *)
theory PostgresJournal
  imports PgDatabase
begin

text \<open>
  \<open>persistence/PostgresJournal.h\<close> and \<open>persistence/PostgresJournal.cpp\<close>: the journal that a background
  writer stores in PostgreSQL in batches, over the database of \<open>PgDatabase\<close>.

  The writer's loop is split where it holds no lock: taking everything that is queued, running the
  transaction, and counting the batch as done. Callers append between these steps.
\<close>

section \<open>The journal\<close>

datatype writer_pc = Waiting | Batch "journal_event list" "queued_trade list" | Counting nat | Exited

record 'd pg_journal =
  database_state :: 'd
  eventQueue :: "journal_event list"
  tradeQueue :: "queued_trade list"
  pg_stopping :: bool
  enqueued :: "64 word"
  done_count :: "64 word"
  eventsWritten :: "64 word"
  tradesWritten :: "64 word"
  batchesCommitted :: "64 word"
  writer :: writer_pc

definition ensureSchema :: "'d database \<Rightarrow> 'd \<Rightarrow> 'd outcome" where
  "ensureSchema D d = db_txn D [create_events, create_trades] d"

definition new_PostgresJournal :: "'d database \<Rightarrow> 'd \<Rightarrow> 'd pg_journal result" where
  "new_PostgresJournal D d =
     (case ensureSchema D d of
        Throws err d' \<Rightarrow> Inl err
      | Returns d' \<Rightarrow> Inr
          \<lparr>database_state = d', eventQueue = [], tradeQueue = [], pg_stopping = False, enqueued = 0,
           done_count = 0, eventsWritten = 0, tradesWritten = 0, batchesCommitted = 0, writer = Waiting\<rparr>)"

definition pg_append :: "journal_event \<Rightarrow> 'd pg_journal \<Rightarrow> 'd pg_journal" where
  "pg_append ev j = j\<lparr>eventQueue := eventQueue j @ [ev], enqueued := enqueued j + 1\<rparr>"

definition pg_recordTrade :: "int \<Rightarrow> trade \<Rightarrow> 'd pg_journal \<Rightarrow> 'd pg_journal" where
  "pg_recordTrade now t j =
     j\<lparr>tradeQueue := tradeQueue j @ [\<lparr>queued = t, queued_epochNanos = now\<rparr>], enqueued := enqueued j + 1\<rparr>"

text \<open>\<open>flush\<close> reads its target once and then waits until this holds.\<close>

definition flush_target :: "'d pg_journal \<Rightarrow> 64 word" where
  "flush_target j = enqueued j"

definition flush_returns :: "64 word \<Rightarrow> 'd pg_journal \<Rightarrow> bool" where
  "flush_returns target j \<longleftrightarrow> target \<le> done_count j \<or> pg_stopping j"

definition destroy_signal :: "'d pg_journal \<Rightarrow> 'd pg_journal" where
  "destroy_signal j = j\<lparr>pg_stopping := True\<rparr>"

text \<open>The destructor goes on when the writer has left its loop.\<close>

definition destroy_join :: "'d pg_journal \<Rightarrow> 'd pg_journal option" where
  "destroy_join j = (if writer j = Exited then Some j else None)"

text \<open>The three parts of a round of \<open>writerLoop\<close>; \<open>None\<close> is a writer that waits or has left the loop.\<close>

definition writer_take :: "'d pg_journal \<Rightarrow> 'd pg_journal option" where
  "writer_take j =
     (if eventQueue j = [] \<and> tradeQueue j = [] \<and> \<not> pg_stopping j then None
      else if pg_stopping j \<and> eventQueue j = [] \<and> tradeQueue j = [] then Some (j\<lparr>writer := Exited\<rparr>)
      else Some (j\<lparr>eventQueue := [], tradeQueue := [], writer := Batch (eventQueue j) (tradeQueue j)\<rparr>))"

definition writer_commit ::
  "'d database \<Rightarrow> journal_event list \<Rightarrow> queued_trade list \<Rightarrow> 'd pg_journal \<Rightarrow> 'd pg_journal" where
  "writer_commit D events trades j =
     (let batchCount = length events + length trades in
      case db_txn D (batch_statements events trades) (database_state j) of
        Returns d \<Rightarrow> j\<lparr>database_state := d, eventsWritten := eventsWritten j + word_of_nat (length events),
          tradesWritten := tradesWritten j + word_of_nat (length trades),
          batchesCommitted := batchesCommitted j + 1, writer := Counting batchCount\<rparr>
      | Throws err d \<Rightarrow> j\<lparr>database_state := d, writer := Counting batchCount\<rparr>)"

definition writer_count :: "nat \<Rightarrow> 'd pg_journal \<Rightarrow> 'd pg_journal" where
  "writer_count batchCount j = j\<lparr>done_count := done_count j + word_of_nat batchCount, writer := Waiting\<rparr>"

definition writer_step :: "'d database \<Rightarrow> 'd pg_journal \<Rightarrow> 'd pg_journal option" where
  "writer_step D j =
     (case writer j of
        Waiting \<Rightarrow> writer_take j
      | Batch events trades \<Rightarrow> Some (writer_commit D events trades j)
      | Counting n \<Rightarrow> Some (writer_count n j)
      | Exited \<Rightarrow> None)"

definition pg_loadAll :: "'d database \<Rightarrow> 'd pg_journal \<Rightarrow> journal_event list result" where
  "pg_loadAll D j = bindE (db_select D (database_state j)) (\<lambda>rows. Inr (map row_to_event rows))"

section \<open>Runs\<close>

datatype pg_label = PgAppend journal_event | PgRecord int trade | PgWriter | PgDestroy | PgJoin

definition pg_next :: "'d database \<Rightarrow> pg_label \<Rightarrow> 'd pg_journal \<Rightarrow> 'd pg_journal option" where
  "pg_next D l j =
     (case l of
        PgAppend ev \<Rightarrow> Some (pg_append ev j)
      | PgRecord now t \<Rightarrow> Some (pg_recordTrade now t j)
      | PgWriter \<Rightarrow> writer_step D j
      | PgDestroy \<Rightarrow> Some (destroy_signal j)
      | PgJoin \<Rightarrow> destroy_join j)"

inductive pg_run :: "'d database \<Rightarrow> 'd pg_journal \<Rightarrow> pg_label list \<Rightarrow> 'd pg_journal \<Rightarrow> bool" for D where
  none: "pg_run D j [] j"
| step: "pg_run D j tr j' \<Longrightarrow> pg_next D l j' = Some j'' \<Longrightarrow> pg_run D j (tr @ [l]) j''"

fun pg_exec :: "'d database \<Rightarrow> pg_label list \<Rightarrow> 'd pg_journal \<Rightarrow> 'd pg_journal option" where
  "pg_exec D [] j = Some j"
| "pg_exec D (l # ls) j = (case pg_next D l j of None \<Rightarrow> None | Some j' \<Rightarrow> pg_exec D ls j')"

text \<open>What was handed to the journal in a run, in order, and the events among it.\<close>

fun records :: "pg_label list \<Rightarrow> (journal_event + queued_trade) list" where
  "records [] = []"
| "records (PgAppend ev # ls) = Inl ev # records ls"
| "records (PgRecord now t # ls) = Inr \<lparr>queued = t, queued_epochNanos = now\<rparr> # records ls"
| "records (_ # ls) = records ls"

fun events_in :: "(journal_event + queued_trade) list \<Rightarrow> journal_event list" where
  "events_in [] = []"
| "events_in (Inl ev # rs) = ev # events_in rs"
| "events_in (Inr t # rs) = events_in rs"

fun trades_in :: "(journal_event + queued_trade) list \<Rightarrow> queued_trade list" where
  "trades_in [] = []"
| "trades_in (Inl ev # rs) = trades_in rs"
| "trades_in (Inr t # rs) = t # trades_in rs"

text \<open>The writer alone, for at most the given number of steps.\<close>

fun writer_steps :: "'d database \<Rightarrow> nat \<Rightarrow> 'd pg_journal \<Rightarrow> 'd pg_journal" where
  "writer_steps D 0 j = j"
| "writer_steps D (Suc k) j = (case writer_step D j of None \<Rightarrow> j | Some j' \<Rightarrow> writer_steps D k j')"

section \<open>Lemmas\<close>

lemma records_append [simp]: "records (tr @ tr') = records tr @ records tr'"
  by (induction tr rule: records.induct) simp_all

lemma events_in_append [simp]: "events_in (rs @ rs') = events_in rs @ events_in rs'"
  by (induction rs rule: events_in.induct) simp_all

lemma trades_in_append [simp]: "trades_in (rs @ rs') = trades_in rs @ trades_in rs'"
  by (induction rs rule: trades_in.induct) simp_all

lemma length_events_trades: "length (events_in rs) + length (trades_in rs) = length rs"
  by (induction rs rule: events_in.induct) simp_all

section \<open>The invariant of a run on a healthy database\<close>

text \<open>The tables with the given records inserted, and the tables once \<open>ensureSchema\<close> has run.\<close>

definition add_records :: "(journal_event + queued_trade) list \<Rightarrow> pg_tables \<Rightarrow> pg_tables" where
  "add_records rs T =
     T\<lparr>events_table := map_option (\<lambda>rows. rows @ map event_to_row (events_in rs)) (events_table T),
       trades_table := map_option (\<lambda>rows. rows @ map trade_to_row (trades_in rs)) (trades_table T)\<rparr>"

definition with_schema :: "pg_tables \<Rightarrow> pg_tables" where
  "with_schema T =
     \<lparr>events_table = Some (case events_table T of None \<Rightarrow> [] | Some rows \<Rightarrow> rows),
      trades_table = Some (case trades_table T of None \<Rightarrow> [] | Some rows \<Rightarrow> rows)\<rparr>"

definition keys_fresh :: "pg_tables \<Rightarrow> (journal_event + queued_trade) list \<Rightarrow> bool" where
  "keys_fresh T rs \<longleftrightarrow>
     (\<exists>rows trows. events_table T = Some rows \<and> trades_table T = Some trows \<and>
        distinct (map row_seq (rows @ map event_to_row (events_in rs))))"

text \<open>The records handed in are the settled ones, the batch in the writer's hands and the queued ones, in
  this order; the tables hold the settled ones on top of \<open>T\<close>, and the batch once it is committed.\<close>

definition stored :: "('d \<Rightarrow> pg_tables) \<Rightarrow> pg_tables \<Rightarrow> 'd pg_journal \<Rightarrow> (journal_event + queued_trade) list \<Rightarrow> bool" where
  "stored tables T j rs \<longleftrightarrow> tables (database_state j) = add_records rs T"

definition pg_inv ::
  "('d \<Rightarrow> pg_tables) \<Rightarrow> pg_tables \<Rightarrow> (journal_event + queued_trade) list \<Rightarrow> 'd pg_journal \<Rightarrow> bool" where
  "pg_inv tables T rs j \<longleftrightarrow>
     enqueued j = word_of_nat (length rs) \<and>
     (\<exists>settled batch waiting. rs = settled @ batch @ waiting \<and>
        events_in waiting = eventQueue j \<and> trades_in waiting = tradeQueue j \<and>
        done_count j = word_of_nat (length settled) \<and>
        (case writer j of
           Batch es ts \<Rightarrow> events_in batch = es \<and> trades_in batch = ts \<and> stored tables T j settled
         | Counting n \<Rightarrow> n = length batch \<and> stored tables T j (settled @ batch)
         | _ \<Rightarrow> batch = [] \<and> stored tables T j settled))"

lemma keys_fresh_append: "keys_fresh T (rs @ rs') \<Longrightarrow> keys_fresh T rs"
  by (auto simp: keys_fresh_def Int_Un_distrib)

lemma sql_batch_records:
  assumes "keys_fresh T (S @ B)"
  shows "sql_txn (batch_statements (events_in B) (trades_in B)) (add_records S T) = Some (add_records (S @ B) T)"
proof -
  from assms obtain rows trows where T: "events_table T = Some rows" "trades_table T = Some trows"
    "distinct (map row_seq (rows @ map event_to_row (events_in (S @ B))))"
    unfolding keys_fresh_def by blast
  from T have e: "events_table (add_records S T) = Some (rows @ map event_to_row (events_in S))"
    "trades_table (add_records S T) = Some (trows @ map trade_to_row (trades_in S))"
    by (simp_all add: add_records_def)
  from T(3) have "distinct (map row_seq (rows @ map event_to_row (events_in S)))"
    "distinct (map row_seq ((rows @ map event_to_row (events_in S)) @ map event_to_row (events_in B)))"
    by (simp_all add: Int_Un_distrib)
  with sql_batch [OF e this(1)] T(1,2) show ?thesis by (simp only: if_True) (simp add: add_records_def)
qed

lemma sql_schema: "sql_txn [create_events, create_trades] T = Some (with_schema T)"
  by (cases T; cases "events_table T"; cases "trades_table T") (simp_all add: with_schema_def)

lemma add_no_records [simp]: "add_records [] T = T"
  by (cases T) (simp add: add_records_def option.map_ident)

lemma pg_inv_stopping [simp]: "pg_inv tables T rs (j\<lparr>pg_stopping := b\<rparr>) = pg_inv tables T rs j"
  by (cases "writer j") (simp_all add: pg_inv_def stored_def)

lemma pg_inv_input:
  assumes "pg_inv tables T rs j" and "events_in [r] = es" and "trades_in [r] = ts"
  shows "pg_inv tables T (rs @ [r])
    (j\<lparr>eventQueue := eventQueue j @ es, tradeQueue := tradeQueue j @ ts, enqueued := enqueued j + 1\<rparr>)"
proof -
  from assms(1) obtain S B W where i: "enqueued j = word_of_nat (length rs)" "rs = S @ B @ W"
    "events_in W = eventQueue j" "trades_in W = tradeQueue j" "done_count j = word_of_nat (length S)"
    "case writer j of Batch es ts \<Rightarrow> events_in B = es \<and> trades_in B = ts \<and> stored tables T j S
         | Counting n \<Rightarrow> n = length B \<and> stored tables T j (S @ B) | _ \<Rightarrow> B = [] \<and> stored tables T j S"
    unfolding pg_inv_def by blast
  show ?thesis
    unfolding pg_inv_def
  proof (intro conjI exI)
    show "rs @ [r] = S @ B @ (W @ [r])" using i(2) by simp
  qed (use i assms(2,3) in \<open>auto simp: stored_def split: writer_pc.splits\<close>)
qed

lemma writer_step_inv:
  assumes "pg_inv tables T rs j" and "database_laws D tables" and "healthy D tables" and "keys_fresh T rs"
    and "writer_step D j = Some j'"
  shows "pg_inv tables T rs j'"
proof -
  from assms(1) obtain S B W where i: "enqueued j = word_of_nat (length rs)" "rs = S @ B @ W"
    "events_in W = eventQueue j" "trades_in W = tradeQueue j" "done_count j = word_of_nat (length S)"
    "case writer j of Batch es ts \<Rightarrow> events_in B = es \<and> trades_in B = ts \<and> stored tables T j S
         | Counting n \<Rightarrow> n = length B \<and> stored tables T j (S @ B) | _ \<Rightarrow> B = [] \<and> stored tables T j S"
    unfolding pg_inv_def by blast
  show ?thesis
  proof (cases "writer j")
    case Waiting
    with i(6) have b: "B = []" "stored tables T j S" by simp_all
    from assms(5) Waiting consider "j' = j\<lparr>writer := Exited\<rparr>"
      | "j' = j\<lparr>eventQueue := [], tradeQueue := [], writer := Batch (eventQueue j) (tradeQueue j)\<rparr>"
      by (auto simp: writer_step_def writer_take_def split: if_splits)
    then show ?thesis
    proof cases
      case 1
      with i b show ?thesis unfolding pg_inv_def by (auto simp: stored_def)
    next
      case 2
      with i b show ?thesis
        unfolding pg_inv_def by (intro conjI exI [of _ S] exI [of _ W] exI [of _ "[]"]) (auto simp: stored_def)
    qed
  next
    case (Batch es ts)
    from i(6) Batch have b: "events_in B = es" "trades_in B = ts" "stored tables T j S" by simp_all
    have "keys_fresh T (S @ B)" using assms(4) i(2) keys_fresh_append [of T "S @ B" W] by simp
    from sql_batch_records [OF this] b have "sql_txn (batch_statements es ts) (tables (database_state j)) = Some (add_records (S @ B) T)"
      by (simp add: stored_def)
    then obtain d where d: "db_txn D (batch_statements es ts) (database_state j) = Returns d" "tables d = add_records (S @ B) T"
      by (rule healthyE [OF assms(3,2)])
    have "length B = length es + length ts" using length_events_trades [of B] b by simp
    moreover from assms(5) Batch d(1) have "writer j' = Counting (length es + length ts)" "database_state j' = d"
      "eventQueue j' = eventQueue j" "tradeQueue j' = tradeQueue j" "enqueued j' = enqueued j" "done_count j' = done_count j"
      by (auto simp: writer_step_def writer_commit_def Let_def)
    ultimately show ?thesis
      using i b d(2) unfolding pg_inv_def
      by (intro conjI exI [of _ S] exI [of _ B] exI [of _ W]) (auto simp: stored_def)
  next
    case (Counting n)
    with assms(5) have j': "j' = j\<lparr>done_count := done_count j + word_of_nat n, writer := Waiting\<rparr>"
      by (simp add: writer_step_def writer_count_def)
    from i(6) Counting have "n = length B" "stored tables T j (S @ B)" by simp_all
    with i j' show ?thesis
      unfolding pg_inv_def by (intro conjI exI [of _ "S @ B"] exI [of _ "[]"] exI [of _ W]) (auto simp: stored_def)
  next
    case Exited
    with assms(5) show ?thesis by (simp add: writer_step_def)
  qed
qed

lemma pg_next_inv:
  assumes "pg_inv tables T (records tr) j" and "database_laws D tables" and "healthy D tables"
    and "keys_fresh T (records tr)" and "pg_next D l j = Some j'"
  shows "pg_inv tables T (records (tr @ [l])) j'"
proof (cases l)
  case (PgAppend ev)
  with assms(5) pg_inv_input [OF assms(1), of "Inl ev" "[ev]" "[]"] show ?thesis
    by (simp add: pg_next_def pg_append_def)
next
  case (PgRecord now t)
  with assms(5) pg_inv_input [OF assms(1), of "Inr \<lparr>queued = t, queued_epochNanos = now\<rparr>" "[]"] show ?thesis
    by (simp add: pg_next_def pg_recordTrade_def)
next
  case PgWriter
  with assms(5) writer_step_inv [OF assms(1-4)] show ?thesis by (simp add: pg_next_def)
next
  case PgDestroy
  with assms(1,5) show ?thesis by (auto simp: pg_next_def destroy_signal_def)
next
  case PgJoin
  with assms(1,5) show ?thesis by (auto simp: pg_next_def destroy_join_def split: if_splits)
qed

lemma pg_run_inv:
  "pg_run D j tr j' \<Longrightarrow> database_laws D tables \<Longrightarrow> healthy D tables \<Longrightarrow> keys_fresh T (records (tr0 @ tr)) \<Longrightarrow>
     pg_inv tables T (records tr0) j \<Longrightarrow> pg_inv tables T (records (tr0 @ tr)) j'"
proof (induction rule: pg_run.induct)
  case (step j tr j' l j'')
  then have "keys_fresh T (records (tr0 @ tr))" using keys_fresh_append [of T "records (tr0 @ tr)" "records [l]"] by simp
  with step show ?case using pg_next_inv [of tables T "tr0 @ tr" j' D l j''] by simp
qed simp

lemma pg_new_inv:
  assumes "new_PostgresJournal D d = Inr j" and "database_laws D tables"
  shows "pg_inv tables (with_schema (tables d)) (records []) j" "\<not> pg_stopping j"
proof -
  from assms(1) obtain d' where d': "db_txn D [create_events, create_trades] d = Returns d'"
    and j: "j = \<lparr>database_state = d', eventQueue = [], tradeQueue = [], pg_stopping = False, enqueued = 0,
           done_count = 0, eventsWritten = 0, tradesWritten = 0, batchesCommitted = 0, writer = Waiting\<rparr>"
    by (auto simp: new_PostgresJournal_def ensureSchema_def split: outcome.splits)
  from d' assms(2) have "sql_txn [create_events, create_trades] (tables d) = Some (tables d')"
    unfolding database_laws_def by blast
  then have "tables d' = with_schema (tables d)" by (simp only: sql_schema option.inject)
  with j show "pg_inv tables (with_schema (tables d)) (records []) j" "\<not> pg_stopping j"
    by (auto simp: pg_inv_def stored_def)
qed

text \<open>What the invariant says of the tables: they hold a prefix of the records that is at least
  as long as the count of records done.\<close>

lemma pg_inv_prefix:
  assumes "pg_inv tables T rs j"
  obtains k m where "stored tables T j (take k rs)" "m \<le> k" "k \<le> length rs" "done_count j = word_of_nat m"
proof -
  from assms obtain S B W where i: "rs = S @ B @ W" "done_count j = word_of_nat (length S)"
    "case writer j of Batch es ts \<Rightarrow> events_in B = es \<and> trades_in B = ts \<and> stored tables T j S
         | Counting n \<Rightarrow> n = length B \<and> stored tables T j (S @ B) | _ \<Rightarrow> B = [] \<and> stored tables T j S"
    unfolding pg_inv_def by blast
  then consider "stored tables T j S" | "stored tables T j (S @ B)" by (cases "writer j") auto
  then show thesis
  proof cases
    case 1
    then show thesis using i(1,2) by (intro that [of "length S" "length S"]) simp_all
  next
    case 2
    then show thesis using i(1,2) by (intro that [of "length (S @ B)" "length S"]) simp_all
  qed
qed

section \<open>Counting, with any database\<close>

definition pg_counted :: "nat \<Rightarrow> 'd pg_journal \<Rightarrow> bool" where
  "pg_counted n j \<longleftrightarrow>
     enqueued j = word_of_nat n \<and>
     (let b = (case writer j of Batch es ts \<Rightarrow> length es + length ts | Counting k \<Rightarrow> k | _ \<Rightarrow> 0);
          w = length (eventQueue j) + length (tradeQueue j)
      in b + w \<le> n \<and> done_count j = word_of_nat (n - (b + w)))"

lemma pg_next_counted:
  assumes "pg_counted n j" and "pg_next D l j = Some j'"
  shows "pg_counted (n + length (records [l])) j'"
proof (cases l)
  case PgWriter
  with assms show ?thesis
    by (cases "writer j"; cases "db_txn D (batch_statements (case writer j of Batch es ts \<Rightarrow> es | _ \<Rightarrow> [])
          (case writer j of Batch es ts \<Rightarrow> ts | _ \<Rightarrow> [])) (database_state j)")
      (auto simp: pg_next_def writer_step_def writer_take_def writer_commit_def writer_count_def
        pg_counted_def Let_def of_nat_diff split: if_splits)
qed (use assms in \<open>auto simp: pg_next_def pg_append_def pg_recordTrade_def destroy_signal_def destroy_join_def pg_counted_def Let_def
    Suc_diff_le split: writer_pc.splits if_splits\<close>)

lemma pg_run_counted: "pg_run D j tr j' \<Longrightarrow> pg_counted n j \<Longrightarrow> pg_counted (n + length (records tr)) j'"
proof (induction rule: pg_run.induct)
  case (step j tr j' l j'')
  then show ?case using pg_next_counted [of "n + length (records tr)" j' D l j''] by (simp add: add.assoc)
qed simp

lemma pg_new_counted: "new_PostgresJournal D d = Inr j \<Longrightarrow> pg_counted 0 j"
  by (auto simp: new_PostgresJournal_def pg_counted_def split: outcome.splits)

definition drained :: "'d pg_journal \<Rightarrow> bool" where
  "drained j \<longleftrightarrow> writer j = Waiting \<and> eventQueue j = [] \<and> tradeQueue j = [] \<and> \<not> pg_stopping j"

lemma writer_steps_drained: "drained j \<Longrightarrow> writer_steps D k j = j"
  by (cases k) (simp_all add: drained_def writer_step_def writer_take_def)

lemma commit_frame:
  "writer (writer_commit D es ts j) = Counting (length es + length ts)"
  "eventQueue (writer_commit D es ts j) = eventQueue j" "tradeQueue (writer_commit D es ts j) = tradeQueue j"
  "pg_stopping (writer_commit D es ts j) = pg_stopping j" "enqueued (writer_commit D es ts j) = enqueued j"
  "done_count (writer_commit D es ts j) = done_count j"
  by (simp_all add: writer_commit_def Let_def split: outcome.split)

lemma drains_from_Waiting:
  assumes "writer j = Waiting" and "\<not> pg_stopping j"
  shows "drained (writer_steps D (Suc (Suc (Suc k))) j)"
proof (cases "eventQueue j = [] \<and> tradeQueue j = []")
  case True
  with assms have "drained j" by (simp add: drained_def)
  then show ?thesis by (simp only: writer_steps_drained)
next
  case False
  let ?j1 = "j\<lparr>eventQueue := [], tradeQueue := [], writer := Batch (eventQueue j) (tradeQueue j)\<rparr>"
  let ?j2 = "writer_commit D (eventQueue j) (tradeQueue j) ?j1"
  let ?j3 = "writer_count (length (eventQueue j) + length (tradeQueue j)) ?j2"
  have "writer_step D j = Some ?j1" "writer_step D ?j1 = Some ?j2" "writer_step D ?j2 = Some ?j3"
    using False assms by (auto simp: writer_step_def writer_take_def commit_frame)
  moreover have "drained ?j3" using assms(2) by (simp add: drained_def writer_count_def commit_frame)
  ultimately show ?thesis by (simp add: writer_steps_drained)
qed

lemma drains:
  assumes "\<not> pg_stopping j" and "writer j \<noteq> Exited"
  shows "drained (writer_steps D 5 j)"
proof (cases "writer j")
  case Waiting
  with drains_from_Waiting [OF Waiting assms(1), of D 2] show ?thesis by (simp add: numeral_eq_Suc)
next
  case (Batch es ts)
  let ?j2 = "writer_count (length es + length ts) (writer_commit D es ts j)"
  have "writer_step D j = Some (writer_commit D es ts j)" "writer_step D (writer_commit D es ts j) = Some ?j2"
    using Batch by (simp_all add: writer_step_def commit_frame)
  moreover have "writer ?j2 = Waiting" "\<not> pg_stopping ?j2"
    using assms(1) by (simp_all add: writer_count_def commit_frame)
  from drains_from_Waiting [OF this, of D 0] have "drained (writer_steps D (Suc (Suc (Suc 0))) ?j2)" .
  ultimately show ?thesis by (simp add: numeral_eq_Suc)
next
  case (Counting n)
  have "writer_step D j = Some (writer_count n j)" using Counting by (simp add: writer_step_def)
  moreover have "writer (writer_count n j) = Waiting" "\<not> pg_stopping (writer_count n j)"
    using assms(1) by (simp_all add: writer_count_def)
  from drains_from_Waiting [OF this, of D 1] have "drained (writer_steps D (Suc (Suc (Suc (Suc 0)))) (writer_count n j))"
    by simp
  ultimately show ?thesis by (simp add: numeral_eq_Suc)
qed (use assms(2) in simp)

lemma writer_steps_run: "\<exists>tr'. pg_run D j tr' (writer_steps D k j) \<and> records tr' = []"
proof -
  have "pg_run D j0 tr j \<Longrightarrow> \<exists>tr'. pg_run D j0 (tr @ tr') (writer_steps D k j) \<and> records tr' = []" for j0 tr j
  proof (induction k arbitrary: tr j)
    case 0
    then show ?case by (intro exI [of _ "[]"]) simp
  next
    case (Suc k)
    show ?case
    proof (cases "writer_step D j")
      case None
      with Suc.prems show ?thesis by (intro exI [of _ "[]"]) simp
    next
      case (Some j')
      then have "pg_run D j0 (tr @ [PgWriter]) j'"
        using Suc.prems by (auto intro: pg_run.step simp: pg_next_def)
      from Suc.IH [OF this] Some show ?thesis
        by auto
    qed
  qed
  from this [OF pg_run.none] show ?thesis by simp
qed

lemma run_not_exited: "pg_run D j tr j' \<Longrightarrow> writer j = Waiting \<Longrightarrow> writer j' = Exited \<Longrightarrow> pg_stopping j'"
proof (induction rule: pg_run.induct)
  case (step j tr j' l j'')
  then show ?case
    by (cases l; cases "writer j'")
      (auto simp: pg_next_def pg_append_def pg_recordTrade_def destroy_signal_def destroy_join_def writer_step_def writer_take_def
        writer_count_def commit_frame split: if_splits)
qed simp

lemma pg_exec_run: "pg_exec D ls j = Some j' \<Longrightarrow> pg_run D j ls j'"
proof -
  have "pg_run D j0 tr j \<Longrightarrow> pg_exec D ls j = Some j' \<Longrightarrow> pg_run D j0 (tr @ ls) j'" for j0 tr
  proof (induction ls arbitrary: tr j)
    case (Cons l ls)
    from Cons.prems(2) obtain j1 where "pg_next D l j = Some j1" "pg_exec D ls j1 = Some j'"
      by (auto split: option.splits)
    with Cons.IH [of "tr @ [l]" j1] pg_run.step [OF Cons.prems(1)] show ?case by simp
  qed simp
  from this [OF pg_run.none] show "pg_exec D ls j = Some j' \<Longrightarrow> pg_run D j ls j'" by simp
qed

text \<open>A table that holds events in ascending order of their numbers is read back as these events.\<close>

definition loadable :: "('d \<Rightarrow> pg_tables) \<Rightarrow> journal_event list \<Rightarrow> 'd pg_journal \<Rightarrow> bool" where
  "loadable tables evs j \<longleftrightarrow> events_table (tables (database_state j)) = Some (map event_to_row evs)"

lemma loadAll_loadable:
  assumes "database_laws D tables" and "healthy D tables" and "loadable tables evs j" and "seq_ordered evs"
  shows "pg_loadAll D j = Inr evs"
proof -
  from assms(2,3) obtain rows where rows: "db_select D (database_state j) = Inr rows"
    by (auto simp: healthy_def loadable_def)
  with assms(1) have "\<exists>t. events_table (tables (database_state j)) = Some t \<and> rows = sort_key row_seq t"
    unfolding database_laws_def by blast
  with assms(3) seq_ordered_rows(1) [OF assms(4)] have "rows = map event_to_row evs" by (simp add: loadable_def)
  with rows show ?thesis by (simp add: pg_loadAll_def comp_def)
qed

text \<open>A new journal on an empty list database, and one on a database that takes no event.\<close>

definition sample_event :: journal_event where
  "sample_event = JournalEvent\<lparr>ev_seq := 1, ev_orderId := 7\<rparr>"

definition empty_tables :: pg_tables where
  "empty_tables = \<lparr>events_table = Some [], trades_table = Some []\<rparr>"

definition good_db :: "pg_tables database" where
  "good_db = list_database (\<lambda>_. False)"

definition bad_db :: "pg_tables database" where
  "bad_db = list_database (\<lambda>ss. ss \<noteq> [create_events, create_trades])"

definition sample_journal :: "pg_tables pg_journal" where
  "sample_journal =
     \<lparr>database_state = empty_tables, eventQueue = [], tradeQueue = [], pg_stopping = False, enqueued = 0,
      done_count = 0, eventsWritten = 0, tradesWritten = 0, batchesCommitted = 0, writer = Waiting\<rparr>"

lemma sample_journal_new:
  "new_PostgresJournal good_db empty_tables = Inr sample_journal" "new_PostgresJournal bad_db empty_tables = Inr sample_journal"
  by (simp_all add: new_PostgresJournal_def ensureSchema_def good_db_def bad_db_def list_database_def sample_journal_def
      empty_tables_def)

lemma good_db_laws: "database_laws good_db (\<lambda>d. d)" "healthy good_db (\<lambda>d. d)"
  by (simp_all add: good_db_def list_database_laws list_database_healthy)

section \<open>Properties\<close>

text \<open>C26: \<open>flush()\<close> is a durability checkpoint on a database that fails no transaction without a reason. On
  tables that hold the events \<open>old\<close> already, and with ascending sequence numbers: once the call returns
  without the journal being torn down, every record handed in before the call is in its table, after what
  was there, and \<open>loadAll\<close> succeeds and returns the old events and a prefix of the appended ones, in the
  order of the appends, that contains all events appended before the call.\<close>

theorem pg_flush_durable:
  assumes "database_laws D tables" and "healthy D tables" and "new_PostgresJournal D d = Inr j0"
    and "with_schema (tables d) = \<lparr>events_table = Some (map event_to_row old), trades_table = Some told\<rparr>"
    and "pg_run D j0 tr j1" and "pg_run D j1 tr' j2" and "length (records (tr @ tr')) < 2 ^ 64"
    and "flush_returns (flush_target j1) j2" and "\<not> pg_stopping j2"
    and "seq_ordered (old @ events_in (records (tr @ tr')))"
  shows "\<exists>later tlater rest.
    pg_loadAll D j2 = Inr (old @ events_in (records tr) @ later) \<and>
    events_in (records (tr @ tr')) = (events_in (records tr) @ later) @ rest \<and>
    trades_table (tables (database_state j2)) = Some (told @ map trade_to_row (trades_in (records tr)) @ tlater)"
proof -
  let ?rs = "records (tr @ tr')" and ?T = "with_schema (tables d)"
  have k: "keys_fresh ?T ?rs"
    using seq_ordered_rows(2) [OF assms(10)] assms(4) by (simp add: keys_fresh_def image_image)
  then have k1: "keys_fresh ?T (records ([] @ tr))" using keys_fresh_append [of ?T "records tr" "records tr'"] by simp
  have "pg_inv tables ?T (records ([] @ tr)) j1"
    by (rule pg_run_inv [OF assms(5,1,2) k1 pg_new_inv(1) [OF assms(3,1)]])
  then have i1: "pg_inv tables ?T (records tr) j1" by simp
  have i2: "pg_inv tables ?T ?rs j2" by (rule pg_run_inv [OF assms(6,1,2) k i1])
  obtain k m where km: "stored tables ?T j2 (take k ?rs)" "m \<le> k" "k \<le> length ?rs" "done_count j2 = word_of_nat m"
    by (rule pg_inv_prefix [OF i2])
  from i1 have "flush_target j1 = word_of_nat (length (records tr))" by (simp add: flush_target_def pg_inv_def)
  with assms(8,9) km(4) have "(word_of_nat (length (records tr)) :: 64 word) \<le> word_of_nat m"
    by (simp add: flush_returns_def)
  then have "length (records tr) \<le> m"
    using assms(7) km(2,3) by (simp add: word_le_nat_alt unat_of_nat)
  with km(2) have "take k ?rs = records tr @ take (k - length (records tr)) (records tr')" by simp
  then obtain P X Q where P: "?rs = P @ Q" "P = records tr @ X" "stored tables ?T j2 P"
    using km(1) append_take_drop_id [of k ?rs] by metis
  have "loadable tables (old @ events_in P) j2"
    using P(3) assms(4) by (simp add: loadable_def stored_def add_records_def)
  moreover have "seq_ordered (old @ events_in P)"
    using assms(10) seq_ordered_append [of "old @ events_in P" "events_in Q"] unfolding P(1) by simp
  ultimately have "pg_loadAll D j2 = Inr (old @ events_in P)" by (rule loadAll_loadable [OF assms(1,2)])
  moreover have "trades_table (tables (database_state j2)) = Some (told @ map trade_to_row (trades_in P))"
    using P(3) assms(4) by (simp add: stored_def add_records_def)
  moreover have "events_in ?rs = events_in P @ events_in Q" unfolding P(1) by simp
  ultimately show ?thesis unfolding P(2)
    by (intro exI [of _ "events_in X"] exI [of _ "map trade_to_row (trades_in X)"] exI [of _ "events_in Q"]) simp
qed

theorem pg_flush_durable_witness:
  "\<exists>j1 j2 later. pg_run good_db sample_journal [PgAppend sample_event] j1 \<and>
     pg_run good_db j1 [PgWriter, PgWriter, PgWriter] j2 \<and> flush_returns (flush_target j1) j2 \<and>
     pg_loadAll good_db j2 = Inr ([sample_event] @ later)"
proof -
  have "case pg_exec good_db [PgAppend sample_event] sample_journal of None \<Rightarrow> False | Some j1 \<Rightarrow>
      (case pg_exec good_db [PgWriter, PgWriter, PgWriter] j1 of None \<Rightarrow> False | Some j2 \<Rightarrow>
        flush_returns (flush_target j1) j2 \<and> \<not> pg_stopping j2)"
    by code_simp
  then obtain j1 j2 where r: "pg_run good_db sample_journal [PgAppend sample_event] j1"
    "pg_run good_db j1 [PgWriter, PgWriter, PgWriter] j2" "flush_returns (flush_target j1) j2" "\<not> pg_stopping j2"
    by (auto simp del: pg_exec.simps split: option.splits dest!: pg_exec_run)
  have "seq_ordered ([] @ events_in (records ([PgAppend sample_event] @ [PgWriter, PgWriter, PgWriter])))"
    "length (records ([PgAppend sample_event] @ [PgWriter, PgWriter, PgWriter])) < 2 ^ 64"
    "with_schema empty_tables = \<lparr>events_table = Some (map event_to_row []), trades_table = Some []\<rparr>"
    by (simp_all add: seq_ordered_def sample_event_def with_schema_def empty_tables_def)
  from pg_flush_durable [OF good_db_laws sample_journal_new(1) this(3) r(1,2) this(2) r(3,4) this(1)] r show ?thesis
    by auto
qed

text \<open>\<open>flush()\<close> returns. Whatever the database does, also when every transaction fails, the writer
  alone gets in at most five steps from any point of a run, if the journal is not being torn down, to
  where the flush called there returns, with nothing left in the queues.\<close>

lemma pg_flush_completes:
  assumes "new_PostgresJournal D d = Inr j0" and "pg_run D j0 tr j" and "\<not> pg_stopping j"
  shows "flush_returns (flush_target j) (writer_steps D 5 j) \<and> eventQueue (writer_steps D 5 j) = [] \<and>
    tradeQueue (writer_steps D 5 j) = []"
proof -
  from assms(1) have "writer j0 = Waiting" by (auto simp: new_PostgresJournal_def split: outcome.splits)
  then have "writer j \<noteq> Exited" using run_not_exited [OF assms(2)] assms(3) by blast
  then have d: "drained (writer_steps D 5 j)" by (rule drains [OF assms(3)])
  have c: "pg_counted (length (records tr)) j"
    using pg_run_counted [OF assms(2) pg_new_counted [OF assms(1)]] by simp
  obtain tr' where tr': "pg_run D j tr' (writer_steps D 5 j)" "records tr' = []"
    using writer_steps_run [of D j 5] by blast
  have "pg_counted (length (records tr)) (writer_steps D 5 j)" using pg_run_counted [OF tr'(1) c] tr'(2) by simp
  with d c have "done_count (writer_steps D 5 j) = enqueued j" by (simp add: pg_counted_def drained_def)
  with d show ?thesis by (simp add: flush_returns_def flush_target_def drained_def)
qed

text \<open>A batch whose transaction fails is lost, and still counts as done. The writer goes on as if it had
  been committed: the records of the batch are in no queue and not in the table, no counter of written
  records changes, and \<open>done\<close> has advanced past them, so a \<open>flush()\<close> that waited for them returns.\<close>

lemma failed_batch_is_dropped:
  assumes "database_laws D tables" and "writer j = Batch es ts"
    and "db_txn D (batch_statements es ts) (database_state j) = Throws err d"
  shows "let j' = writer_steps D 2 j in
    writer j' = Waiting \<and> tables (database_state j') = tables (database_state j) \<and>
    eventQueue j' = eventQueue j \<and> tradeQueue j' = tradeQueue j \<and>
    eventsWritten j' = eventsWritten j \<and> batchesCommitted j' = batchesCommitted j \<and>
    done_count j' = done_count j + word_of_nat (length es + length ts)"
proof -
  from assms(1,3) have "tables d = tables (database_state j)" unfolding database_laws_def by blast
  with assms(2,3) show ?thesis
    by (simp add: writer_steps.simps(2) [of D "Suc 0"] numeral_2_eq_2 writer_step_def writer_commit_def
        writer_count_def Let_def)
qed

end
