(* ===== verification/DurableEngine.thy ===== *)
theory DurableEngine
  imports Recovery PostgresJournal "HOL-Library.Sublist"
begin

text \<open>
  An engine whose journal is a \<open>PostgresJournal\<close>: the matching thread appends to the journal's queues, the
  journal's writer thread stores batches in the database, and \<open>Engine::stop\<close> waits in \<open>flush()\<close>. A process
  may die at any point; what is left is the database, from which the next process recovers.

  \<^item> \<open>PostgresJournal_vtable\<close> is the journal as the plug-in the engine calls. While the matching thread
    handles a command it shares nothing with the writer but the journal, so what the writer does meanwhile
    is in the calls of the journal: each of them is followed by any number of steps of the writer. That
    number, and the wall clock that \<open>recordTrade\<close> reads, are arbitrary functions of the journal, whose count
    of records differs at every call. \<open>flush()\<close> changes nothing of the object; that it waits is in the steps
    of this theory.
  \<^item> A run interleaves the steps of the engine's threads (\<open>EngineRun\<close>), the steps of the writer, and
    \<open>stop()\<close> in three parts: the signal, the \<open>join\<close> after which \<open>flush()\<close> reads its target, and the return
    of \<open>flush()\<close>. A process that dies while a command is handled leaves the database that it leaves right
    after the command when the writer makes no further step in between.
  \<^item> The log of the engine is what the database holds, then the batch in the writer's hands, then the
    queue. On a healthy database the writer moves events along it without changing it. So the journal keeps
    the contract \<open>event_log\<close>, for logs whose numbers ascend, and all that is proved of running engines holds.
\<close>

section \<open>The journal as a plug-in\<close>

text \<open>What a call meets: the reading of the wall clock, and how many steps the writer makes after it.\<close>

type_synonym 'd surroundings = "'d pg_journal \<Rightarrow> int \<times> nat"

definition writer_meanwhile :: "'d database \<Rightarrow> 'd surroundings \<Rightarrow> 'd pg_journal \<Rightarrow> 'd pg_journal" where
  "writer_meanwhile D env j = writer_steps D (snd (env j)) j"

definition PostgresJournal_vtable :: "'d database \<Rightarrow> 'd surroundings \<Rightarrow> 'd pg_journal ijournal" where
  "PostgresJournal_vtable D env =
     \<lparr>append_op = (\<lambda>ev j. writer_meanwhile D env (pg_append ev j)), flush_op = (\<lambda>j. j), loadAll_op = pg_loadAll D,
      recordTrade_op = (\<lambda>t j. writer_meanwhile D env (pg_recordTrade (fst (env j)) t j))\<rparr>"

definition on_disk :: "('d \<Rightarrow> pg_tables) \<Rightarrow> 'd pg_journal \<Rightarrow> journal_event list" where
  "on_disk tables j =
     (case events_table (tables (database_state j)) of None \<Rightarrow> [] | Some rows \<Rightarrow> map row_to_event rows)"

definition in_flight :: "'d pg_journal \<Rightarrow> journal_event list" where
  "in_flight j = (case writer j of Batch es ts \<Rightarrow> es | _ \<Rightarrow> [])"

definition pg_log :: "('d \<Rightarrow> pg_tables) \<Rightarrow> 'd pg_journal \<Rightarrow> journal_event list" where
  "pg_log tables j = on_disk tables j @ in_flight j @ eventQueue j"

section \<open>Steps\<close>

record ('d, 's, 'u) durable =
  process :: "('d pg_journal, 's, 'u) system"
  flushing :: "64 word option"

datatype durable_label = Sys sys_label | StopFlush | FlushReturn | Writer

definition durable_start :: "('d pg_journal, 's, 'u) engine \<Rightarrow> ('d, 's, 'u) durable" where
  "durable_start e = \<lparr>process = idle e, flushing = None\<rparr>"

definition durable_next ::
  "'d database \<Rightarrow> durable_label \<Rightarrow> ('d, 's, 'u) durable \<Rightarrow> ('d, 's, 'u) durable option" where
  "durable_next D l s =
     (let p = process s; e = eng p in
      if terminated p \<noteq> None then None
      else case l of
        Sys l' \<Rightarrow>
          (case l' of StopJoin \<Rightarrow> None | _ \<Rightarrow> map_option (\<lambda>p'. s\<lparr>process := p'\<rparr>) (sys_next l' p))
      | StopFlush \<Rightarrow>
          if \<not> in_stop p \<or> flushing s \<noteq> None then None
          else (case (join e, journal e) of
              (Some e', Some (J, j)) \<Rightarrow> Some (s\<lparr>process := p\<lparr>eng := e'\<rparr>, flushing := Some (flush_target j)\<rparr>)
            | _ \<Rightarrow> None)
      | FlushReturn \<Rightarrow>
          (case (flushing s, journal e) of
              (Some target, Some (J, j)) \<Rightarrow>
                if flush_returns target j then Some (s\<lparr>process := p\<lparr>in_stop := False\<rparr>, flushing := None\<rparr>) else None
            | _ \<Rightarrow> None)
      | Writer \<Rightarrow>
          (case journal e of
              None \<Rightarrow> None
            | Some (J, j) \<Rightarrow> map_option (\<lambda>j'. s\<lparr>process := p\<lparr>eng := e\<lparr>journal := Some (J, j')\<rparr>\<rparr>\<rparr>) (writer_step D j)))"

inductive durable_run ::
  "'d database \<Rightarrow> ('d, 's, 'u) durable \<Rightarrow> durable_label list \<Rightarrow> ('d, 's, 'u) durable \<Rightarrow> bool" for D where
  none: "durable_run D s [] s"
| step: "durable_run D s tr s' \<Longrightarrow> durable_next D l s' = Some s'' \<Longrightarrow> durable_run D s (tr @ [l]) s''"

fun durable_exec ::
  "'d database \<Rightarrow> durable_label list \<Rightarrow> ('d, 's, 'u) durable \<Rightarrow> ('d, 's, 'u) durable option" where
  "durable_exec D [] s = Some s"
| "durable_exec D (l # ls) s = (case durable_next D l s of None \<Rightarrow> None | Some s' \<Rightarrow> durable_exec D ls s')"

fun sys_of :: "durable_label list \<Rightarrow> sys_label list" where
  "sys_of [] = []"
| "sys_of (Sys l # ls) = l # sys_of ls"
| "sys_of (_ # ls) = sys_of ls"

text \<open>What a process leaves behind: the state of its database.\<close>

definition database_of :: "('d, 's, 'u) durable \<Rightarrow> 'd option" where
  "database_of s = map_option (\<lambda>(J, j). database_state j) (journal (eng (process s)))"

lemma sys_of_append [simp]: "sys_of (tr @ tr') = sys_of tr @ sys_of tr'"
  by (induction tr rule: sys_of.induct) simp_all

section \<open>Lemmas on the journal\<close>

text \<open>A journal in use: it is not being torn down, and both tables exist and hold rows of events, at least
  \<open>m\<close> of them.\<close>

definition journal_ok :: "('d \<Rightarrow> pg_tables) \<Rightarrow> nat \<Rightarrow> 'd pg_journal \<Rightarrow> bool" where
  "journal_ok tables m j \<longleftrightarrow>
     \<not> pg_stopping j \<and> writer j \<noteq> Exited \<and> (\<exists>evs. loadable tables evs j) \<and>
     trades_table (tables (database_state j)) \<noteq> None \<and> m \<le> length (on_disk tables j)"

text \<open>Its counters agree as well, for \<open>n\<close> records handed in.\<close>

definition journal_inv :: "('d \<Rightarrow> pg_tables) \<Rightarrow> nat \<Rightarrow> nat \<Rightarrow> 'd pg_journal \<Rightarrow> bool" where
  "journal_inv tables m n j \<longleftrightarrow> pg_counted n j \<and> journal_ok tables m j"

lemma on_disk_loadable: "loadable tables evs j \<Longrightarrow> on_disk tables j = evs"
  by (simp add: loadable_def on_disk_def comp_def)

text \<open>A batch whose numbers follow those on disk is committed.\<close>

lemma batch_commits:
  assumes "database_laws D tables" and "healthy D tables" and "loadable tables evs j"
    and "trades_table (tables (database_state j)) = Some trows" and "seq_ordered (evs @ es)"
  obtains d where "db_txn D (batch_statements es ts) (database_state j) = Returns d"
    "events_table (tables d) = Some (map event_to_row (evs @ es))"
    "trades_table (tables d) = Some (trows @ map trade_to_row ts)"
proof -
  let ?T = "tables (database_state j)"
  from seq_ordered_rows(2) [OF assms(5)] have k: "distinct (map row_seq (map event_to_row evs @ map event_to_row es))" by simp
  have e: "events_table ?T = Some (map event_to_row evs)" using assms(3) by (simp add: loadable_def)
  have "distinct (map row_seq (map event_to_row evs))" using k by simp
  from sql_batch [OF e assms(4) this, of es ts] k
  have "sql_txn (batch_statements es ts) ?T =
      Some (?T\<lparr>events_table := Some (map event_to_row evs @ map event_to_row es),
        trades_table := Some (trows @ map trade_to_row ts)\<rparr>)" by simp
  then obtain d where "db_txn D (batch_statements es ts) (database_state j) = Returns d"
    "tables d = ?T\<lparr>events_table := Some (map event_to_row evs @ map event_to_row es),
        trades_table := Some (trows @ map trade_to_row ts)\<rparr>" by (rule healthyE [OF assms(2,1)])
  with that show thesis by simp
qed

text \<open>The writer moves events from the queue to the database; the log as a whole stays.\<close>

lemma writer_step_log:
  assumes "database_laws D tables" and "healthy D tables" and "journal_ok tables m j"
    and "seq_ordered (pg_log tables j)" and "writer_step D j = Some j'"
  shows "pg_log tables j' = pg_log tables j \<and> journal_ok tables m j'"
proof -
  from assms(3) obtain evs where j: "\<not> pg_stopping j" "loadable tables evs j"
    "trades_table (tables (database_state j)) \<noteq> None" "m \<le> length (on_disk tables j)"
    by (auto simp: journal_ok_def)
  note log = on_disk_loadable [OF j(2)]
  show ?thesis
  proof (cases "writer j")
    case Waiting
    with assms(5) j(1) have "j' = j\<lparr>eventQueue := [], tradeQueue := [], writer := Batch (eventQueue j) (tradeQueue j)\<rparr>"
      by (auto simp: writer_step_def writer_take_def split: if_splits)
    with j Waiting show ?thesis
      by (auto simp: journal_ok_def pg_log_def on_disk_def in_flight_def loadable_def)
  next
    case (Batch es ts)
    let ?d = "database_state j"
    obtain trows where t: "trades_table (tables ?d) = Some trows" using j(3) by auto
    from assms(4) log Batch have "seq_ordered (evs @ es)"
      using seq_ordered_append [of "evs @ es" "eventQueue j"] by (simp add: pg_log_def in_flight_def)
    then obtain d where d: "db_txn D (batch_statements es ts) ?d = Returns d"
      "events_table (tables d) = Some (map event_to_row (evs @ es))"
      "trades_table (tables d) = Some (trows @ map trade_to_row ts)" by (rule batch_commits [OF assms(1,2) j(2) t])
    with assms(5) Batch have "database_state j' = d" "writer j' = Counting (length es + length ts)"
      "eventQueue j' = eventQueue j" "pg_stopping j' = pg_stopping j"
      by (auto simp: writer_step_def writer_commit_def Let_def)
    moreover from this d(2) have "loadable tables (evs @ es) j'" by (simp add: loadable_def)
    moreover note on_disk_loadable [OF this]
    ultimately show ?thesis
      using d(3) j(1,4) log Batch by (auto simp: journal_ok_def pg_log_def in_flight_def)
  next
    case (Counting k)
    with assms(5) have "j' = j\<lparr>done_count := done_count j + word_of_nat k, writer := Waiting\<rparr>"
      by (simp add: writer_step_def writer_count_def)
    with j Counting show ?thesis
      by (auto simp: journal_ok_def pg_log_def on_disk_def in_flight_def loadable_def)
  qed (use assms(5) in \<open>simp add: writer_step_def\<close>)
qed

lemma writer_steps_log:
  assumes "database_laws D tables" and "healthy D tables"
  shows "journal_ok tables m j \<Longrightarrow> seq_ordered (pg_log tables j) \<Longrightarrow>
    pg_log tables (writer_steps D k j) = pg_log tables j \<and> journal_ok tables m (writer_steps D k j)"
proof (induction k arbitrary: j)
  case (Suc k)
  show ?case
  proof (cases "writer_step D j")
    case (Some j')
    from writer_step_log [OF assms Suc.prems Some] Suc.IH [of j'] Suc.prems Some show ?thesis by simp
  qed (use Suc.prems in simp)
qed simp

lemma writer_step_counted:
  "pg_counted n j \<Longrightarrow> writer_step D j = Some j' \<Longrightarrow> pg_counted n j' \<and> enqueued j' = enqueued j"
  using pg_next_counted [of n j D PgWriter j'] by (simp add: pg_next_def pg_counted_def Let_def)

lemma writer_steps_counted: "pg_counted n j \<Longrightarrow> pg_counted n (writer_steps D k j)"
  by (induction k arbitrary: j) (auto dest: writer_step_counted split: option.split)

text \<open>The contract, on a healthy database.\<close>

definition pg_ready :: "'d database \<Rightarrow> ('d \<Rightarrow> pg_tables) \<Rightarrow> nat \<Rightarrow> 'd pg_journal \<Rightarrow> bool" where
  "pg_ready D tables m j \<longleftrightarrow> database_laws D tables \<and> healthy D tables \<and> journal_ok tables m j"

lemma hand_in_ready:
  assumes "pg_ready D tables m j"
  shows "pg_log tables (pg_append ev j) = pg_log tables j @ [ev]" "pg_ready D tables m (pg_append ev j)"
    "pg_log tables (pg_recordTrade now t j) = pg_log tables j" "pg_ready D tables m (pg_recordTrade now t j)"
  using assms
  by (simp_all add: pg_ready_def journal_ok_def pg_append_def pg_recordTrade_def pg_log_def on_disk_def in_flight_def loadable_def)

lemma meanwhile_ready:
  assumes "pg_ready D tables m j" and "seq_ordered (pg_log tables j)"
  shows "pg_log tables (writer_meanwhile D env j) = pg_log tables j \<and> pg_ready D tables m (writer_meanwhile D env j)"
  using assms writer_steps_log [of D tables m j "snd (env j)"] by (simp add: pg_ready_def writer_meanwhile_def)

lemma call_ready:
  assumes "pg_ready D tables m j"
  shows "seq_ordered (pg_log tables j @ [ev]) \<Longrightarrow>
      pg_log tables (append_op (PostgresJournal_vtable D env) ev j) = pg_log tables j @ [ev] \<and>
      pg_ready D tables m (append_op (PostgresJournal_vtable D env) ev j)"
    "seq_ordered (pg_log tables j) \<Longrightarrow>
      pg_log tables (recordTrade_op (PostgresJournal_vtable D env) t j) = pg_log tables j \<and>
      pg_ready D tables m (recordTrade_op (PostgresJournal_vtable D env) t j)"
  using meanwhile_ready [OF hand_in_ready(2) [OF assms], of ev env]
    meanwhile_ready [OF hand_in_ready(4) [OF assms], of "fst (env j)" t env] hand_in_ready [OF assms]
  by (simp_all add: PostgresJournal_vtable_def)

interpretation pg: event_log "PostgresJournal_vtable D env" "pg_log tables" "pg_ready D tables m" seq_ordered for D env tables m
proof unfold_locales
  fix j
  show "pg_ready D tables m j \<Longrightarrow> pg_log tables (flush_op (PostgresJournal_vtable D env) j) = pg_log tables j \<and>
      pg_ready D tables m (flush_op (PostgresJournal_vtable D env) j)" by (simp add: PostgresJournal_vtable_def)
qed (rule call_ready; assumption)+

text \<open>When \<open>flush()\<close> returns and nothing was handed in since, everything is in the database.\<close>

lemma flushed_on_disk:
  assumes "journal_inv tables m n j" and "n < 2 ^ 64" and "flush_returns (enqueued j) j"
  shows "in_flight j = [] \<and> eventQueue j = [] \<and> tradeQueue j = [] \<and> (\<forall>es ts. writer j = Batch es ts \<longrightarrow> ts = [])"
proof -
  let ?b = "(case writer j of Batch es ts \<Rightarrow> length es + length ts | Counting k \<Rightarrow> k | _ \<Rightarrow> 0) +
    (length (eventQueue j) + length (tradeQueue j))"
  from assms(1) have c: "enqueued j = word_of_nat n" "?b \<le> n" "done_count j = word_of_nat (n - ?b)" "\<not> pg_stopping j"
    by (auto simp: journal_inv_def journal_ok_def pg_counted_def Let_def)
  from assms(3) c have "(word_of_nat n :: 64 word) \<le> word_of_nat (n - ?b)" by (simp add: flush_returns_def)
  with assms(2) have "n \<le> n - ?b" by (simp add: word_le_nat_alt unat_of_nat)
  with c(2) have "?b = 0" by linarith
  then show ?thesis by (simp add: in_flight_def split: writer_pc.splits)
qed

section \<open>The invariant of a run\<close>

definition durable_inv ::
  "'d database \<Rightarrow> 'd surroundings \<Rightarrow> ('d \<Rightarrow> pg_tables) \<Rightarrow> command list \<Rightarrow> command list \<Rightarrow>
     ('d, 's, 'u) durable \<Rightarrow> bool" where
  "durable_inv D env tables h cs s \<longleftrightarrow>
     (let p = process s; e = eng p in
      system_sound (PostgresJournal_vtable D env) (pg_log tables) h cs p \<and>
      (\<exists>j n. journal e = Some (PostgresJournal_vtable D env, j) \<and> journal_inv tables (length h) n j \<and>
         n + length (waiting p) \<le> length cs + length (tradeLog e) \<and>
         (\<forall>target. flushing s = Some target \<longrightarrow>
            target = enqueued j \<and> in_stop p \<and> matchingThread e = not_joinable)))"

text \<open>A command hands in one event and its trades.\<close>

lemma hand_in_counted:
  assumes "pg_counted n j"
  shows "pg_counted (Suc n) (append_op (PostgresJournal_vtable D env) ev j)"
    "pg_counted (Suc n) (recordTrade_op (PostgresJournal_vtable D env) t j)"
  using pg_next_counted [OF assms, of undefined "PgAppend ev"]
    pg_next_counted [OF assms, of undefined "PgRecord (fst (env j)) t"]
  by (simp_all add: PostgresJournal_vtable_def writer_meanwhile_def pg_next_def writer_steps_counted)

lemma publishTrades_counted:
  "journal e = Some (PostgresJournal_vtable D env, j) \<Longrightarrow> pg_counted n j \<Longrightarrow>
     \<exists>j'. journal (foldl publishTrade e ts) = Some (PostgresJournal_vtable D env, j') \<and> pg_counted (n + length ts) j'"
proof (induction ts arbitrary: e j n)
  case (Cons t ts)
  have "journal (publishTrade e t) = Some (PostgresJournal_vtable D env, recordTrade_op (PostgresJournal_vtable D env) t j)"
    using Cons.prems(1) by simp
  from Cons.IH [OF this hand_in_counted(2) [OF Cons.prems(2)]] show ?case by simp
qed simp

lemma processCommand_counted:
  assumes "journal e = Some (PostgresJournal_vtable D env, j)" and "pg_counted n j"
  shows "\<exists>j' n'. journal (after (processCommand rd cmd e)) = Some (PostgresJournal_vtable D env, j') \<and>
    pg_counted n' j' \<and> n' + length (tradeLog e) \<le> Suc n + length (tradeLog (after (processCommand rd cmd e)))"
proof (cases "commandEvent (wall_now rd) cmd (nextSeq e)")
  case (Inl err)
  with assms show ?thesis by (intro exI [of _ j] exI [of _ n]) (simp add: processCommand_def Let_def)
next
  case (Inr ev)
  let ?J = "PostgresJournal_vtable D env" and ?e2 = "journal_append ev (e\<lparr>nextSeq := nextSeq e + 1\<rparr>)"
  have j2: "journal ?e2 = Some (?J, append_op ?J ev j)" using assms(1) by simp
  note n2 = hand_in_counted(1) [OF assms(2), of D env ev]
  show ?thesis
  proof (cases "applyCommand (trade_now rd) cmd (eng_book ?e2)")
    case err: (Inl err)
    with Inr j2 n2 show ?thesis
      by (intro exI [of _ "append_op ?J ev j"] exI [of _ "Suc n"]) (simp add: processCommand_def Let_def)
  next
    case app: (Inr tsb)
    obtain ts b' where tsb: "tsb = (ts, b')" by (cases tsb)
    have "journal (?e2\<lparr>eng_book := b'\<rparr>) = Some (?J, append_op ?J ev j)" using j2 by simp
    from publishTrades_counted [OF this n2, of ts] Inr app tsb show ?thesis
      by (auto simp: processCommand_def Let_def)
  qed
qed

lemma system_sound_journal:
  assumes "system_sound J log_of h cs p" and "journal (eng p) = Some (J, j)" and "log_of j' = log_of j"
  shows "system_sound J log_of h cs (p\<lparr>eng := (eng p)\<lparr>journal := Some (J, j')\<rparr>\<rparr>)"
proof -
  have u: "untimed_state ((eng p)\<lparr>journal := Some (J, j')\<rparr>) = untimed_state (eng p)" by (simp add: untimed_state_def)
  have "engine_sound J log_of cmds ((eng p)\<lparr>journal := Some (J, j')\<rparr>) = engine_sound J log_of cmds (eng p)"
    "engine_crashed J log_of cmds cmd err ((eng p)\<lparr>journal := Some (J, j')\<rparr>) = engine_crashed J log_of cmds cmd err (eng p)"
    for cmds cmd err using assms(2,3) by (simp_all add: engine_sound_def engine_crashed_def u)
  with assms(1) show ?thesis by (cases "terminated p") (simp_all add: system_sound_def)
qed

text \<open>The numbers of a log of fewer than 2^63 commands ascend.\<close>

lemma journaled_numbers:
  "journaled k cmds evs \<Longrightarrow> map ev_seq evs = map seq_no [k..<k + length cmds]"
proof (induction cmds arbitrary: k evs)
  case (Cons cmd cmds)
  then obtain ev evs' where "evs = ev # evs'" "commandEvent (ev_epochNanos ev) cmd (seq_no k) = Inr ev"
    "journaled (Suc k) cmds evs'" by (auto split: list.splits)
  moreover have "[k..<k + length (cmd # cmds)] = k # [Suc k..<Suc k + length cmds]"
    by (simp add: upt_conv_Cons del: upt_Suc)
  ultimately show ?case using Cons.IH [of "Suc k" evs'] commandEvent_seq by simp
qed simp

lemma journaled_seq_ordered:
  assumes "journaled 0 cmds evs" and "length cmds < 2 ^ 63"
  shows "seq_ordered evs"
proof -
  have u: "uint (seq_no i) = int i + 1" if "i < length cmds" for i
    using that assms(2) by (intro uint_seq_no) simp
  have "map (\<lambda>ev. uint (ev_seq ev)) evs = map (\<lambda>i. uint (seq_no i)) [0..<length cmds]"
    using arg_cong [OF journaled_numbers [OF assms(1)], of "map uint"] by (simp add: comp_def)
  also have "\<dots> = map (\<lambda>i. int i + 1) [0..<length cmds]" using u by simp
  finally have m: "map (\<lambda>ev. uint (ev_seq ev)) evs = map (\<lambda>i. int i + 1) [0..<length cmds]" .
  have "\<forall>x \<in> set (map (\<lambda>ev. uint (ev_seq ev)) evs). x < 2 ^ 63" unfolding m using assms(2) by auto
  moreover have "sorted_wrt (<) (map (\<lambda>ev. uint (ev_seq ev)) evs)"
    unfolding m by (simp add: sorted_wrt_map sorted_wrt_iff_nth_less)
  ultimately show ?thesis by (simp add: seq_ordered_def)
qed

lemma system_sound_journaled:
  assumes "system_sound J log_of h cs p" and "journal (eng p) = Some (J, j)"
  shows "\<exists>cmds. journaled 0 cmds (log_of j) \<and> length cmds \<le> length h + length cs"
  using assms
  by (fastforce simp: system_sound_def engine_sound_def engine_crashed_def split: option.splits if_splits)

lemma pg_all_fit: "n < 2 ^ 63 \<Longrightarrow> pg.all_fit n"
  unfolding pg.all_fit_def using journaled_seq_ordered by (meson le_less_trans)

lemma sys_step_inv:
  assumes "durable_inv D env tables h (pushed tr) s" and "l \<noteq> StopJoin" and "sys_next l (process s) = Some p"
    and "database_laws D tables" and "healthy D tables" and "length h + length (pushed tr) < 2 ^ 63"
  shows "durable_inv D env tables h (pushed (tr @ [l])) (s\<lparr>process := p\<rparr>)"
proof -
  let ?p = "process s" and ?J = "PostgresJournal_vtable D env"
  from assms(1) obtain j n where i: "system_sound ?J (pg_log tables) h (pushed tr) ?p"
    "journal (eng ?p) = Some (?J, j)" "journal_inv tables (length h) n j"
    "n + length (waiting ?p) \<le> length (pushed tr) + length (tradeLog (eng ?p))"
    "\<forall>target. flushing s = Some target \<longrightarrow> target = enqueued j \<and> in_stop ?p \<and> matchingThread (eng ?p) = not_joinable"
    by (auto simp: durable_inv_def Let_def)
  have "journal_ready ?J (pg_ready D tables (length h)) (eng ?p)"
    using i(2,3) assms(4,5) by (simp add: journal_ready_def pg_ready_def journal_inv_def)
  from pg.step_sound [OF i(1) this pg_all_fit [OF assms(6)] assms(3)]
  have sound: "system_sound ?J (pg_log tables) h (pushed (tr @ [l])) p"
    and ready: "\<And>j'. journal (eng p) = Some (?J, j') \<Longrightarrow> journal_ok tables (length h) j'"
    by (auto simp: journal_ready_def pg_ready_def)
  show ?thesis
  proof (cases "\<exists>rd. l = Round rd")
    case True
    then obtain rd where l: "l = Round rd" by blast
    with assms(3) have m: "matchingThread_step rd ?p = Some p" by (auto simp: sys_next_def split: if_splits)
    then have nf: "flushing s = None" using i(5) by (cases "flushing s") (auto simp: matchingThread_step_def)
    from m consider (break) e where "matchingRound rd (eng ?p) = Breaks e" "p = ?p\<lparr>eng := e\<lparr>matchingThread := finished\<rparr>\<rparr>"
      | (handle) cmd out where "matchingRound rd (eng ?p) = Handles cmd out" "p = ?p\<lparr>eng := after out, terminated := thrown out\<rparr>"
      by (auto simp: matchingThread_step_def split: if_splits loop_round.splits)
    then show ?thesis
    proof cases
      case break
      then have "e = eng ?p\<lparr>incomingQueue := incomingQueue (eng ?p)\<rparr>"
        by (auto simp: matchingRound_def pop_cases split: option.splits)
      with break i l nf sound show ?thesis by (auto simp: durable_inv_def Let_def)
    next
      case handle
      then obtain q where "pop (incomingQueue (eng ?p)) = Some (Some cmd, q)"
        and q: "out = processCommand rd cmd (eng ?p\<lparr>incomingQueue := q\<rparr>)"
        by (auto simp: matchingRound_def split: option.splits)
      then have w: "waiting ?p = cmd # queue q" by (auto simp: pop_cases)
      have "journal (eng ?p\<lparr>incomingQueue := q\<rparr>) = Some (?J, j)" using i(2) by simp
      from processCommand_counted [OF this, of n rd cmd] i(3) q obtain j' n' where
        j': "journal (after out) = Some (?J, j')" "pg_counted n' j'"
        "n' + length (tradeLog (eng ?p)) \<le> Suc n + length (tradeLog (after out))" by (auto simp: journal_inv_def)
      have "journal_inv tables (length h) n' j'" using ready [of j'] j'(1,2) handle(2) by (simp add: journal_inv_def)
      with j' have "journal (after out) = Some (?J, j')" "journal_inv tables (length h) n' j'"
        "n' + length (tradeLog (eng ?p)) \<le> Suc n + length (tradeLog (after out))" by simp_all
      moreover have "incomingQueue (after out) = q" using q by (simp add: processCommand_frame)
      ultimately show ?thesis using i(4) w handle(2) l nf sound by (auto simp: durable_inv_def Let_def)
    qed
  next
    case False
    with assms(2,3) have "journal (eng p) = journal (eng ?p)" "tradeLog (eng p) = tradeLog (eng ?p)"
      "waiting p = waiting ?p @ pushed [l]"
      "in_stop ?p \<longrightarrow> in_stop p \<and> matchingThread (eng p) = matchingThread (eng ?p)"
      by (cases l; auto simp: sys_next_def submitOrder_def engine_cancelOrder_def stop_signal_def start_def join_def
          split: if_splits thread_state.splits)+
    with i sound show ?thesis by (auto simp: durable_inv_def Let_def)
  qed
qed

lemma durable_step_inv:
  assumes "database_laws D tables" and "healthy D tables" and "durable_inv D env tables h (pushed (sys_of tr)) s"
    and "length h + length (pushed (sys_of tr)) < 2 ^ 63" and "durable_next D l s = Some s'"
  shows "durable_inv D env tables h (pushed (sys_of (tr @ [l]))) s'"
proof -
  let ?p = "process s" and ?J = "PostgresJournal_vtable D env" and ?cs = "pushed (sys_of tr)"
  from assms(3) obtain j n where i: "system_sound ?J (pg_log tables) h ?cs ?p"
    "journal (eng ?p) = Some (?J, j)" "journal_inv tables (length h) n j"
    "n + length (waiting ?p) \<le> length ?cs + length (tradeLog (eng ?p))"
    "\<forall>target. flushing s = Some target \<longrightarrow> target = enqueued j \<and> in_stop ?p \<and> matchingThread (eng ?p) = not_joinable"
    by (auto simp: durable_inv_def Let_def)
  show ?thesis
  proof (cases l)
    case (Sys l')
    with assms(5) obtain p where "l' \<noteq> StopJoin" "sys_next l' ?p = Some p" "s' = s\<lparr>process := p\<rparr>"
      by (cases l') (auto simp: durable_next_def Let_def split: if_splits)
    with sys_step_inv [OF assms(3) _ _ assms(1,2,4)] Sys show ?thesis by simp
  next
    case StopFlush
    with assms(5) i(2) obtain e where e: "in_stop ?p" "join (eng ?p) = Some e" "terminated ?p = None"
      "s' = s\<lparr>process := ?p\<lparr>eng := e\<rparr>, flushing := Some (enqueued j)\<rparr>"
      by (auto simp: durable_next_def Let_def flush_target_def split: if_splits option.splits)
    then have "e = (eng ?p)\<lparr>matchingThread := not_joinable\<rparr>" by (auto simp: join_def split: thread_state.splits)
    with e i StopFlush show ?thesis by (auto simp: durable_inv_def Let_def system_sound_def)
  next
    case FlushReturn
    with assms(5) i(2) have "s' = s\<lparr>process := ?p\<lparr>in_stop := False\<rparr>, flushing := None\<rparr>" "terminated ?p = None"
      by (auto simp: durable_next_def Let_def split: if_splits option.splits)
    with i FlushReturn show ?thesis by (auto simp: durable_inv_def Let_def system_sound_def)
  next
    case Writer
    with assms(5) i(2) obtain j' where j': "writer_step D j = Some j'"
      "s' = s\<lparr>process := ?p\<lparr>eng := (eng ?p)\<lparr>journal := Some (?J, j')\<rparr>\<rparr>\<rparr>"
      by (auto simp: durable_next_def Let_def split: if_splits)
    obtain cmds where "journaled 0 cmds (pg_log tables j)" "length cmds \<le> length h + length ?cs"
      using system_sound_journaled [OF i(1,2)] by blast
    then have "seq_ordered (pg_log tables j)" using assms(4) journaled_seq_ordered by (meson le_less_trans)
    from writer_step_log [OF assms(1,2) _ this j'(1)] writer_step_counted [OF _ j'(1)] i(3)
    have w: "pg_log tables j' = pg_log tables j" "journal_inv tables (length h) n j'" "enqueued j' = enqueued j"
      by (auto simp: journal_inv_def)
    with system_sound_journal [OF i(1,2) w(1)] i(4,5) j'(2) Writer show ?thesis
      by (auto simp: durable_inv_def Let_def)
  qed
qed

lemma durable_run_inv:
  "durable_run D s0 tr s \<Longrightarrow> database_laws D tables \<Longrightarrow> healthy D tables \<Longrightarrow> durable_inv D env tables h [] s0 \<Longrightarrow>
     length h + length (pushed (sys_of tr)) < 2 ^ 63 \<Longrightarrow> durable_inv D env tables h (pushed (sys_of tr)) s"
proof (induction rule: durable_run.induct)
  case (step s tr s' l s'')
  from step.prems(4) have "length h + length (pushed (sys_of tr)) < 2 ^ 63" by simp
  with step show ?case by (intro durable_step_inv) simp_all
qed simp

lemma durable_exec_append:
  "durable_exec D (ls @ ls') s = (case durable_exec D ls s of None \<Rightarrow> None | Some s' \<Rightarrow> durable_exec D ls' s')"
  by (induction ls arbitrary: s) (auto split: option.splits)

lemma durable_run_iff: "durable_run D s tr s' \<longleftrightarrow> durable_exec D tr s = Some s'"
proof
  show "durable_run D s tr s' \<Longrightarrow> durable_exec D tr s = Some s'"
    by (induction rule: durable_run.induct) (simp_all add: durable_exec_append)
  show "durable_exec D tr s = Some s' \<Longrightarrow> durable_run D s tr s'"
    by (induction tr arbitrary: s' rule: rev_induct)
      (auto simp: durable_exec_append intro: durable_run.intros split: option.splits)
qed

section \<open>What every step keeps\<close>

text \<open>What every call of the plug-in keeps, a command keeps; what the writer keeps as well, every step of a process
  keeps.\<close>

lemma processCommand_closed:
  assumes "\<And>ev j. Q j \<Longrightarrow> Q (append_op J ev j)" and "\<And>t j. Q j \<Longrightarrow> Q (recordTrade_op J t j)"
    and "journal e = Some (J, j)" and "Q j"
  shows "\<exists>j'. journal (after (processCommand rd cmd e)) = Some (J, j') \<and> Q j'"
proof -
  have ts: "journal e = Some (J, j) \<Longrightarrow> Q j \<Longrightarrow> \<exists>j'. journal (foldl publishTrade e ts) = Some (J, j') \<and> Q j'"
    for e :: "('a, 'b, 'c) engine" and j ts
  proof (induction ts arbitrary: e j)
    case (Cons t ts)
    have "journal (publishTrade e t) = Some (J, recordTrade_op J t j)" using Cons.prems(1) by simp
    from Cons.IH [OF this assms(2) [OF Cons.prems(2)]] show ?case by simp
  qed simp
  have "\<exists>j'. journal (foldl publishTrade ((journal_append ev (e\<lparr>nextSeq := k\<rparr>))\<lparr>eng_book := b\<rparr>) ts) = Some (J, j') \<and> Q j'"
    for ev k b ts using assms(3) assms(1) [OF assms(4)] by (intro ts [of _ "append_op J ev j"]) simp_all
  with assms(1) [OF assms(4)] assms(3,4) show ?thesis by (auto simp: processCommand_def Let_def split: sum.splits)
qed

lemma durable_step_closed:
  assumes "\<And>ev j. Q j \<Longrightarrow> Q (append_op J ev j)" and "\<And>t j. Q j \<Longrightarrow> Q (recordTrade_op J t j)"
    and "\<And>j j'. Q j \<Longrightarrow> writer_step D j = Some j' \<Longrightarrow> Q j'"
    and "durable_next D l s = Some s'" and "journal (eng (process s)) = Some (J, j)" and "Q j"
  shows "\<exists>j'. journal (eng (process s')) = Some (J, j') \<and> Q j'"
proof (cases "\<exists>rd. l = Sys (Round rd)")
  case True
  then obtain rd p where p: "sys_next (Round rd) (process s) = Some p" "s' = s\<lparr>process := p\<rparr>"
    using assms(4) by (auto simp: durable_next_def Let_def split: if_splits)
  from p(1) show ?thesis
  proof (cases rule: round_cases)
    case break
    with assms(5,6) p(2) show ?thesis by simp
  next
    case (handle cmd q out)
    have "journal (eng (process s)\<lparr>incomingQueue := q\<rparr>) = Some (J, j)" using assms(5) by simp
    from processCommand_closed [of Q J, OF assms(1,2) this assms(6), of rd cmd] handle(2,3) p(2) show ?thesis by auto
  qed
next
  case False
  show ?thesis
  proof (cases l)
    case (Sys l')
    with False assms(4-6) show ?thesis
      by (cases l') (auto simp: durable_next_def Let_def sys_next_def submitOrder_def engine_cancelOrder_def stop_signal_def
          start_def join_def split: if_splits thread_state.splits)
  next
    case Writer
    with assms(3-6) show ?thesis by (auto simp: durable_next_def Let_def split: if_splits option.splits)
  qed (use assms(4-6) in \<open>auto simp: durable_next_def Let_def join_def split: if_splits option.splits thread_state.splits\<close>)
qed

lemma durable_run_closed:
  assumes "durable_run D s0 tr s" and "journal (eng (process s0)) = Some (J, j0)" and "Q j0"
    and "\<And>ev j. Q j \<Longrightarrow> Q (append_op J ev j)" and "\<And>t j. Q j \<Longrightarrow> Q (recordTrade_op J t j)"
    and "\<And>j j'. Q j \<Longrightarrow> writer_step D j = Some j' \<Longrightarrow> Q j'"
  obtains j where "journal (eng (process s)) = Some (J, j)" "Q j"
proof -
  from assms(1-3) have "\<exists>j. journal (eng (process s)) = Some (J, j) \<and> Q j"
  proof (induction rule: durable_run.induct)
    case (step s0 tr s l s')
    then obtain j where "journal (eng (process s)) = Some (J, j)" "Q j" by blast
    from durable_step_closed [of Q J, OF assms(4-6) step.hyps(2) this] show ?case .
  qed blast
  with that show thesis by blast
qed

end
