(* ===== verification/EngineSession.thy ===== *)
theory EngineSession
  imports Recovery
begin

text \<open>
  A session of an engine, as the programs of the repository use it: one thread starts the engine, makes its
  calls and stops it, in any interleaving with the matching thread. The lemmas say what is left when \<open>stop()\<close>
  has returned, and that a session in progress can always be finished.
\<close>

section \<open>Calls that may wait\<close>

text \<open>A call: \<open>None\<close> while it has not returned, otherwise an exception or a result; and one such call after another.\<close>

definition bindT :: "('x + 'a) option \<Rightarrow> ('a \<Rightarrow> ('x + 'b) option) \<Rightarrow> ('x + 'b) option" where
  "bindT m f = (case m of None \<Rightarrow> None | Some (Inl x) \<Rightarrow> Some (Inl x) | Some (Inr a) \<Rightarrow> f a)"

lemma bindT_simps [simp]:
  "bindT None f = None" "bindT (Some (Inl x)) f = Some (Inl x)" "bindT (Some (Inr a)) f = f a"
  by (simp_all add: bindT_def)

section \<open>Sessions\<close>

definition only_commands :: "sys_label list \<Rightarrow> bool" where
  "only_commands calls = list_all (\<lambda>l. case l of Submit _ \<Rightarrow> True | Cancel _ \<Rightarrow> True | _ \<Rightarrow> False) calls"

text \<open>The engine after the session in which \<open>calls\<close> are made and the steps of the two threads come in the order
  \<open>tr\<close>; \<open>None\<close> when this is not such a session, or one that has not come to its end.\<close>

definition engine_session ::
  "sys_label list \<Rightarrow> sys_label list \<Rightarrow> ('j, 's, 'u) engine \<Rightarrow> ('j, 's, 'u) engine option" where
  "engine_session calls tr e =
     (if callers tr = Start # calls @ [StopSignal] then map_option eng (exec_labels (tr @ [StopJoin]) (idle e)) else None)"

text \<open>The test of the calls, without comparing the clock readings of rounds.\<close>

fun follows :: "sys_label list \<Rightarrow> sys_label list \<Rightarrow> bool" where
  "follows [] cs = (case cs of [] \<Rightarrow> True | _ \<Rightarrow> False)"
| "follows (Round rd # ls) cs = follows ls cs"
| "follows (Submit ord # ls) cs = (case cs of Submit ord' # cs' \<Rightarrow> ord = ord' \<and> follows ls cs' | _ \<Rightarrow> False)"
| "follows (Cancel i # ls) cs = (case cs of Cancel i' # cs' \<Rightarrow> i = i' \<and> follows ls cs' | _ \<Rightarrow> False)"
| "follows (Start # ls) cs = (case cs of Start # cs' \<Rightarrow> follows ls cs' | _ \<Rightarrow> False)"
| "follows (StopSignal # ls) cs = (case cs of StopSignal # cs' \<Rightarrow> follows ls cs' | _ \<Rightarrow> False)"
| "follows (StopJoin # ls) cs = (case cs of StopJoin # cs' \<Rightarrow> follows ls cs' | _ \<Rightarrow> False)"

lemma follows_iff: "follows tr cs \<longleftrightarrow> callers tr = cs"
  by (induction tr arbitrary: cs rule: callers.induct) (auto split: list.splits sys_label.splits)

lemma engine_session_code [code]:
  "engine_session calls tr e =
     (if follows tr (Start # calls @ [StopSignal]) then map_option eng (exec_labels (tr @ [StopJoin]) (idle e)) else None)"
  by (simp add: engine_session_def follows_iff)

text \<open>An engine with no thread and nothing to do.\<close>

definition stopped :: "('j, 's, 'u) engine \<Rightarrow> bool" where
  "stopped e \<longleftrightarrow> \<not> running e \<and> matchingThread e = not_joinable \<and> queue (incomingQueue e) = []"

lemma only_commands_simps [simp]:
  "only_commands []" "only_commands (Submit ord # ls) = only_commands ls" "only_commands (Cancel i # ls) = only_commands ls"
  "\<not> only_commands (Start # ls)" "\<not> only_commands (StopSignal # ls)" "\<not> only_commands (StopJoin # ls)"
  "\<not> only_commands (Round rd # ls)"
  by (simp_all add: only_commands_def)

lemma only_commands_append [simp]: "only_commands (ls @ ls') \<longleftrightarrow> only_commands ls \<and> only_commands ls'"
  by (simp add: only_commands_def)

lemma only_commands_pushed: "only_commands calls \<Longrightarrow> length (pushed calls) = length calls"
  by (induction calls) (auto simp: only_commands_def split: sys_label.splits)

lemma only_commands_quiet: "only_commands calls \<Longrightarrow> quiet_after_stop (calls @ [StopSignal])"
  by (induction calls) (auto simp: only_commands_def split: sys_label.splits)

lemma stopped_control: "stopped e \<Longrightarrow> control_inv (idle e)"
  by (simp add: stopped_def control_inv_def)

lemma plugged_stopped [simp]: "stopped (plugged_engine j f k u)"
  by (simp add: stopped_def new_queue_def)

section \<open>When the session is over\<close>

lemma session_cases:
  assumes "engine_session calls tr e = Some e'" and "stopped e" and "only_commands calls"
  obtains "system_run (idle e) (tr @ [StopJoin]) (idle e')" "pushed (tr @ [StopJoin]) = pushed calls" "stopped e'"
proof -
  from assms(1) obtain s where s: "callers tr = Start # calls @ [StopSignal]"
    "system_run (idle e) (tr @ [StopJoin]) s" "e' = eng s"
    by (auto simp: engine_session_def system_run_iff split: if_splits)
  have "quiet_after_stop (tr @ [StopJoin])" "has_stop (tr @ [StopJoin])"
    using callers_quiet [of tr] callers_facts(2) [of tr] s(1) only_commands_quiet [OF assms(3)]
    by (simp_all add: quiet_append)
  from run_quiet [OF s(2) stopped_control [OF assms(2)] this]
  have q: "matchingThread (eng s) = executing \<or> waiting s = []" by (simp add: stop_quiet_def)
  from s(2) obtain s' where "sys_next StopJoin s' = Some s" by (cases rule: system_run.cases) auto
  then have j: "terminated s = None" "in_stop s = False" "matchingThread (eng s) = not_joinable"
    by (auto simp: sys_next_def stop_join_def join_def split: if_splits thread_state.splits)
  moreover have "\<not> running (eng s)"
    using run_control [OF s(2) stopped_control [OF assms(2)]] j by (auto simp: control_inv_def Let_def split: if_splits)
  ultimately have "stopped e'" and e': "idle e' = s" unfolding s(3) using q by (simp_all add: stopped_def idle_def)
  moreover have "pushed (tr @ [StopJoin]) = pushed calls" using callers_facts(1) [of tr] s(1) by simp
  ultimately show thesis using that s(2) unfolding e' by blast
qed

text \<open>All commands were applied, one after the other, with any plug-ins.\<close>

lemma session_applied:
  assumes "engine_session calls tr e = Some e'" and "stopped e" and "only_commands calls"
    and "applyCommands h blank = Inr (untimed_state e)"
  shows "stopped e'" and "applyCommands (h @ pushed calls) blank = Inr (untimed_state e')"
proof -
  obtain r: "system_run (idle e) (tr @ [StopJoin]) (idle e')" "pushed (tr @ [StopJoin]) = pushed calls" "stopped e'"
    by (rule session_cases [OF assms(1-3)])
  have "applied_prefix h (idle e)" using assms(2,4) by (auto simp: applied_prefix_def stopped_def)
  from run_applied_from [OF r(1) this] r(2,3) show "applyCommands (h @ pushed calls) blank = Inr (untimed_state e')"
    by (auto simp: applied_prefix_def stopped_def)
  show "stopped e'" by (rule r(3))
qed

text \<open>With an in-memory journal they are in the log as well.\<close>

lemma session_mem_sound:
  assumes "engine_session calls tr e = Some e'" and "stopped e" and "only_commands calls"
    and "engine_sound InMemoryJournal (\<lambda>evs. evs) h e"
  shows "stopped e'" and "engine_sound InMemoryJournal (\<lambda>evs. evs) (h @ pushed calls) e'"
proof -
  obtain r: "system_run (idle e) (tr @ [StopJoin]) (idle e')" "pushed (tr @ [StopJoin]) = pushed calls" "stopped e'"
    by (rule session_cases [OF assms(1-3)])
  have "system_sound InMemoryJournal (\<lambda>evs. evs) h [] (idle e)" using assms(2,4) by (simp add: system_sound_def stopped_def)
  from mem_run_keeps [OF r(1) this] r(2,3) show "engine_sound InMemoryJournal (\<lambda>evs. evs) (h @ pushed calls) e'"
    by (auto simp: system_sound_def stopped_def)
  show "stopped e'" by (rule r(3))
qed

section \<open>Engines on an in-memory journal\<close>

text \<open>A new engine with \<open>setJournal(&journal)\<close>, on a journal that holds \<open>evs\<close>.\<close>

definition with_journal :: "journal_event list \<Rightarrow> (journal_event list, unit, unit) engine" where
  "with_journal evs = setJournal (Some (InMemoryJournal, evs)) (new_Engine ())"

lemma journaled_length: "journaled k cmds evs \<Longrightarrow> length evs = length cmds"
  by (induction cmds arbitrary: k evs) (auto split: list.splits)

lemma sound_journal: "engine_sound InMemoryJournal (\<lambda>evs. evs) h e \<Longrightarrow> journaled 0 h (events_of e)"
  by (auto simp: engine_sound_def)

lemma with_journal_mem: "with_journal evs = mem_engine evs None None ()"
  by (simp add: with_journal_def mem_engine_def plugged_engine_defs)

lemma with_journal_new: "stopped (with_journal evs)" "engine_sound InMemoryJournal (\<lambda>evs. evs) [] (with_journal [])"
  using mem_engine_sound [of None None "()"] by (simp_all add: with_journal_mem mem_engine_def system_sound_def new_queue_def)

lemma recover_with_journal:
  assumes "engine_sound InMemoryJournal (\<lambda>evs. evs) h e" and "\<forall>cmd \<in> set h. from_factory cmd" and "length h < 2 ^ 64"
  shows "\<exists>e'. recover rds (with_journal (events_of e)) = Returns e' \<and> stopped e' \<and>
    engine_sound InMemoryJournal (\<lambda>evs. evs) h e'"
proof -
  let ?e = "with_journal (events_of e)"
  from assms(1) obtain evs where e: "journal e = Some (InMemoryJournal, evs)" "journaled 0 h evs"
    "applyCommands h blank = Inr (untimed_state e)" by (auto simp: engine_sound_def)
  have "journal_loadAll ?e = Inr evs" "untimed_state ?e = blank"
    using e(1) by (simp_all add: journal_loadAll_def with_journal_mem mem_engine_def mem.log_loadAll)
  from recover_refines [OF this e(2) assms(2,3), of rds] e show ?thesis
    by (auto simp: engine_sound_def stopped_def with_journal_mem mem_engine_def new_queue_def)
qed

section \<open>A session can be finished\<close>

lemma round_flags:
  "sys_next (Round rd) s = Some s' \<Longrightarrow> running (eng s') = running (eng s) \<and> in_stop s' = in_stop s"
  by (cases rule: round_cases) (auto simp: processCommand_frame)

text \<open>The flags say how far the calling thread is; \<open>rest\<close> are the calls it has still to make.\<close>

lemma callers_append [simp]: "callers (tr @ tr') = callers tr @ callers tr'"
  by (induction tr rule: callers.induct) simp_all

lemma run_then: "system_run s tr s' \<Longrightarrow> exec_labels ls s' = Some s'' \<Longrightarrow> system_run s (tr @ ls) s''"
  by (simp add: system_run_iff exec_labels_append)

lemma session_flags:
  "system_run (idle e) tr s \<Longrightarrow> stopped e \<Longrightarrow> only_commands calls \<Longrightarrow> callers tr @ rest = Start # calls @ [StopSignal] \<Longrightarrow>
     running (eng s) = (callers tr \<noteq> [] \<and> rest \<noteq> []) \<and> in_stop s = (rest = [])"
proof (induction "idle e" tr s arbitrary: rest rule: system_run.induct)
  case none
  then show ?case by (auto simp: stopped_def)
next
  case (step tr s' l s'')
  show ?case
  proof (cases "callers [l]")
    case Nil
    then obtain rd where l: "l = Round rd" by (cases l) simp_all
    with step.hyps(2) [OF step.prems(1,2)] step.prems(3)
    have "running (eng s') = (callers tr \<noteq> [] \<and> rest \<noteq> []) \<and> in_stop s' = (rest = [])" by simp
    with round_flags [of rd s' s''] step.hyps(3) l show ?thesis by simp
  next
    case (Cons l' ls)
    then have c: "callers [l] = [l]" by (cases l) auto
    have "callers tr @ (l # rest) = Start # calls @ [StopSignal]" using step.prems(3) c(1) by simp
    from step.hyps(2) [OF step.prems(1,2) this] have IH: "running (eng s') = (callers tr \<noteq> [])" "\<not> in_stop s'" by simp_all
    from step.prems(3) c(1) consider "callers tr = []" "l = Start" "rest \<noteq> []"
      | cs where "callers tr = Start # cs" "calls @ [StopSignal] = cs @ l # rest"
      by (cases "callers tr") auto
    then show ?thesis
    proof cases
      case 1
      with step.hyps(3) IH show ?thesis by (auto simp: sys_next_def start_def join_def split: if_splits thread_state.splits)
    next
      case 2
      then have "l = StopSignal \<and> rest = [] \<or> rest \<noteq> [] \<and> only_commands [l]"
        using step.prems(2) by (cases rest rule: rev_cases) (auto simp: only_commands_def)
      with 2 step.hyps(3) IH show ?thesis
        by (cases l) (auto simp: sys_next_def submitOrder_def engine_cancelOrder_def stop_signal_def split: if_splits)
    qed
  qed
qed

lemma finish_calls:
  "only_commands cs \<Longrightarrow> terminated s = None \<Longrightarrow> running (eng s) \<Longrightarrow> \<not> in_stop s \<Longrightarrow>
     \<exists>s'. exec_labels (cs @ [StopSignal]) s = Some s' \<and> in_stop s' \<and> terminated s' = None"
proof (induction cs arbitrary: s)
  case (Cons l cs)
  then obtain s1 where "sys_next l s = Some s1" "terminated s1 = None" "running (eng s1)" "\<not> in_stop s1"
    by (cases l) (simp_all add: sys_next_def submitOrder_def engine_cancelOrder_def)
  with Cons show ?case by (cases l) simp_all
qed (simp add: sys_next_def)

lemma finish_rest:
  assumes "rest = [] \<or> rest = cs @ [StopSignal] \<or> rest = Start # cs @ [StopSignal]" and "only_commands cs"
    and "terminated s = None" and "control_inv s" and "in_stop s = (rest = [])"
    and "running (eng s) = (rest = cs @ [StopSignal])"
  shows "\<exists>s'. exec_labels rest s = Some s' \<and> in_stop s' \<and> terminated s' = None"
proof -
  consider "rest = []" | "rest = cs @ [StopSignal]" | "rest = Start # cs @ [StopSignal]" "rest \<noteq> cs @ [StopSignal]"
    using assms(1) by blast
  then show ?thesis
  proof cases
    case 3
    with assms(4-6) have "matchingThread (eng s) = not_joinable" by (simp add: control_inv_def Let_def)
    with 3 assms(3,5,6) obtain s1 where "sys_next Start s = Some s1" "terminated s1 = None" "running (eng s1)" "\<not> in_stop s1"
      by (auto simp: sys_next_def start_def join_def)
    with finish_calls [OF assms(2), of s1] 3(1) show ?thesis by simp
  qed (use assms finish_calls in auto)
qed

lemma stop_drains:
  assumes "control_inv s" and "in_stop s" and "terminated s = None"
  obtains n s' where "n \<le> length (waiting s) + 1" "exec_labels (map Round (replicate n at_zero)) s = Some s'" "in_stop s'"
    "terminated s' \<noteq> None \<or> terminated s' = None \<and> matchingThread (eng s') = finished"
proof (cases "matchingThread (eng s) = executing")
  case True
  let ?rs = "replicate (length (waiting s) + 1) at_zero"
  from assms(1,2) have "stopping (incomingQueue (eng s))" by (simp add: control_inv_def Let_def)
  from drain [OF True this assms(3), of ?rs] obtain n s' where n: "n \<le> length ?rs"
    "exec_labels (map Round (take n ?rs)) s = Some s'" "in_stop s'"
    "terminated s' \<noteq> None \<or> terminated s' = None \<and> matchingThread (eng s') = finished"
    using assms(2) by auto
  from n(1) have "take n ?rs = replicate n at_zero" unfolding take_replicate by (simp add: min_absorb1)
  with n that show thesis by simp
next
  case False
  with assms(1,2) have "matchingThread (eng s) = finished"
    by (cases "matchingThread (eng s)") (simp_all add: control_inv_def Let_def)
  with that [of 0 s] assms show thesis by simp
qed

section \<open>The destructor\<close>

text \<open>\<open>Engine::~Engine\<close> calls \<open>stop()\<close>, during which the matching thread makes the rounds \<open>rs\<close>; then the members are
  destroyed, and \<open>std::thread\<close> calls \<open>std::terminate\<close> when it is still joinable. \<open>Some True\<close> is a normal end, \<open>Some
  False\<close> the termination, \<open>None\<close> a destructor that has not returned.\<close>

definition Engine_destructor :: "reading list \<Rightarrow> ('j, 's, 'u) system \<Rightarrow> bool option" where
  "Engine_destructor rs s =
     (let members = (\<lambda>s'. matchingThread (eng s') = not_joinable) in
      if running (eng s) then map_option members (exec_labels (StopSignal # map Round rs @ [StopJoin]) s)
      else Some (members s))"

lemma stop_join_not_joinable: "sys_next StopJoin s = Some s' \<Longrightarrow> matchingThread (eng s') = not_joinable"
  by (auto simp: sys_next_def stop_join_def join_def split: if_splits thread_state.splits)

text \<open>Wherever the program destroys its engine outside of a call of \<open>stop()\<close>, the destructor does not end the process,
  and it returns: after one round more than commands wait, unless a command throws first.\<close>

lemma Engine_destructor_joins:
  assumes "control_inv s" and "\<not> in_stop s" and "terminated s = None"
  shows "Engine_destructor rs s \<noteq> Some False"
    and "\<exists>n s'. exec_labels (StopSignal # map Round (replicate n at_zero)) s = Some s' \<and> terminated s' \<noteq> None \<or>
      Engine_destructor (replicate n at_zero) s = Some True"
proof -
  show "Engine_destructor rs s \<noteq> Some False"
  proof (cases "running (eng s)")
    case True
    then show ?thesis
      by (auto simp: Engine_destructor_def Let_def exec_labels_append stop_join_not_joinable split: option.splits)
  qed (use assms in \<open>simp add: Engine_destructor_def Let_def control_inv_def\<close>)
  show "\<exists>n s'. exec_labels (StopSignal # map Round (replicate n at_zero)) s = Some s' \<and> terminated s' \<noteq> None \<or>
      Engine_destructor (replicate n at_zero) s = Some True"
  proof (cases "running (eng s)")
    case True
    with assms(2,3) obtain s1 where s1: "sys_next StopSignal s = Some s1" "in_stop s1" "terminated s1 = None"
      by (auto simp: sys_next_def stop_signal_def)
    obtain m s2 where m: "exec_labels (map Round (replicate m at_zero)) s1 = Some s2" and s2: "in_stop s2"
      "terminated s2 \<noteq> None \<or> terminated s2 = None \<and> matchingThread (eng s2) = finished"
      by (rule stop_drains [OF step_control [OF assms(1) s1(1)] s1(2,3)])
    show ?thesis
    proof (cases "terminated s2")
      case None
      with s2 obtain s3 where "sys_next StopJoin s2 = Some s3" by (auto simp: sys_next_def stop_join_def join_def)
      with True s1(1) m stop_join_not_joinable have "Engine_destructor (replicate m at_zero) s = Some True"
        by (auto simp: Engine_destructor_def Let_def exec_labels_append simp del: map_replicate)
      then show ?thesis by blast
    next
      case (Some err)
      with s1(1) m show ?thesis by (intro exI [of _ m] exI [of _ s2]) (simp del: map_replicate)
    qed
  qed (use assms in \<open>simp add: Engine_destructor_def Let_def control_inv_def\<close>)
qed

section \<open>Scripts\<close>

text \<open>The sequential specification ignores time stamps.\<close>

lemma untimed_command_idem [simp]: "untimed_command (untimed_command cmd) = untimed_command cmd"
  by (cases "cmd_order cmd") (simp_all add: untimed_command_def untimed_def)

lemma applyCommands_untimed: "applyCommands (map untimed_command cmds) st = applyCommands cmds st"
  by (induction cmds arbitrary: st) (auto intro!: bindE_cong)

definition limit_at :: "timestamp \<Rightarrow> order_id \<Rightarrow> trader_id \<Rightarrow> side \<Rightarrow> int \<Rightarrow> rat \<Rightarrow> order" where
  "limit_at now i t s q p =
     \<lparr>getId = i, getTraderId = t, getSide = s, getQuantity = q, getRemainingQuantity = q, getTimestamp = now,
      getStatus = NEW, dynType = LimitOrder (Finite p)\<rparr>"

lemma createOrder_limit: "0 < q \<Longrightarrow> 0 < p \<Longrightarrow> createOrder now LIMIT i t s q (Finite p) = Inr (limit_at now i t s q p)"
  by (simp add: createOrder_Inr limit_at_def)

lemma limit_at_untimed [simp]:
  "untimed_command (Command_submit (Some (limit_at now i t s q p))) = Command_submit (Some (limit_at 0 i t s q p))"
  "untimed_command (Command_cancel i) = Command_cancel i"
  by (simp_all add: untimed_command_def untimed_def Command_submit_def Command_cancel_def limit_at_def)

lemma limit_at_factory:
  "0 < q \<Longrightarrow> q < 2 ^ 31 \<Longrightarrow> 0 < p \<Longrightarrow> from_factory (Command_submit (Some (limit_at now i t s q p)))"
  by (simp add: from_factory_def Command_submit_def fresh_order_def order_ok_def price_ok_def int32_def limit_at_def)

text \<open>Trades, written as buyer, seller, quantity and price.\<close>

definition fills :: "(order_id \<times> order_id \<times> int \<times> rat) list \<Rightarrow> trade list" where
  "fills xs = map (\<lambda>(b, s, q, p). \<lparr>buyOrderId = b, sellOrderId = s, price = Finite p, quantity = q, trade_time = 0\<rparr>) xs"

definition trades_of :: "(trade list \<times> book) result \<Rightarrow> trade list option" where
  "trades_of r = (case r of Inl _ \<Rightarrow> None | Inr (ts, _) \<Rightarrow> Some ts)"

lemma trade_log_of:
  assumes "applyCommands cmds blank = Inr (untimed_state e)" and "map untimed_command cmds = cmds'"
    and "trades_of (applyCommands cmds' blank) = Some ts"
  shows "map untimed_trade (tradeLog e) = ts"
  using assms applyCommands_untimed [of cmds blank] by (simp add: trades_of_def untimed_state_def)

section \<open>Sessions come to an end\<close>

text \<open>What the calling thread has left to do.\<close>

lemma session_rest:
  assumes "only_commands calls" and "made @ rest = Start # calls @ [StopSignal]"
  shows "\<exists>cs. only_commands cs \<and> (rest = [] \<or> rest = cs @ [StopSignal] \<or> rest = Start # cs @ [StopSignal]) \<and>
    (made = [] \<longleftrightarrow> rest = Start # cs @ [StopSignal])"
proof (cases made)
  case (Cons l ls)
  with assms(2) have l: "ls @ rest = calls @ [StopSignal]" by simp
  then have "rest \<noteq> Start # cs @ [StopSignal]" for cs
    using assms(1) by (auto simp: append_eq_append_conv2 Cons_eq_append_conv append_eq_Cons_conv)
  with l Cons assms(1) show ?thesis by (cases rest rule: rev_cases) auto
qed (use assms in auto)

text \<open>A session can always be finished. One thread starts an engine, submits and cancels, and stops it; the
  orders are well formed and have ids of their own, also against those the engine was given before (\<open>h\<close>).
  Then in every interleaving with the matching thread, at every point, the process has not been
  terminated and the threads can go on so that all calls are made and \<open>stop()\<close> returns.\<close>

lemma session_completes:
  assumes "stopped e" and "safe_for h (idle e)" and "only_commands calls"
    and "\<forall>cmd \<in> set (h @ pushed calls). command_ok cmd" and "distinct (submitted_ids (h @ pushed calls))"
    and "system_run (idle e) tr s" and "callers tr @ rest = Start # calls @ [StopSignal]"
  shows "terminated s = None \<and> (\<exists>tr' e'. engine_session calls (tr @ tr') e = Some e')"
proof -
  have pu: "pushed tr @ pushed rest = pushed calls"
    using arg_cong [OF assms(7), of pushed] by (simp add: callers_facts)
  have safe: "terminated t = None" if "system_run (idle e) (tr @ ls) t" "pushed ls = pushed rest \<or> pushed ls = []" for ls t
  proof -
    have "h @ pushed (tr @ ls) = h @ pushed calls \<or> h @ pushed (tr @ ls) @ pushed rest = h @ pushed calls" using that(2) pu by auto
    with assms(4,5) have "\<forall>cmd \<in> set (h @ pushed (tr @ ls)). command_ok cmd" "distinct (submitted_ids (h @ pushed (tr @ ls)))"
      by (metis Un_iff append_assoc set_append, metis append_assoc distinct_append submitted_ids_append)
    from run_safe_from [OF that(1) assms(2) this] show ?thesis by (simp add: safe_for_def)
  qed
  from safe [of "[]" s] assms(6) have t: "terminated s = None" by simp
  note flags = session_flags [OF assms(6,1,3,7)]
  note control = run_control [OF assms(6) stopped_control [OF assms(1)]]
  obtain cs where cs: "only_commands cs" "rest = [] \<or> rest = cs @ [StopSignal] \<or> rest = Start # cs @ [StopSignal]"
    "callers tr = [] \<longleftrightarrow> rest = Start # cs @ [StopSignal]" using session_rest [OF assms(3,7)] by blast
  have "rest = cs @ [StopSignal] \<longrightarrow> callers tr \<noteq> []" using cs(1,3) by (cases cs) auto
  then have "running (eng s) = (rest = cs @ [StopSignal])" using flags cs(2,3) by blast
  from finish_rest [OF cs(2,1) t control _ this] flags obtain s1 where
    s1: "exec_labels rest s = Some s1" "in_stop s1" "terminated s1 = None" by blast
  note r1 = run_then [OF assms(6) s1(1)]
  note c1 = run_control [OF r1 stopped_control [OF assms(1)]]
  obtain n s2 where s2: "exec_labels (map Round (replicate n at_zero)) s1 = Some s2" "in_stop s2"
    "terminated s2 \<noteq> None \<or> terminated s2 = None \<and> matchingThread (eng s2) = finished"
    by (rule stop_drains [OF c1 s1(2,3)])
  have rounds: "pushed (map Round rs) = []" "callers (map Round rs) = []" for rs by (induction rs) simp_all
  note r2 = run_then [OF r1 s2(1), unfolded append_assoc]
  from safe [OF r2] have "terminated s2 = None" by (simp add: rounds del: map_replicate)
  with s2(2,3) obtain s3 where "sys_next StopJoin s2 = Some s3" by (auto simp: sys_next_def stop_join_def join_def)
  with r2 have "system_run (idle e) ((tr @ rest @ map Round (replicate n at_zero)) @ [StopJoin]) s3" by (rule system_run.step)
  moreover have "callers rest = rest" using cs(1,2)
  proof -
    have "callers cs = cs" using cs(1) by (induction cs) (auto simp: only_commands_def split: sys_label.splits)
    with cs(2) show ?thesis by auto
  qed
  ultimately have "engine_session calls (tr @ rest @ map Round (replicate n at_zero)) e = Some (eng s3)"
    using assms(7) by (simp add: engine_session_def system_run_iff rounds del: map_replicate)
  with t show ?thesis by blast
qed

end
