(* ===== verification/CrashRecovery.thy ===== *)
theory CrashRecovery
  imports DurableEngine EngineSession
begin

text \<open>
  What a process with an engine over a \<open>PostgresJournal\<close> leaves in the database when it dies, and what the
  next process recovers from it. The database is healthy throughout; the process may die between any two
  steps of any of its threads.
\<close>

section \<open>Starting on a database\<close>

abbreviation pg_engine ::
  "'d database \<Rightarrow> 'd surroundings \<Rightarrow> 'd pg_journal \<Rightarrow> (trade \<Rightarrow> 'u \<Rightarrow> 'u) option \<Rightarrow>
     ('s imarket_data_sink \<times> 's) option \<Rightarrow> 'u \<Rightarrow> ('d pg_journal, 's, 'u) engine" where
  "pg_engine D env j f k u \<equiv> plugged_engine (Some (PostgresJournal_vtable D env, j)) f k u"

text \<open>The tables hold the log of the commands \<open>cmds\<close>, or do not exist yet and \<open>cmds\<close> is empty.\<close>

definition holds_log :: "pg_tables \<Rightarrow> command list \<Rightarrow> bool" where
  "holds_log T cmds \<longleftrightarrow>
     (\<exists>evs trows. with_schema T = \<lparr>events_table = Some (map event_to_row evs), trades_table = Some trows\<rparr> \<and>
        journaled 0 cmds evs)"

lemma new_journal_tables:
  assumes "database_laws D tables" and "new_PostgresJournal D d = Inr j"
  shows "tables (database_state j) = with_schema (tables d) \<and> eventQueue j = [] \<and> tradeQueue j = [] \<and> writer j = Waiting"
proof -
  from assms(2) obtain d' where d': "db_txn D [create_events, create_trades] d = Returns d'" "database_state j = d'"
    "eventQueue j = []" "tradeQueue j = []" "writer j = Waiting" by (auto simp: new_PostgresJournal_def ensureSchema_def split: outcome.splits)
  with assms(1) have "sql_txn [create_events, create_trades] (tables d) = Some (tables d')" unfolding database_laws_def by blast
  with sql_schema d' show ?thesis by (metis option.inject)
qed

lemma new_journal:
  assumes "database_laws D tables" and "healthy D tables" and "holds_log (tables d) cmds"
  obtains j evs where "new_PostgresJournal D d = Inr j" "loadable tables evs j" "journaled 0 cmds evs"
    "journal_inv tables (length cmds) 0 j" "pg_log tables j = evs"
proof -
  from assms(3) obtain evs trows where T: "journaled 0 cmds evs"
    "with_schema (tables d) = \<lparr>events_table = Some (map event_to_row evs), trades_table = Some trows\<rparr>"
    by (auto simp: holds_log_def)
  obtain d' where d': "db_txn D [create_events, create_trades] d = Returns d'" "tables d' = with_schema (tables d)"
    by (rule healthyE [OF assms(2,1) sql_schema])
  let ?j = "\<lparr>database_state = d', eventQueue = [], tradeQueue = [], pg_stopping = False, enqueued = 0,
           done_count = 0, eventsWritten = 0, tradesWritten = 0, batchesCommitted = 0, writer = Waiting\<rparr>"
  have new: "new_PostgresJournal D d = Inr ?j" using d'(1) by (simp add: new_PostgresJournal_def ensureSchema_def)
  have l: "loadable tables evs ?j" using T d'(2) by (simp add: loadable_def)
  have "length evs = length cmds" using journaled_numbers [OF T(1)] by (metis length_map length_upt add_diff_cancel_left')
  with l T d'(2) on_disk_loadable [OF l] pg_new_counted [OF new] have "journal_inv tables (length cmds) 0 ?j"
    by (auto simp: journal_inv_def journal_ok_def)
  moreover have "pg_log tables ?j = evs" using on_disk_loadable [OF l] by (simp add: pg_log_def in_flight_def)
  ultimately show thesis using that new l T(1) by blast
qed

lemma new_journal_unique:
  assumes "database_laws D tables" and "healthy D tables" and "holds_log (tables d) cmds"
    and "new_PostgresJournal D d = Inr j"
  obtains evs where "loadable tables evs j" "journaled 0 cmds evs" "journal_inv tables (length cmds) 0 j"
    "pg_log tables j = evs"
  using new_journal [OF assms(1-3)] assms(4) by (metis sum.inject(2))

text \<open>Recovery from tables that hold the log of \<open>cmds\<close>.\<close>

lemma pg_recover:
  assumes "database_laws D tables" and "healthy D tables" and "holds_log (tables d) cmds"
    and "new_PostgresJournal D d = Inr j" and "applyCommands cmds blank = Inr st"
    and "\<forall>cmd \<in> set cmds. from_factory cmd" and "length cmds < 2 ^ 63"
  obtains e where "recover rds (pg_engine D env j f k u) = Returns e" "untimed_state e = st"
    "nextSeq e = seq_no (length cmds)" "durable_inv D env tables cmds [] (durable_start e)"
    "running e = False" "matchingThread e = not_joinable" "queue (incomingQueue e) = []"
proof -
  let ?e0 = "pg_engine D env j f k u" and ?J = "PostgresJournal_vtable D env"
  obtain evs where j: "loadable tables evs j" "journaled 0 cmds evs" "journal_inv tables (length cmds) 0 j"
    "pg_log tables j = evs" by (rule new_journal_unique [OF assms(1-4)])
  have "pg_loadAll D j = Inr evs"
    by (rule loadAll_loadable [OF assms(1,2) j(1) journaled_seq_ordered [OF j(2) assms(7)]])
  then have "journal_loadAll ?e0 = Inr evs" by (simp add: journal_loadAll_def PostgresJournal_vtable_def)
  from recover_refines [OF this untimed_state_plugged j(2) assms(6), of rds] assms(5,7)
  obtain e where e: "recover rds ?e0 = Returns e" "untimed_state e = st" "nextSeq e = seq_no (length cmds)"
    "journal e = Some (?J, j)" "incomingQueue e = new_queue" "running e = False" "matchingThread e = not_joinable"
    by auto
  with j assms(5) have "engine_sound ?J (pg_log tables) cmds e" by (simp add: engine_sound_def)
  with e j(3) have "durable_inv D env tables cmds [] (durable_start e)"
    by (auto simp: durable_inv_def durable_start_def system_sound_def Let_def)
  with e that show thesis by simp
qed

lemma pg_start:
  assumes "database_laws D tables" and "healthy D tables" and "holds_log (tables d) []"
    and "new_PostgresJournal D d = Inr j"
  shows "durable_inv D env tables [] [] (durable_start (pg_engine D env j f k u))"
proof -
  obtain evs where "journaled 0 [] evs" "journal_inv tables (length ([] :: command list)) 0 j" "pg_log tables j = evs"
    by (rule new_journal_unique [OF assms]) blast
  moreover have "applyCommands [] blank = Inr (untimed_state (pg_engine D env j f k u))" by simp
  ultimately show ?thesis
    by (auto simp: durable_inv_def durable_start_def system_sound_def engine_sound_def Let_def seq_no_def)
qed

section \<open>What is left after a crash\<close>

lemma journaled_prefix:
  "journaled k cmds (evs @ rest) \<Longrightarrow> \<exists>kept lost. cmds = kept @ lost \<and> journaled k kept evs \<and> length lost = length rest"
proof (induction cmds arbitrary: k evs)
  case Nil
  then show ?case by simp
next
  case (Cons cmd cmds)
  show ?case
  proof (cases evs)
    case Nil
    have "length (evs @ rest) = length (cmd # cmds)"
      using arg_cong [OF journaled_numbers [OF Cons.prems], of length] by simp
    with Nil show ?thesis by (intro exI [of _ "[]"] exI [of _ "cmd # cmds"]) simp
  next
    case evs: (Cons ev evs')
    with Cons.prems have "journaled (Suc k) cmds (evs' @ rest)" "commandEvent (ev_epochNanos ev) cmd (seq_no k) = Inr ev"
      by simp_all
    moreover obtain kept lost where "cmds = kept @ lost" "journaled (Suc k) kept evs'" "length lost = length rest"
      using Cons.IH [OF calculation(1)] by blast
    ultimately show ?thesis using evs by (intro exI [of _ "cmd # kept"] exI [of _ lost]) simp
  qed
qed

text \<open>A live process has on disk the log of its history and of a prefix of the commands it handled.\<close>

lemma left_on_disk:
  assumes "durable_inv D env tables h cs s" and "terminated (process s) = None" and "database_of s = Some d"
  obtains kept lost handled st where "cs = handled @ waiting (process s)" "handled = kept @ lost"
    "holds_log (tables d) (h @ kept)" "applyCommands (h @ kept) blank = Inr st"
    "applyCommands (h @ handled) blank = Inr (untimed_state (eng (process s)))"
    "nextSeq (eng (process s)) = seq_no (length (h @ handled))"
    "\<forall>j. journal (eng (process s)) = Some (PostgresJournal_vtable D env, j) \<longrightarrow> in_flight j = [] \<longrightarrow> eventQueue j = [] \<longrightarrow> lost = []"
proof -
  let ?p = "process s" and ?J = "PostgresJournal_vtable D env"
  from assms(1,2) obtain handled j n where i: "cs = handled @ waiting ?p" "engine_sound ?J (pg_log tables) (h @ handled) (eng ?p)"
    "journal (eng ?p) = Some (?J, j)" "journal_inv tables (length h) n j"
    by (auto simp: durable_inv_def system_sound_def Let_def)
  from i(2,3) have s: "applyCommands (h @ handled) blank = Inr (untimed_state (eng ?p))"
    "nextSeq (eng ?p) = seq_no (length (h @ handled))" "journaled 0 (h @ handled) (pg_log tables j)"
    by (auto simp: engine_sound_def)
  from i(4) obtain evs trows where d: "loadable tables evs j" "length h \<le> length evs"
    "trades_table (tables (database_state j)) = Some trows"
    using on_disk_loadable by (fastforce simp: journal_inv_def journal_ok_def)
  have "pg_log tables j = evs @ (in_flight j @ eventQueue j)" using on_disk_loadable [OF d(1)] by (simp add: pg_log_def)
  with s(3) journaled_prefix [of 0 "h @ handled" evs] obtain c1 c2 where c: "h @ handled = c1 @ c2" "journaled 0 c1 evs"
    "length c2 = length (in_flight j @ eventQueue j)" by metis
  have "length c1 = length evs" using arg_cong [OF journaled_numbers [OF c(2)], of length] by simp
  with c(1) d(2) obtain kept where kept: "c1 = h @ kept" "handled = kept @ c2"
    by (metis append_eq_append_conv_if append_take_drop_id same_append_eq append_assoc)
  have "holds_log (tables d) (h @ kept)"
    using assms(3) i(3) d(1,3) c(2) kept(1) by (auto simp: holds_log_def with_schema_def loadable_def database_of_def)
  moreover from s(1) kept have "applyCommands ((h @ kept) @ c2) blank = Inr (untimed_state (eng ?p))" by simp
  then obtain st where "applyCommands (h @ kept) blank = Inr st"
    unfolding applyCommands_append bindE_eq_Inr by blast
  moreover have "\<forall>j'. journal (eng ?p) = Some (?J, j') \<longrightarrow> in_flight j' = [] \<longrightarrow> eventQueue j' = [] \<longrightarrow> c2 = []"
    using i(3) c(3) by auto
  ultimately show thesis using that i(1) kept(2) s(1,2) by blast
qed

text \<open>When \<open>flush()\<close> has returned, everything that was handled is on disk.\<close>

lemma flushed_left_on_disk:
  assumes "durable_inv D env tables h cs s" and "durable_next D FlushReturn s = Some s'"
    and "length cs + length (tradeLog (eng (process s))) < 2 ^ 64"
  obtains handled d where "cs = handled @ waiting (process s')" "database_of s' = Some d"
    "holds_log (tables d) (h @ handled)" "applyCommands (h @ handled) blank = Inr (untimed_state (eng (process s')))"
    "nextSeq (eng (process s')) = seq_no (length (h @ handled))"
proof -
  let ?J = "PostgresJournal_vtable D env"
  from assms(1) obtain j n where i: "journal (eng (process s)) = Some (?J, j)" "journal_inv tables (length h) n j"
    "n + length (waiting (process s)) \<le> length cs + length (tradeLog (eng (process s)))"
    "\<And>target. flushing s = Some target \<Longrightarrow> target = enqueued j"
    by (auto simp: durable_inv_def Let_def)
  from assms(2) i(1,4) have f: "flush_returns (enqueued j) j" "s' = s\<lparr>process := (process s)\<lparr>in_stop := False\<rparr>, flushing := None\<rparr>"
    "terminated (process s) = None"
    by (auto simp: durable_next_def Let_def split: if_splits option.splits)
  have "n < 2 ^ 64" using i(3) assms(3) by simp
  note e = flushed_on_disk [OF i(2) this f(1)]
  have d: "database_of s = Some (database_state j)" using i(1) by (simp add: database_of_def)
  obtain kept lost handled st where "cs = handled @ waiting (process s)" "handled = kept @ lost"
    "holds_log (tables (database_state j)) (h @ kept)"
    "applyCommands (h @ handled) blank = Inr (untimed_state (eng (process s)))"
    "nextSeq (eng (process s)) = seq_no (length (h @ handled))"
    "\<forall>j. journal (eng (process s)) = Some (?J, j) \<longrightarrow> in_flight j = [] \<longrightarrow> eventQueue j = [] \<longrightarrow> lost = []"
    by (rule left_on_disk [OF assms(1) f(3) d])
  with e i(1) f(2) d that [of handled "database_state j"] show thesis by (simp add: database_of_def)
qed

section \<open>Sessions\<close>

text \<open>A process that starts the engine, makes the given calls and stops it, up to where \<open>stop()\<close> returns, in
  any interleaving with the matching thread and the writer.\<close>

definition session ::
  "'d database \<Rightarrow> ('d pg_journal, 's, 'u) engine \<Rightarrow> sys_label list \<Rightarrow> ('d, 's, 'u) durable \<Rightarrow> bool" where
  "session D e calls s \<longleftrightarrow>
     (\<exists>tr. durable_run D (durable_start e) (tr @ [FlushReturn]) s \<and> callers (sys_of tr) = Start # calls @ [StopSignal])"

definition durable_control :: "('d, 's, 'u) durable \<Rightarrow> bool" where
  "durable_control s \<longleftrightarrow>
     (let p = process s; e = eng p in
      if flushing s = None then control_inv p
      else in_stop p \<and> \<not> running e \<and> stopping (incomingQueue e) \<and> matchingThread e = not_joinable)"

lemma durable_control_step:
  assumes "durable_control s" and "durable_next D l s = Some s'"
  shows "durable_control s'"
proof (cases l)
  case (Sys l')
  with assms(2) obtain p where p: "l' \<noteq> StopJoin" "sys_next l' (process s) = Some p" "s' = s\<lparr>process := p\<rparr>"
    by (cases l') (auto simp: durable_next_def Let_def split: if_splits)
  show ?thesis
  proof (cases "flushing s")
    case None
    with assms(1) p step_control [of "process s" l' p] show ?thesis by (simp add: durable_control_def Let_def)
  next
    case (Some t)
    with assms(1) p show ?thesis
      by (cases l') (auto simp: durable_control_def Let_def sys_next_def submitOrder_def engine_cancelOrder_def
          matchingThread_step_def split: if_splits)
  qed
next
  case StopFlush
  with assms show ?thesis
    by (auto simp: durable_next_def durable_control_def Let_def control_inv_def join_def
        split: if_splits option.splits thread_state.splits)
next
  case FlushReturn
  with assms show ?thesis
    by (auto simp: durable_next_def durable_control_def Let_def control_inv_def split: if_splits option.splits)
next
  case Writer
  with assms show ?thesis
    by (auto simp: durable_next_def durable_control_def Let_def control_inv_def split: if_splits option.splits)
qed

lemma durable_control_run: "durable_run D s0 tr s \<Longrightarrow> durable_control s0 \<Longrightarrow> durable_control s"
  by (induction rule: durable_run.induct) (auto intro: durable_control_step)

lemma durable_quiet_step:
  assumes "stop_quiet (process s)" and "list_all is_quiet (sys_of [l])" and "durable_next D l s = Some s'"
  shows "stop_quiet (process s')"
proof (cases l)
  case (Sys l')
  with assms(3) obtain p where "sys_next l' (process s) = Some p" "s' = s\<lparr>process := p\<rparr>"
    by (cases l') (auto simp: durable_next_def Let_def split: if_splits)
  with Sys assms(1,2) show ?thesis by (auto intro: quiet_step)
qed (use assms in \<open>auto simp: durable_next_def Let_def stop_quiet_def join_def split: if_splits option.splits thread_state.splits\<close>)

lemma durable_quiet:
  "durable_run D s0 tr s \<Longrightarrow> durable_control s0 \<Longrightarrow> quiet_after_stop (sys_of tr) \<Longrightarrow> has_stop (sys_of tr) \<Longrightarrow>
     stop_quiet (process s)"
proof (induction rule: durable_run.induct)
  case (step s tr s' l s'')
  have q: "quiet_after_stop (sys_of tr)" "has_stop (sys_of tr) \<Longrightarrow> list_all is_quiet (sys_of [l])"
    using step.prems(2) by (cases l; simp add: quiet_append)+
  show ?case
  proof (cases "has_stop (sys_of tr)")
    case True
    with step q show ?thesis by (auto intro: durable_quiet_step)
  next
    case False
    with step.prems(3) obtain l' where "l = Sys l'" "has_stop [l']" by (cases l) simp_all
    then have l: "l = Sys StopSignal" by (cases l') simp_all
    with step.hyps(2) obtain p where p: "sys_next StopSignal (process s') = Some p" "s'' = s'\<lparr>process := p\<rparr>"
      by (auto simp: durable_next_def Let_def split: if_splits)
    have "durable_control s'" using durable_control_run step by blast
    with p(1) have "control_inv (process s')"
      by (auto simp: durable_control_def Let_def sys_next_def split: if_splits)
    with p stop_signal_quiet show ?thesis by simp
  qed
qed simp

text \<open>A session of an engine with the history \<open>h\<close> handles all its commands and has them on disk.\<close>

lemma session_sound:
  assumes "database_laws D tables" and "healthy D tables" and "durable_inv D env tables h [] (durable_start e)"
    and "running e = False" and "matchingThread e = not_joinable" and "session D e calls s" and "only_commands calls"
    and "length h + length calls < 2 ^ 63"
  shows "applyCommands (h @ pushed calls) blank = Inr (untimed_state (eng (process s)))"
    and "length calls + length (tradeLog (eng (process s))) < 2 ^ 64 \<Longrightarrow>
      \<exists>d. database_of s = Some d \<and> holds_log (tables d) (h @ pushed calls)"
    and "waiting (process s) = []"
proof -
  from assms(6) obtain tr where tr: "durable_run D (durable_start e) (tr @ [FlushReturn]) s"
    "callers (sys_of tr) = Start # calls @ [StopSignal]" by (auto simp: session_def)
  then obtain s1 where s1: "durable_run D (durable_start e) tr s1" "durable_next D FlushReturn s1 = Some s"
    by (cases rule: durable_run.cases) auto
  have p: "pushed (sys_of tr) = pushed calls" using callers_facts(1) [of "sys_of tr"] tr(2) by simp
  note l = only_commands_pushed [OF assms(7)]
  have q: "quiet_after_stop (sys_of tr)" "has_stop (sys_of tr)"
    using callers_quiet [of "sys_of tr"] callers_facts(2) [of "sys_of tr"] tr(2) only_commands_quiet [OF assms(7)] by simp_all
  have c: "durable_control (durable_start e)"
    using assms(4,5) by (simp add: durable_control_def durable_start_def control_inv_def Let_def)
  have inv: "durable_inv D env tables h (pushed calls) s1"
    using durable_run_inv [OF s1(1) assms(1-3)] assms(8) p l by simp
  then have "flushing s1 \<noteq> None \<Longrightarrow> matchingThread (eng (process s1)) = not_joinable"
    by (auto simp: durable_inv_def Let_def)
  with s1(2) durable_quiet [OF s1(1) c q] have w: "waiting (process s1) = []" "terminated (process s1) = None"
    "s = s1\<lparr>process := (process s1)\<lparr>in_stop := False\<rparr>, flushing := None\<rparr>"
    by (auto simp: durable_next_def Let_def stop_quiet_def split: if_splits option.splits)
  with inv show "applyCommands (h @ pushed calls) blank = Inr (untimed_state (eng (process s)))"
    by (auto simp: durable_inv_def system_sound_def engine_sound_def Let_def)
  show none_waits: "waiting (process s) = []" using w(1,3) by simp
  assume "length calls + length (tradeLog (eng (process s))) < 2 ^ 64"
  with w(3) l have "length (pushed calls) + length (tradeLog (eng (process s1))) < 2 ^ 64" by simp
  then obtain handled d where "pushed calls = handled @ waiting (process s)" "database_of s = Some d"
    "holds_log (tables d) (h @ handled)" by (rule flushed_left_on_disk [OF inv s1(2)])
  then show "\<exists>d. database_of s = Some d \<and> holds_log (tables d) (h @ pushed calls)" using none_waits by auto
qed

section \<open>Lifetimes of processes\<close>

text \<open>A process ends by a clean stop when the last thing that happened is that the \<open>flush()\<close> in \<open>stop()\<close>
  returned and nothing waits (a command pushed after the matching thread has ended would).\<close>

definition clean_stop :: "durable_label list \<Rightarrow> ('d, 's, 'u) durable \<Rightarrow> bool" where
  "clean_stop tr s \<longleftrightarrow> tr \<noteq> [] \<and> last tr = FlushReturn \<and> waiting (process s) = [] \<and>
     length (pushed (sys_of tr)) + length (tradeLog (eng (process s))) < 2 ^ 64"

text \<open>Then everything that was pushed was handled and is on disk.\<close>

lemma clean_stop_left:
  assumes "database_laws D tables" and "healthy D tables" and "durable_inv D env tables h [] s0"
    and "durable_run D s0 tr s" and "clean_stop tr s" and "length h + length (pushed (sys_of tr)) < 2 ^ 63"
  obtains d where "database_of s = Some d" "holds_log (tables d) (h @ pushed (sys_of tr))"
    "applyCommands (h @ pushed (sys_of tr)) blank = Inr (untimed_state (eng (process s)))" "terminated (process s) = None"
proof -
  from assms(5) have c: "tr \<noteq> []" "last tr = FlushReturn" "waiting (process s) = []"
    "length (pushed (sys_of tr)) + length (tradeLog (eng (process s))) < 2 ^ 64" by (simp_all add: clean_stop_def)
  from assms(4) c(1,2) obtain tr1 s1 where s1: "tr = tr1 @ [FlushReturn]" "durable_run D s0 tr1 s1"
    "durable_next D FlushReturn s1 = Some s" by (cases rule: durable_run.cases) auto
  then have p: "pushed (sys_of tr) = pushed (sys_of tr1)" by simp
  have inv: "durable_inv D env tables h (pushed (sys_of tr1)) s1"
    using durable_run_inv [OF s1(2) assms(1-3)] assms(6) p by simp
  have same: "tradeLog (eng (process s1)) = tradeLog (eng (process s))" "terminated (process s) = None"
    using s1(3) by (auto simp: durable_next_def Let_def split: if_splits option.splits)
  have "length (pushed (sys_of tr1)) + length (tradeLog (eng (process s1))) < 2 ^ 64" using c(4) p same(1) by simp
  then obtain handled d where "pushed (sys_of tr1) = handled @ waiting (process s)" "database_of s = Some d"
    "holds_log (tables d) (h @ handled)" "applyCommands (h @ handled) blank = Inr (untimed_state (eng (process s)))"
    by (rule flushed_left_on_disk [OF inv s1(3)])
  with that c(3) p same(2) show thesis by simp
qed

text \<open>The same program started again and again on the same database: every process recovers, runs for a
  while and dies between two steps. \<open>runs\<close> has for each process the commands that were pushed and whether it
  was stopped cleanly, and the last argument is the database that is left.\<close>

inductive lifetimes ::
  "'d database \<Rightarrow> 'd surroundings \<Rightarrow> (trade \<Rightarrow> 'u \<Rightarrow> 'u) option \<Rightarrow> ('s imarket_data_sink \<times> 's) option \<Rightarrow> 'u \<Rightarrow>
     'd \<Rightarrow> (command list \<times> bool) list \<Rightarrow> 'd \<Rightarrow> bool"
  for D env f k u d0 where
  first: "lifetimes D env f k u d0 [] d0"
| again: "lifetimes D env f k u d0 runs d \<Longrightarrow> new_PostgresJournal D d = Inr j \<Longrightarrow>
     recover rds (pg_engine D env j f k u) = Returns e \<Longrightarrow> durable_run D (durable_start e) tr s \<Longrightarrow>
     terminated (process s) = None \<Longrightarrow> database_of s = Some d' \<Longrightarrow>
     lifetimes D env f k u d0 (runs @ [(pushed (sys_of tr), clean_stop tr s)]) d'"

text \<open>What is kept of a process: a prefix of its commands, and all of them after a clean stop.\<close>

definition survives :: "command list \<Rightarrow> command list \<times> bool \<Rightarrow> bool" where
  "survives kept run \<longleftrightarrow> prefix kept (fst run) \<and> (snd run \<longrightarrow> kept = fst run)"

lemma survivors_subseq: "list_all2 survives kepts runs \<Longrightarrow> subseq (concat kepts) (concat (map fst runs))"
proof (induction rule: list_all2_induct)
  case (Cons kept kepts run runs)
  then have "subseq kept (fst run)" by (simp add: survives_def prefix_imp_subseq)
  with Cons.IH show ?case by (simp add: list_emb_append_mono)
qed simp

lemma subseq_all:
  assumes "subseq xs ys" and "\<forall>y \<in> set ys. P y"
  shows "\<forall>x \<in> set xs. P x"
  using list_emb_set [OF assms(1)] assms(2) by metis

text \<open>What one more process adds to a database with the log of \<open>hist\<close>.\<close>

lemma process_survives:
  assumes "database_laws D tables" and "healthy D tables" and "durable_inv D env tables hist [] (durable_start e)"
    and "durable_run D (durable_start e) tr s" and "terminated (process s) = None" and "database_of s = Some d'"
    and "length hist + length (pushed (sys_of tr)) < 2 ^ 63"
  shows "\<exists>kept st. survives kept (pushed (sys_of tr), clean_stop tr s) \<and> holds_log (tables d') (hist @ kept) \<and>
    applyCommands (hist @ kept) blank = Inr st"
proof (cases "clean_stop tr s")
  case True
  then have "tr \<noteq> []" "last tr = FlushReturn" by (simp_all add: clean_stop_def)
  then have tr: "tr = butlast tr @ [FlushReturn]" by (metis append_butlast_last_id)
  with assms(4) obtain s1 where s1: "durable_run D (durable_start e) (butlast tr) s1" "durable_next D FlushReturn s1 = Some s"
    by (cases rule: durable_run.cases) auto
  have p: "pushed (sys_of (butlast tr)) = pushed (sys_of tr)" by (subst (2) tr) (simp add: sys_of_append)
  have inv: "durable_inv D env tables hist (pushed (sys_of tr)) s1"
    using durable_run_inv [OF s1(1) assms(1-3)] assms(7) p by simp
  have "tradeLog (eng (process s1)) = tradeLog (eng (process s))"
    using s1(2) by (auto simp: durable_next_def Let_def split: if_splits option.splits)
  with True have n: "length (pushed (sys_of tr)) + length (tradeLog (eng (process s1))) < 2 ^ 64" "waiting (process s) = []"
    by (simp_all add: clean_stop_def)
  obtain handled d where "pushed (sys_of tr) = handled @ waiting (process s)" "database_of s = Some d"
    "holds_log (tables d) (hist @ handled)" "applyCommands (hist @ handled) blank = Inr (untimed_state (eng (process s)))"
    by (rule flushed_left_on_disk [OF inv s1(2) n(1)])
  with n(2) assms(6) show ?thesis by (auto simp: survives_def)
next
  case False
  have "durable_inv D env tables hist (pushed (sys_of tr)) s"
    using durable_run_inv [OF assms(4,1-3)] assms(7) by simp
  then obtain kept lost handled st where "pushed (sys_of tr) = handled @ waiting (process s)" "handled = kept @ lost"
    "holds_log (tables d') (hist @ kept)" "applyCommands (hist @ kept) blank = Inr st"
    by (rule left_on_disk [OF _ assms(5,6)])
  with False show ?thesis by (intro exI [of _ kept] exI [of _ st]) (simp add: survives_def)
qed

lemma lifetimes_log:
  assumes "lifetimes D env f k u d0 runs d" and "database_laws D tables" and "healthy D tables"
    and "holds_log (tables d0) []" and "\<forall>cmd \<in> set (concat (map fst runs)). from_factory cmd"
    and "length (concat (map fst runs)) < 2 ^ 63"
  shows "\<exists>kepts st. list_all2 survives kepts runs \<and> holds_log (tables d) (concat kepts) \<and>
    applyCommands (concat kepts) blank = Inr st"
  using assms
proof (induction rule: lifetimes.induct)
  case first
  then show ?case by (intro exI [of _ "[]"]) simp
next
  case (again runs d j rds e tr s d')
  let ?cs = "pushed (sys_of tr)"
  from again.IH again.prems obtain kepts st where h: "list_all2 survives kepts runs" "holds_log (tables d) (concat kepts)"
    "applyCommands (concat kepts) blank = Inr st" by auto
  note sub = survivors_subseq [OF h(1)]
  have "length (concat kepts) \<le> length (concat (map fst runs))" by (rule list_emb_length [OF sub])
  with again.prems(5) have l: "length (concat kepts) < 2 ^ 63" "length (concat kepts) + length ?cs < 2 ^ 63" by simp_all
  have f: "\<forall>cmd \<in> set (concat kepts). from_factory cmd" using again.prems(4) by (intro subseq_all [OF sub]) simp
  have "durable_inv D env tables (concat kepts) [] (durable_start e)"
    using pg_recover [OF again.prems(1,2) h(2) again.hyps(2) h(3) f l(1)] again.hyps(3) by (metis outcome.inject(1))
  from process_survives [OF again.prems(1,2) this again.hyps(4-6) l(2)] obtain kept st' where
    "survives kept (?cs, clean_stop tr s)" "holds_log (tables d') (concat kepts @ kept)"
    "applyCommands (concat kepts @ kept) blank = Inr st'" by blast
  with h(1) show ?case by (intro exI [of _ "kepts @ [kept]"]) (auto intro: list_all2_appendI)
qed

section \<open>Samples\<close>

text \<open>A process that dies with one event stored and one still queued, and one that has stopped.\<close>

definition sample_crash :: "durable_label list" where
  "sample_crash =
     [Sys Start, Sys (Submit (Some (limit_order 1 SELL 10 100))), Sys (Round at_zero), Writer, Writer,
      Sys (Submit (Some (limit_order 2 BUY 4 101))), Sys (Round at_zero), Sys (Cancel 1)]"

definition sample_stop :: "durable_label list" where
  "sample_stop =
     [Sys Start, Sys (Submit (Some (limit_order 1 SELL 10 100))), Sys (Submit (Some (limit_order 2 BUY 4 101))),
      Sys StopSignal, Sys (Round at_zero), Sys (Round at_zero), Writer, Sys (Round at_zero), StopFlush, Writer, Writer]"

abbreviation sample_process :: "(pg_tables, unit, unit) durable" where
  "sample_process \<equiv> durable_start (pg_engine good_db (\<lambda>_. (0, 0)) sample_journal None None ())"

lemma sample_holds_log: "holds_log empty_tables []"
  by (auto simp: holds_log_def with_schema_def empty_tables_def)

lemma sample_factory:
  "\<forall>cmd \<in> set (pushed (sys_of sample_crash)). from_factory cmd" "\<forall>cmd \<in> set (pushed (sys_of sample_stop)). from_factory cmd"
  "length (pushed (sys_of sample_crash)) = 3" "length (pushed (sys_of sample_stop)) = 2"
  by (simp_all add: sample_crash_def sample_stop_def from_factory_def Command_submit_def Command_cancel_def fresh_limit_order)

section \<open>Properties\<close>







end
