(* ===== verification/RedisMarketData.thy ===== *)
theory RedisMarketData
  imports Journal "HOL-Library.Sublist"
begin

text \<open>
  \<open>persistence/RedisMarketData.h\<close> and \<open>persistence/RedisMarketData.cpp\<close>: the market-data sink that a
  background publisher sends to Redis in pipelined batches.

  The network and the server, reached through hiredis, are not part of the program: \<open>network\<close> says what the
  library calls of one round return (a reconnect, a connect, how many replies arrive and how many of the
  commands the server has executed by then), and is an argument of the round. The server is a parameter:
  \<open>exec\<close> applies one command to its state, and \<open>redis_laws\<close> states the documented effect of the commands on
  what \<open>GET\<close> returns.

  The publisher's loop is split where it holds no lock: taking everything that is queued, and sending it.
\<close>

section \<open>Numbers as strings\<close>

text \<open>\<open>std::to_string\<close>: decimal digits for integers, and \<open>%f\<close> for a double, that is six decimals of the
  nearest value, ties to even.\<close>

function digits :: "int \<Rightarrow> string" where
  "digits n = (if n < 10 then [char_of (48 + n)] else digits (n div 10) @ [char_of (48 + n mod 10)])"
  by pat_completeness auto
termination by (relation "measure nat") auto

fun padded :: "nat \<Rightarrow> int \<Rightarrow> string" where
  "padded 0 n = []"
| "padded (Suc k) n = padded k (n div 10) @ [char_of (48 + n mod 10)]"

definition num_int :: "int \<Rightarrow> string" where
  "num_int v = (if v < 0 then CHR ''-'' # digits (- v) else digits v)"

definition num_uint64 :: "64 word \<Rightarrow> string" where
  "num_uint64 v = digits (uint v)"

definition half_even :: "rat \<Rightarrow> int" where
  "half_even x =
     (let f = \<lfloor>x\<rfloor>; r = x - of_int f
      in if r < 1 / 2 \<or> r = 1 / 2 \<and> even f then f else f + 1)"

fun num_double :: "double \<Rightarrow> string" where
  "num_double (Finite x) =
     (let n = half_even (\<bar>x\<bar> * 1000000)
      in (if x < 0 then ''-'' else '''') @ digits (n div 1000000) @ ''.'' @ padded 6 n)"
| "num_double PosInf = ''inf''"
| "num_double NegInf = ''-inf''"
| "num_double NaN = ''nan''"

section \<open>Messages and state\<close>

datatype msg_kind = TRADE | BOOK

record msg =
  msg_kind :: msg_kind
  buyId :: "64 word"
  sellId :: "64 word"
  msg_price :: double
  msg_quantity :: int
  epochNanos :: int
  hasBid :: bool
  hasAsk :: bool
  bid :: double
  ask :: double

definition Msg :: "msg_kind \<Rightarrow> msg" where
  "Msg k = \<lparr>msg_kind = k, buyId = 0, sellId = 0, msg_price = dzero, msg_quantity = 0, epochNanos = 0,
            hasBid = False, hasAsk = False, bid = dzero, ask = dzero\<rparr>"

text \<open>A \<open>redisContext*\<close>: null, or a context that is usable or has an error.\<close>

datatype redis_context = no_context | connected | broken

datatype redis_command = PUBLISH string string | SET string string | DEL string | INCR string

datatype publisher_pc = Waiting | Sending "msg list" | Exited

record 'r redis_sink =
  ctx :: redis_context
  msg_queue :: "msg list"
  redis_stopping :: bool
  commandsSent :: "64 word"
  publisher :: publisher_pc
  server :: 'r

record network =
  reconnect_works :: bool
  connect_gives :: redis_context
  replies :: nat
  executed :: nat

section \<open>Operations\<close>

definition ensureConnected :: "network \<Rightarrow> redis_context \<Rightarrow> bool \<times> redis_context" where
  "ensureConnected net c =
     (if c = connected then (True, c)
      else if c = broken \<and> reconnect_works net then (True, connected)
      else (connect_gives net = connected, connect_gives net))"

definition new_RedisMarketData :: "network \<Rightarrow> 'r \<Rightarrow> 'r redis_sink result" where
  "new_RedisMarketData net r =
     (let (ok, c) = ensureConnected net no_context in
      if \<not> ok then Inl (runtime_error ''RedisMarketData: cannot connect to Redis'')
      else Inr \<lparr>ctx = c, msg_queue = [], redis_stopping = False, commandsSent = 0, publisher = Waiting,
                server = r\<rparr>)"

definition trade_msg :: "int \<Rightarrow> trade \<Rightarrow> msg" where
  "trade_msg now t =
     (Msg TRADE)\<lparr>buyId := buyOrderId t, sellId := sellOrderId t, msg_price := price t,
        msg_quantity := quantity t, epochNanos := now\<rparr>"

definition book_msg :: "bool \<Rightarrow> double \<Rightarrow> bool \<Rightarrow> double \<Rightarrow> msg" where
  "book_msg hb b ha a = (Msg BOOK)\<lparr>hasBid := hb, hasAsk := ha, bid := b, ask := a\<rparr>"

definition redis_onTrade :: "int \<Rightarrow> trade \<Rightarrow> 'r redis_sink \<Rightarrow> 'r redis_sink" where
  "redis_onTrade now t s = s\<lparr>msg_queue := msg_queue s @ [trade_msg now t]\<rparr>"

definition redis_onTopOfBook :: "bool \<Rightarrow> double \<Rightarrow> bool \<Rightarrow> double \<Rightarrow> 'r redis_sink \<Rightarrow> 'r redis_sink" where
  "redis_onTopOfBook hb b ha a s = s\<lparr>msg_queue := msg_queue s @ [book_msg hb b ha a]\<rparr>"

definition payload :: "msg \<Rightarrow> string" where
  "payload m =
     num_uint64 (buyId m) @ '','' @ num_uint64 (sellId m) @ '','' @ num_double (msg_price m) @ '','' @
     num_int (msg_quantity m) @ '','' @ num_int (epochNanos m)"

text \<open>The three commands that one message appends to the pipeline.\<close>

definition commands_of :: "msg \<Rightarrow> redis_command list" where
  "commands_of m =
     (if msg_kind m = TRADE then
        [PUBLISH ''md:trades'' (payload m), SET ''md:last_price'' (num_double (msg_price m)),
         INCR ''md:trade_count'']
      else
        [if hasBid m then SET ''md:best_bid'' (num_double (bid m)) else DEL ''md:best_bid'',
         if hasAsk m then SET ''md:best_ask'' (num_double (ask m)) else DEL ''md:best_ask'',
         PUBLISH ''md:book'' ((if hasBid m then num_double (bid m) else ''-'') @ '','' @
           (if hasAsk m then num_double (ask m) else ''-''))])"

definition pipeline :: "msg list \<Rightarrow> redis_command list" where
  "pipeline batch = concat (map commands_of batch)"

definition publisher_take :: "'r redis_sink \<Rightarrow> 'r redis_sink option" where
  "publisher_take s =
     (if msg_queue s = [] \<and> \<not> redis_stopping s then None
      else if redis_stopping s \<and> msg_queue s = [] then Some (s\<lparr>publisher := Exited\<rparr>)
      else Some (s\<lparr>msg_queue := [], publisher := Sending (msg_queue s)\<rparr>))"

text \<open>The rest of a round. The server has executed the first \<open>executed\<close> commands, at least those whose
  replies arrived, and all of them when no reply is missing.\<close>

definition publisher_send ::
  "(redis_command \<Rightarrow> 'r \<Rightarrow> 'r) \<Rightarrow> network \<Rightarrow> msg list \<Rightarrow> 'r redis_sink \<Rightarrow> 'r redis_sink" where
  "publisher_send exec net batch s =
     (let (ok, c) = ensureConnected net (ctx s) in
      if \<not> ok then s\<lparr>ctx := c, publisher := Waiting\<rparr>
      else
        let cmds = pipeline batch; pipelined = length cmds in
        if replies net < pipelined then
          s\<lparr>ctx := broken, server := fold exec (take (max (replies net) (executed net)) cmds) (server s),
            publisher := Waiting\<rparr>
        else
          s\<lparr>ctx := c, server := fold exec cmds (server s),
            commandsSent := commandsSent s + word_of_nat pipelined, publisher := Waiting\<rparr>)"

definition publisher_step ::
  "(redis_command \<Rightarrow> 'r \<Rightarrow> 'r) \<Rightarrow> network \<Rightarrow> 'r redis_sink \<Rightarrow> 'r redis_sink option" where
  "publisher_step exec net s =
     (case publisher s of
        Waiting \<Rightarrow> publisher_take s
      | Sending batch \<Rightarrow> Some (publisher_send exec net batch s)
      | Exited \<Rightarrow> None)"

definition redis_destroy_signal :: "'r redis_sink \<Rightarrow> 'r redis_sink" where
  "redis_destroy_signal s = s\<lparr>redis_stopping := True\<rparr>"

definition redis_destroy_join :: "'r redis_sink \<Rightarrow> 'r redis_sink option" where
  "redis_destroy_join s = (if publisher s = Exited then Some (s\<lparr>ctx := no_context\<rparr>) else None)"

section \<open>Runs\<close>

datatype redis_label = OnTrade int trade | OnTopOfBook bool double bool double | Publisher network | Destroy | Join

definition redis_next ::
  "(redis_command \<Rightarrow> 'r \<Rightarrow> 'r) \<Rightarrow> redis_label \<Rightarrow> 'r redis_sink \<Rightarrow> 'r redis_sink option" where
  "redis_next exec l s =
     (case l of
        OnTrade now t \<Rightarrow> Some (redis_onTrade now t s)
      | OnTopOfBook hb b ha a \<Rightarrow> Some (redis_onTopOfBook hb b ha a s)
      | Publisher net \<Rightarrow> publisher_step exec net s
      | Destroy \<Rightarrow> Some (redis_destroy_signal s)
      | Join \<Rightarrow> redis_destroy_join s)"

inductive redis_run ::
  "(redis_command \<Rightarrow> 'r \<Rightarrow> 'r) \<Rightarrow> 'r redis_sink \<Rightarrow> redis_label list \<Rightarrow> 'r redis_sink \<Rightarrow> bool" for exec where
  none: "redis_run exec s [] s"
| step: "redis_run exec s tr s' \<Longrightarrow> redis_next exec l s' = Some s'' \<Longrightarrow> redis_run exec s (tr @ [l]) s''"

fun redis_exec :: "(redis_command \<Rightarrow> 'r \<Rightarrow> 'r) \<Rightarrow> redis_label list \<Rightarrow> 'r redis_sink \<Rightarrow> 'r redis_sink option" where
  "redis_exec exec [] s = Some s"
| "redis_exec exec (l # ls) s = (case redis_next exec l s of None \<Rightarrow> None | Some s' \<Rightarrow> redis_exec exec ls s')"

lemma redis_exec_append:
  "redis_exec exec (ls @ ls') s = (case redis_exec exec ls s of None \<Rightarrow> None | Some s' \<Rightarrow> redis_exec exec ls' s')"
  by (induction ls arbitrary: s) (auto split: option.splits)

lemma redis_run_iff: "redis_run exec s tr s' \<longleftrightarrow> redis_exec exec tr s = Some s'"
proof
  show "redis_run exec s tr s' \<Longrightarrow> redis_exec exec tr s = Some s'"
    by (induction rule: redis_run.induct) (simp_all add: redis_exec_append)
  show "redis_exec exec tr s = Some s' \<Longrightarrow> redis_run exec s tr s'"
    by (induction tr arbitrary: s' rule: rev_induct)
      (auto simp: redis_exec_append intro: redis_run.intros split: option.splits)
qed

text \<open>The messages of the calls of a run, in order.\<close>

fun messages :: "redis_label list \<Rightarrow> msg list" where
  "messages [] = []"
| "messages (OnTrade now t # ls) = trade_msg now t # messages ls"
| "messages (OnTopOfBook hb b ha a # ls) = book_msg hb b ha a # messages ls"
| "messages (_ # ls) = messages ls"

section \<open>The server\<close>

definition redis_laws :: "(redis_command \<Rightarrow> 'r \<Rightarrow> 'r) \<Rightarrow> ('r \<Rightarrow> string \<Rightarrow> string option) \<Rightarrow> bool" where
  "redis_laws exec get \<longleftrightarrow>
     (\<forall>k v r. get (exec (SET k v) r) = (get r)(k \<mapsto> v)) \<and>
     (\<forall>k r. get (exec (DEL k) r) = (get r)(k := None)) \<and>
     (\<forall>c v r. get (exec (PUBLISH c v) r) = get r) \<and>
     (\<forall>k k' r. k' = k \<or> get (exec (INCR k) r) k' = get r k')"

text \<open>What the cached keys hold after the messages: the last top of book and the last trade price.\<close>

fun cached_bid :: "msg list \<Rightarrow> string option \<Rightarrow> string option" where
  "cached_bid [] old = old"
| "cached_bid (m # ms) old =
     cached_bid ms (if msg_kind m = BOOK then (if hasBid m then Some (num_double (bid m)) else None) else old)"

fun cached_ask :: "msg list \<Rightarrow> string option \<Rightarrow> string option" where
  "cached_ask [] old = old"
| "cached_ask (m # ms) old =
     cached_ask ms (if msg_kind m = BOOK then (if hasAsk m then Some (num_double (ask m)) else None) else old)"

fun cached_price :: "msg list \<Rightarrow> string option \<Rightarrow> string option" where
  "cached_price [] old = old"
| "cached_price (m # ms) old =
     cached_price ms (if msg_kind m = TRADE then Some (num_double (msg_price m)) else old)"

section \<open>Lemmas\<close>

lemma length_pipeline: "length (pipeline batch) = 3 * length batch"
  by (induction batch) (simp_all add: pipeline_def commands_of_def)

lemma exec_message:
  assumes "redis_laws exec get"
  shows "get (fold exec (commands_of m) r) ''md:best_bid'' = cached_bid [m] (get r ''md:best_bid'')"
    "get (fold exec (commands_of m) r) ''md:best_ask'' = cached_ask [m] (get r ''md:best_ask'')"
    "get (fold exec (commands_of m) r) ''md:last_price'' = cached_price [m] (get r ''md:last_price'')"
proof -
  from assms have L: "get (exec (SET k v) r) = (get r)(k \<mapsto> v)" "get (exec (DEL k) r) = (get r)(k := None)"
    "get (exec (PUBLISH c v) r) = get r" "k' \<noteq> k \<Longrightarrow> get (exec (INCR k) r) k' = get r k'" for k k' c v r
    unfolding redis_laws_def by blast+
  show "get (fold exec (commands_of m) r) ''md:best_bid'' = cached_bid [m] (get r ''md:best_bid'')"
    "get (fold exec (commands_of m) r) ''md:best_ask'' = cached_ask [m] (get r ''md:best_ask'')"
    "get (fold exec (commands_of m) r) ''md:last_price'' = cached_price [m] (get r ''md:last_price'')"
    by (cases "msg_kind m"; simp add: commands_of_def L)+
qed

lemma exec_pipeline:
  assumes "redis_laws exec get"
  shows "get (fold exec (pipeline ms) r) ''md:best_bid'' = cached_bid ms (get r ''md:best_bid'')"
    "get (fold exec (pipeline ms) r) ''md:best_ask'' = cached_ask ms (get r ''md:best_ask'')"
    "get (fold exec (pipeline ms) r) ''md:last_price'' = cached_price ms (get r ''md:last_price'')"
  by (induction ms arbitrary: r) (simp_all add: pipeline_def exec_message [OF assms])

lemma messages_append [simp]: "messages (tr @ tr') = messages tr @ messages tr'"
  by (induction tr rule: messages.induct) simp_all

lemma pipeline_append [simp]: "pipeline (ms @ ms') = pipeline ms @ pipeline ms'"
  by (simp add: pipeline_def)

definition in_flight :: "'r redis_sink \<Rightarrow> msg list" where
  "in_flight s = (case publisher s of Sending batch \<Rightarrow> batch | _ \<Rightarrow> [])"

text \<open>The messages of the calls so far are those taken care of, the batch being sent and the queued ones.\<close>

definition redis_inv ::
  "(msg list \<Rightarrow> 'r \<Rightarrow> bool) \<Rightarrow> msg list \<Rightarrow> 'r redis_sink \<Rightarrow> bool" where
  "redis_inv P ms s \<longleftrightarrow> (\<exists>taken. ms = taken @ in_flight s @ msg_queue s \<and> P taken (server s))"

lemma redis_next_inv:
  assumes "redis_inv P ms s" and "redis_next exec l s = Some s'"
    and "\<And>taken net batch. l = Publisher net \<Longrightarrow> publisher s = Sending batch \<Longrightarrow> P taken (server s) \<Longrightarrow>
      ms = taken @ batch @ msg_queue s \<Longrightarrow> P (taken @ batch) (server (publisher_send exec net batch s))"
  shows "redis_inv P (ms @ messages [l]) s'"
proof -
  from assms(1) obtain taken where t: "ms = taken @ in_flight s @ msg_queue s" "P taken (server s)"
    by (auto simp: redis_inv_def)
  show ?thesis
  proof (cases l)
    case (Publisher net)
    show ?thesis
    proof (cases "publisher s")
      case Waiting
      with Publisher assms(2) t show ?thesis
        by (auto simp: redis_next_def publisher_step_def publisher_take_def redis_inv_def in_flight_def split: if_splits)
    next
      case (Sending batch)
      then have P: "P (taken @ batch) (server (publisher_send exec net batch s))"
        using assms(3) [OF Publisher Sending t(2)] t(1) by (simp add: in_flight_def)
      have "publisher (publisher_send exec net batch s) = Waiting" "msg_queue (publisher_send exec net batch s) = msg_queue s"
        by (simp_all add: publisher_send_def Let_def split: prod.split)
      with P Sending Publisher assms(2) t(1) show ?thesis
        by (auto simp: redis_next_def publisher_step_def redis_inv_def in_flight_def)
    next
      case Exited
      with Publisher assms(2) show ?thesis by (simp add: redis_next_def publisher_step_def)
    qed
  qed (use assms(2) t in \<open>auto simp: redis_next_def redis_onTrade_def redis_onTopOfBook_def redis_destroy_signal_def
      redis_destroy_join_def redis_inv_def in_flight_def split: publisher_pc.splits if_splits\<close>)
qed

lemma send_server:
  "server (publisher_send exec net batch s) =
     (if fst (ensureConnected net (ctx s)) then
        fold exec (if replies net < 3 * length batch then take (max (replies net) (executed net)) (pipeline batch)
                   else pipeline batch) (server s)
      else server s)"
  by (simp add: publisher_send_def Let_def length_pipeline split: prod.split)

definition applied_in_order :: "(redis_command \<Rightarrow> 'r \<Rightarrow> 'r) \<Rightarrow> 'r \<Rightarrow> msg list \<Rightarrow> 'r \<Rightarrow> bool" where
  "applied_in_order exec r0 taken r \<longleftrightarrow> (\<exists>cs. subseq cs (pipeline taken) \<and> r = fold exec cs r0)"

lemma send_in_order:
  assumes "applied_in_order exec r0 taken (server s)"
  shows "applied_in_order exec r0 (taken @ batch) (server (publisher_send exec net batch s))"
proof -
  from assms obtain cs where cs: "subseq cs (pipeline taken)" "server s = fold exec cs r0"
    by (auto simp: applied_in_order_def)
  obtain k where k: "server (publisher_send exec net batch s) = fold exec (take k (pipeline batch)) (server s)"
  proof (cases "fst (ensureConnected net (ctx s))")
    case False
    then show thesis using that [of 0] by (simp add: send_server)
  next
    case True
    then show thesis
      using that [of "if replies net < 3 * length batch then max (replies net) (executed net) else 3 * length batch"]
      by (simp add: send_server length_pipeline)
  qed
  have "subseq (take k (pipeline batch)) (pipeline batch)"
    by (metis append_take_drop_id list_emb_append2 subseq_order.refl subseq_rev_drop_many)
  with cs k show ?thesis
    unfolding applied_in_order_def
    by (intro exI [of _ "cs @ take k (pipeline batch)"]) (simp add: list_emb_append_mono)
qed

lemma redis_run_in_order:
  "redis_run exec s0 tr s \<Longrightarrow> msg_queue s0 = [] \<Longrightarrow> publisher s0 = Waiting \<Longrightarrow>
     redis_inv (applied_in_order exec (server s0)) (messages tr) s"
proof (induction rule: redis_run.induct)
  case (none s)
  then show ?case by (auto simp: redis_inv_def in_flight_def applied_in_order_def)
next
  case (step s tr s' l s'')
  from step.IH [OF step.prems] have "redis_inv (applied_in_order exec (server s)) (messages tr @ messages [l]) s''"
    by (rule redis_next_inv [OF _ step.hyps(2)]) (rule send_in_order)
  then show ?case by simp
qed

text \<open>A network on which every connect works and every reply arrives.\<close>

definition healthy :: "nat \<Rightarrow> network \<Rightarrow> bool" where
  "healthy n net \<longleftrightarrow> connect_gives net = connected \<and> 3 * n \<le> replies net"

text \<open>Then the server has executed all commands of the messages that were taken care of.\<close>

definition sent_all :: "(redis_command \<Rightarrow> 'r \<Rightarrow> 'r) \<Rightarrow> 'r \<Rightarrow> msg list \<Rightarrow> 'r \<Rightarrow> bool" where
  "sent_all exec r0 taken r \<longleftrightarrow> r = fold exec (pipeline taken) r0"

lemma healthy_next:
  assumes "redis_inv (sent_all exec r0) ms s" and "redis_next exec l s = Some s'"
    and "\<And>net. l = Publisher net \<Longrightarrow> healthy n net" and "length ms \<le> n"
  shows "redis_inv (sent_all exec r0) (ms @ messages [l]) s'"
proof (rule redis_next_inv [OF assms(1,2)])
  fix taken net batch
  assume a: "l = Publisher net" "publisher s = Sending batch" "sent_all exec r0 taken (server s)"
    "ms = taken @ batch @ msg_queue s"
  from assms(3) [OF a(1)] assms(4) a(4) have "\<not> replies net < 3 * length batch" "fst (ensureConnected net (ctx s))"
    by (auto simp: healthy_def ensureConnected_def)
  with a(3) show "sent_all exec r0 (taken @ batch) (server (publisher_send exec net batch s))"
    by (simp add: send_server sent_all_def)
qed

lemma sent_all_new: "msg_queue s0 = [] \<Longrightarrow> publisher s0 = Waiting \<Longrightarrow> redis_inv (sent_all exec (server s0)) [] s0"
  by (auto simp: redis_inv_def in_flight_def pipeline_def sent_all_def)

lemma redis_run_healthy:
  assumes "redis_run exec s0 tr s" and "msg_queue s0 = []" and "publisher s0 = Waiting"
    and "\<forall>net. Publisher net \<in> set tr \<longrightarrow> healthy n net" and "length (messages tr) \<le> n"
  shows "redis_inv (sent_all exec (server s0)) (messages tr) s"
  using assms
proof (induction rule: redis_run.induct)
  case (none s)
  then show ?case by (simp add: sent_all_new)
next
  case (step s tr s' l s'')
  have "redis_inv (sent_all exec (server s)) (messages tr) s'" using step.prems by (intro step.IH) auto
  from healthy_next [OF this step.hyps(2), of n] step.prems(3,4) show ?case by simp
qed

text \<open>A server that is a map from keys to values, and a run on it.\<close>

fun map_server :: "redis_command \<Rightarrow> (string \<Rightarrow> string option) \<Rightarrow> string \<Rightarrow> string option" where
  "map_server (SET k v) r = r(k \<mapsto> v)"
| "map_server (DEL k) r = r(k := None)"
| "map_server (PUBLISH c v) r = r"
| "map_server (INCR k) r = r(k \<mapsto> ''1'')"

definition good_network :: network where
  "good_network = \<lparr>reconnect_works = True, connect_gives = connected, replies = 100, executed = 100\<rparr>"

definition sample_sink :: "(string \<Rightarrow> string option) redis_sink" where
  "sample_sink = \<lparr>ctx = connected, msg_queue = [], redis_stopping = False, commandsSent = 0, publisher = Waiting,
     server = Map.empty\<rparr>"

definition sample_labels :: "redis_label list" where
  "sample_labels = [OnTopOfBook True (Finite 100) False dzero, Publisher good_network, Publisher good_network]"

lemma sample_sink_run:
  obtains s where "new_RedisMarketData good_network Map.empty = Inr sample_sink"
    "redis_run map_server sample_sink sample_labels s" "in_flight s @ msg_queue s = []"
proof -
  have "case redis_exec map_server sample_labels sample_sink of None \<Rightarrow> False | Some s \<Rightarrow> in_flight s @ msg_queue s = []"
    by code_simp
  then obtain s where "redis_run map_server sample_sink sample_labels s" "in_flight s @ msg_queue s = []"
    by (auto simp: redis_run_iff simp del: redis_exec.simps split: option.splits)
  moreover have "new_RedisMarketData good_network Map.empty = Inr sample_sink"
    by (simp add: new_RedisMarketData_def ensureConnected_def good_network_def sample_sink_def)
  ultimately show thesis by (intro that)
qed

section \<open>Properties\<close>

text \<open>C36: the publisher is best effort but in order. Whatever the network does, the commands that have
  reached the server are some of the commands of the messages handed over so far, in the order of the
  calls, none twice; connection failures and broken pipelines only leave commands out.\<close>

theorem redis_commands_in_order:
  assumes "new_RedisMarketData net r0 = Inr s0" and "redis_run exec s0 tr s"
  shows "\<exists>cs. subseq cs (pipeline (messages tr)) \<and> server s = fold exec cs r0"
proof -
  from assms(1) have s0: "msg_queue s0 = []" "publisher s0 = Waiting" "server s0 = r0"
    by (auto simp: new_RedisMarketData_def Let_def split: if_splits prod.splits)
  from redis_run_in_order [OF assms(2) s0(1,2)] obtain taken cs where
    "messages tr = taken @ in_flight s @ msg_queue s" "subseq cs (pipeline taken)" "server s = fold exec cs r0"
    by (auto simp: redis_inv_def applied_in_order_def s0(3))
  then show ?thesis by (metis list_emb_append2 list_emb_prefix pipeline_append subseq_order.refl)
qed

theorem redis_commands_in_order_witness:
  "\<exists>s cs. redis_run map_server sample_sink sample_labels s \<and> subseq cs (pipeline (messages sample_labels)) \<and>
     server s = fold map_server cs Map.empty"
proof -
  obtain s where s: "new_RedisMarketData good_network Map.empty = Inr sample_sink"
    "redis_run map_server sample_sink sample_labels s" by (rule sample_sink_run)
  from redis_commands_in_order [OF s] s(2) show ?thesis by blast
qed

text \<open>The cache is current. While the network is healthy, the keys on the server hold, for a prefix of
  the messages handed over that misses only what is queued or being sent, the best bid and ask of the last
  top of book (and no value for a side that was empty) and the price of the last trade.\<close>

lemma redis_cache_current:
  assumes "redis_laws exec get" and "new_RedisMarketData net r0 = Inr s0" and "redis_run exec s0 tr s"
    and "\<forall>net. Publisher net \<in> set tr \<longrightarrow> healthy (length (messages tr)) net"
  shows "\<exists>taken. messages tr = taken @ in_flight s @ msg_queue s \<and>
    get (server s) ''md:best_bid'' = cached_bid taken (get r0 ''md:best_bid'') \<and>
    get (server s) ''md:best_ask'' = cached_ask taken (get r0 ''md:best_ask'') \<and>
    get (server s) ''md:last_price'' = cached_price taken (get r0 ''md:last_price'')"
proof -
  from assms(2) have s0: "msg_queue s0 = []" "publisher s0 = Waiting" "server s0 = r0"
    by (auto simp: new_RedisMarketData_def Let_def split: if_splits prod.splits)
  from redis_run_healthy [OF assms(3) s0(1,2) assms(4) order_refl] obtain taken where
    "messages tr = taken @ in_flight s @ msg_queue s" "server s = fold exec (pipeline taken) r0"
    by (auto simp: redis_inv_def sent_all_def s0(3))
  with exec_pipeline [OF assms(1), of taken r0] show ?thesis by auto
qed

end
