(* ===== verification/MarketFeed.thy ===== *)
theory MarketFeed
  imports RedisMarketData EngineInvariants
begin

text \<open>
  An engine whose market-data sink is a \<open>RedisMarketData\<close>: the matching thread hands trades and tops of book
  to the sink's queue, and the sink's publisher thread sends them to Redis.

  While the matching thread handles a command it shares nothing with the publisher but the sink, so what
  the publisher does meanwhile is in the calls of the sink: each is followed by the rounds of the publisher
  that \<open>env\<close> gives for the state of the sink, with what the network does in each. A run interleaves the steps
  of the engine's threads (\<open>EngineRun\<close>) with further rounds of the publisher. The journal of the engine is
  any journal.

  The messages handed over so far are those sent, those in the publisher's hands and those queued. On a
  healthy network the keys in Redis follow the engine's book and trade log.
\<close>

section \<open>The sink as a plug-in\<close>

text \<open>What a call meets: the reading of the wall clock, and the rounds of the publisher after it.\<close>

type_synonym 'r surroundings = "'r redis_sink \<Rightarrow> int \<times> network list"

fun publisher_rounds :: "(redis_command \<Rightarrow> 'r \<Rightarrow> 'r) \<Rightarrow> network list \<Rightarrow> 'r redis_sink \<Rightarrow> 'r redis_sink" where
  "publisher_rounds exec [] k = k"
| "publisher_rounds exec (net # nets) k =
     (case publisher_step exec net k of None \<Rightarrow> k | Some k' \<Rightarrow> publisher_rounds exec nets k')"

definition publisher_meanwhile ::
  "(redis_command \<Rightarrow> 'r \<Rightarrow> 'r) \<Rightarrow> 'r surroundings \<Rightarrow> 'r redis_sink \<Rightarrow> 'r redis_sink" where
  "publisher_meanwhile exec env k = publisher_rounds exec (snd (env k)) k"

definition RedisMarketData_vtable ::
  "(redis_command \<Rightarrow> 'r \<Rightarrow> 'r) \<Rightarrow> 'r surroundings \<Rightarrow> 'r redis_sink imarket_data_sink" where
  "RedisMarketData_vtable exec env =
     \<lparr>onTrade_op = (\<lambda>t k. publisher_meanwhile exec env (redis_onTrade (fst (env k)) t k)),
      onTopOfBook_op = (\<lambda>hasBid bid hasAsk ask k.
        publisher_meanwhile exec env (redis_onTopOfBook hasBid bid hasAsk ask k))\<rparr>"

section \<open>Runs\<close>

datatype feed_label = Step sys_label | Publish network

definition feed_next ::
  "(redis_command \<Rightarrow> 'r \<Rightarrow> 'r) \<Rightarrow> feed_label \<Rightarrow> ('j, 'r redis_sink, 'u) system \<Rightarrow> ('j, 'r redis_sink, 'u) system option" where
  "feed_next exec l s =
     (case l of
        Step l' \<Rightarrow> sys_next l' s
      | Publish net \<Rightarrow>
          if terminated s \<noteq> None then None
          else (case sink (eng s) of
              None \<Rightarrow> None
            | Some (V, k) \<Rightarrow> map_option (\<lambda>k'. s\<lparr>eng := (eng s)\<lparr>sink := Some (V, k')\<rparr>\<rparr>) (publisher_step exec net k)))"

inductive feed_run ::
  "(redis_command \<Rightarrow> 'r \<Rightarrow> 'r) \<Rightarrow> ('j, 'r redis_sink, 'u) system \<Rightarrow> feed_label list \<Rightarrow> ('j, 'r redis_sink, 'u) system \<Rightarrow> bool"
  for exec where
  none: "feed_run exec s [] s"
| step: "feed_run exec s tr s' \<Longrightarrow> feed_next exec l s' = Some s'' \<Longrightarrow> feed_run exec s (tr @ [l]) s''"

fun feed_exec ::
  "(redis_command \<Rightarrow> 'r \<Rightarrow> 'r) \<Rightarrow> feed_label list \<Rightarrow> ('j, 'r redis_sink, 'u) system \<Rightarrow> ('j, 'r redis_sink, 'u) system option" where
  "feed_exec exec [] s = Some s"
| "feed_exec exec (l # ls) s = (case feed_next exec l s of None \<Rightarrow> None | Some s' \<Rightarrow> feed_exec exec ls s')"

fun engine_steps :: "feed_label list \<Rightarrow> sys_label list" where
  "engine_steps [] = []"
| "engine_steps (Step l # ls) = l # engine_steps ls"
| "engine_steps (Publish net # ls) = engine_steps ls"

text \<open>Every round of the publisher, between the steps of the engine or meanwhile, finds a network that is
  healthy for \<open>n\<close> messages.\<close>

definition network_up :: "nat \<Rightarrow> 'r surroundings \<Rightarrow> feed_label list \<Rightarrow> bool" where
  "network_up n env tr \<longleftrightarrow>
     (\<forall>k. \<forall>net \<in> set (snd (env k)). healthy n net) \<and> (\<forall>net. Publish net \<in> set tr \<longrightarrow> healthy n net)"

lemma engine_steps_append [simp]: "engine_steps (tr @ tr') = engine_steps tr @ engine_steps tr'"
  by (induction tr rule: engine_steps.induct) simp_all

section \<open>Calls of the sink\<close>

lemma publisher_round_sent:
  "redis_inv (sent_all exec r0) ms k \<Longrightarrow> healthy n net \<Longrightarrow> length ms \<le> n \<Longrightarrow> publisher_step exec net k = Some k' \<Longrightarrow>
     redis_inv (sent_all exec r0) ms k'"
  using healthy_next [of exec r0 ms k "Publisher net" k' n] by (simp add: redis_next_def)

lemma publisher_rounds_sent:
  "redis_inv (sent_all exec r0) ms k \<Longrightarrow> \<forall>net \<in> set nets. healthy n net \<Longrightarrow> length ms \<le> n \<Longrightarrow>
     redis_inv (sent_all exec r0) ms (publisher_rounds exec nets k)"
  by (induction nets arbitrary: k) (auto intro: publisher_round_sent split: option.splits)

lemma meanwhile_sent:
  "redis_inv (sent_all exec r0) ms k \<Longrightarrow> \<forall>k. \<forall>net \<in> set (snd (env k)). healthy n net \<Longrightarrow> length ms \<le> n \<Longrightarrow>
     redis_inv (sent_all exec r0) ms (publisher_meanwhile exec env k)"
  unfolding publisher_meanwhile_def by (rule publisher_rounds_sent) blast+

lemma sink_calls_sent:
  assumes "redis_inv (sent_all exec r0) ms k" and "\<forall>k. \<forall>net \<in> set (snd (env k)). healthy n net" and "length ms < n"
  shows "redis_inv (sent_all exec r0) (ms @ [trade_msg (fst (env k)) t]) (onTrade_op (RedisMarketData_vtable exec env) t k)"
    "redis_inv (sent_all exec r0) (ms @ [book_msg hb b ha a]) (onTopOfBook_op (RedisMarketData_vtable exec env) hb b ha a k)"
proof -
  have "redis_inv (sent_all exec r0) (ms @ [trade_msg (fst (env k)) t]) (redis_onTrade (fst (env k)) t k)"
    "redis_inv (sent_all exec r0) (ms @ [book_msg hb b ha a]) (redis_onTopOfBook hb b ha a k)"
    using assms(1) by (auto simp: redis_inv_def redis_onTrade_def redis_onTopOfBook_def in_flight_def split: publisher_pc.splits)
  from meanwhile_sent [OF this(1) assms(2)] meanwhile_sent [OF this(2) assms(2)] assms(3)
  show "redis_inv (sent_all exec r0) (ms @ [trade_msg (fst (env k)) t]) (onTrade_op (RedisMarketData_vtable exec env) t k)"
    "redis_inv (sent_all exec r0) (ms @ [book_msg hb b ha a]) (onTopOfBook_op (RedisMarketData_vtable exec env) hb b ha a k)"
    by (simp_all add: RedisMarketData_vtable_def)
qed

section \<open>What the messages say\<close>

lemma cached_append:
  "cached_bid (ms @ ms') old = cached_bid ms' (cached_bid ms old)"
  "cached_ask (ms @ ms') old = cached_ask ms' (cached_ask ms old)"
  "cached_price (ms @ ms') old = cached_price ms' (cached_price ms old)"
  by (induction ms arbitrary: old) simp_all

text \<open>The price of the last trade of the log, and the messages that say so.\<close>

definition last_price :: "trade list \<Rightarrow> string option \<Rightarrow> string option" where
  "last_price ts old = (if ts = [] then old else Some (num_double (price (last ts))))"

definition announces :: "msg \<Rightarrow> trade \<Rightarrow> bool" where
  "announces m t \<longleftrightarrow> msg_kind m = TRADE \<and> msg_price m = price t"

lemma last_price_append: "last_price (ts @ ts') old = last_price ts' (last_price ts old)"
  by (simp add: last_price_def)

lemma cached_price_announces: "list_all2 announces ms ts \<Longrightarrow> cached_price ms old = last_price ts old"
proof (induction arbitrary: old rule: list_all2_induct)
  case (Cons m ms t ts)
  then have "cached_price (m # ms) old = last_price ts (Some (num_double (price t)))" by (simp add: announces_def)
  then show ?case by (simp add: last_price_def)
qed (simp add: last_price_def)

lemma trade_msg_announces: "announces (trade_msg now t) t"
  by (simp add: announces_def trade_msg_def Msg_def)

text \<open>The message after a command that left the book \<open>b\<close>.\<close>

definition top_msg :: "book \<Rightarrow> msg" where
  "top_msg b = book_msg (getBestBid b \<noteq> None) (case getBestBid b of None \<Rightarrow> dzero | Some p \<Rightarrow> p)
     (getBestAsk b \<noteq> None) (case getBestAsk b of None \<Rightarrow> dzero | Some p \<Rightarrow> p)"

lemma top_msg_cached:
  "cached_bid [top_msg b] old = map_option num_double (getBestBid b)"
  "cached_ask [top_msg b] old = map_option num_double (getBestAsk b)"
  "cached_price [top_msg b] old = old"
  by (auto simp: top_msg_def book_msg_def Msg_def split: option.splits)

definition feed_current :: "msg list \<Rightarrow> ('j, 's, 'u) engine \<Rightarrow> bool" where
  "feed_current ms e \<longleftrightarrow>
     (\<forall>old. cached_price ms old = last_price (tradeLog e) old) \<and>
     (ms = [] \<or> (\<forall>old. cached_bid ms old = map_option num_double (getBestBid (eng_book e)) \<and>
                       cached_ask ms old = map_option num_double (getBestAsk (eng_book e))))"

section \<open>The invariant of a run\<close>

lemma publishTrades_feed:
  assumes "\<forall>k. \<forall>net \<in> set (snd (env k)). healthy n net"
  shows "sink e = Some (RedisMarketData_vtable exec env, k) \<Longrightarrow> redis_inv (sent_all exec r0) ms k \<Longrightarrow>
    length ms + length ts \<le> n \<Longrightarrow>
    \<exists>k' ms'. sink (foldl publishTrade e ts) = Some (RedisMarketData_vtable exec env, k') \<and>
      redis_inv (sent_all exec r0) (ms @ ms') k' \<and> list_all2 announces ms' ts"
proof (induction ts arbitrary: e k ms)
  case (Cons t ts)
  let ?V = "RedisMarketData_vtable exec env" and ?m = "trade_msg (fst (env k)) t"
  have e: "sink (publishTrade e t) = Some (?V, onTrade_op ?V t k)" using Cons.prems(1) by simp
  have "redis_inv (sent_all exec r0) (ms @ [?m]) (onTrade_op ?V t k)"
    using Cons.prems(3) by (intro sink_calls_sent(1) [OF Cons.prems(2) assms]) simp
  from Cons.IH [OF e this] Cons.prems(3) obtain k' ms' where
    "sink (foldl publishTrade (publishTrade e t) ts) = Some (?V, k')" "list_all2 announces ms' ts"
    "redis_inv (sent_all exec r0) ((ms @ [?m]) @ ms') k'" by auto
  then show ?case by (intro exI [of _ k'] exI [of _ "?m # ms'"]) (simp add: trade_msg_announces)
qed auto

lemma sink_publishTop:
  assumes "sink e = Some (V, k)"
  shows "\<exists>hb b ha a. sink (publishTop e) = Some (V, onTopOfBook_op V hb b ha a k) \<and> top_msg (eng_book e) = book_msg hb b ha a"
  using assms by (auto simp: publishTop_def sink_onTopOfBook_def top_msg_def Let_def)

lemma processCommand_feed:
  assumes "sink e = Some (RedisMarketData_vtable exec env, k)" and "redis_inv (sent_all exec r0) ms k"
    and "\<forall>old. cached_price ms old = last_price (tradeLog e) old" and "processCommand rd cmd e = Returns e'"
    and "\<forall>k. \<forall>net \<in> set (snd (env k)). healthy n net" and "length ms + length (tradeLog e') < n + length (tradeLog e)"
  shows "\<exists>k' ms'. sink e' = Some (RedisMarketData_vtable exec env, k') \<and> redis_inv (sent_all exec r0) ms' k' \<and>
    feed_current ms' e' \<and> length ms' + length (tradeLog e) = Suc (length ms + length (tradeLog e'))"
proof -
  let ?V = "RedisMarketData_vtable exec env"
  from assms(4) obtain ev ts b where r: "commandEvent (wall_now rd) cmd (nextSeq e) = Inr ev"
    "e' = publishTop (foldl publishTrade ((journal_append ev (e\<lparr>nextSeq := nextSeq e + 1\<rparr>))\<lparr>eng_book := b\<rparr>) ts)"
    by (auto simp: processCommand_def Let_def split: sum.splits)
  let ?e2 = "(journal_append ev (e\<lparr>nextSeq := nextSeq e + 1\<rparr>))\<lparr>eng_book := b\<rparr>"
  have log: "tradeLog e' = tradeLog e @ ts" and book: "eng_book e' = b" using r(2) by simp_all
  with assms(6) have n: "length ms + length ts < n" by simp
  have "sink ?e2 = Some (?V, k)" using assms(1) by simp
  from publishTrades_feed [OF assms(5) this assms(2) less_imp_le [OF n]] obtain k2 ms2 where
    t: "sink (foldl publishTrade ?e2 ts) = Some (?V, k2)" "redis_inv (sent_all exec r0) (ms @ ms2) k2"
    "list_all2 announces ms2 ts" by blast
  then have l: "length ms2 = length ts" by (simp add: list_all2_lengthD)
  from sink_publishTop [OF t(1)] r(2) obtain hb bd ha ak where
    top: "sink e' = Some (?V, onTopOfBook_op ?V hb bd ha ak k2)" "top_msg b = book_msg hb bd ha ak" by auto
  have "length (ms @ ms2) < n" using n l by simp
  note sent = sink_calls_sent(2) [OF t(2) assms(5) this, of hb bd ha ak, folded top(2)]
  have "feed_current ((ms @ ms2) @ [top_msg b]) e'"
    using assms(3) cached_price_announces [OF t(3)]
    by (simp add: feed_current_def cached_append top_msg_cached log book last_price_append
        del: cached_bid.simps cached_ask.simps cached_price.simps)
  with top(1) sent l log show ?thesis
    by (intro exI [of _ "onTopOfBook_op ?V hb bd ha ak k2"] exI [of _ "(ms @ ms2) @ [top_msg b]"]) simp
qed

definition feed_inv ::
  "(redis_command \<Rightarrow> 'r \<Rightarrow> 'r) \<Rightarrow> 'r surroundings \<Rightarrow> 'r \<Rightarrow> command list \<Rightarrow> ('j, 'r redis_sink, 'u) system \<Rightarrow> bool" where
  "feed_inv exec env r0 cs s \<longleftrightarrow> terminated s = None \<longrightarrow>
     (\<exists>k ms. sink (eng s) = Some (RedisMarketData_vtable exec env, k) \<and> redis_inv (sent_all exec r0) ms k \<and>
        feed_current ms (eng s) \<and> length ms + length (waiting s) = length cs + length (tradeLog (eng s)))"

lemma feed_inv_frame:
  assumes "feed_inv exec env r0 cs s" and "terminated s = None" and "sink (eng s') = sink (eng s)"
    and "tradeLog (eng s') = tradeLog (eng s)" and "eng_book (eng s') = eng_book (eng s)"
    and "waiting s' = waiting s @ cs'"
  shows "feed_inv exec env r0 (cs @ cs') s'"
  using assms by (auto simp: feed_inv_def feed_current_def)

lemma caller_step_sink: "sys_next l s = Some s' \<Longrightarrow> (\<And>rd. l \<noteq> Round rd) \<Longrightarrow> sink (eng s') = sink (eng s)"
  by (cases l) (auto simp: sys_next_def submitOrder_def engine_cancelOrder_def stop_signal_def stop_join_def
      start_def join_def journal_flush_def split: if_splits thread_state.splits)

lemma sys_next_live: "sys_next l s = Some s' \<Longrightarrow> terminated s = None"
  by (auto simp: sys_next_def split: if_splits)

lemma feed_sys_step:
  assumes "feed_inv exec env r0 (pushed tr) s" and "sys_next l s = Some s'"
    and "\<forall>k. \<forall>net \<in> set (snd (env k)). healthy n net" and "length (pushed (tr @ [l])) + length (tradeLog (eng s')) \<le> n"
  shows "feed_inv exec env r0 (pushed (tr @ [l])) s'"
proof (cases "\<exists>rd. l = Round rd")
  case False
  then have "\<And>rd. l \<noteq> Round rd" by blast
  from feed_inv_frame [OF assms(1) sys_next_live [OF assms(2)] caller_step_sink [OF assms(2) this]
      caller_step_frame(3,2,6) [OF assms(2) this]] show ?thesis by simp
next
  case True
  then obtain rd where l: "l = Round rd" by blast
  note live = sys_next_live [OF assms(2)]
  from assms(2) [unfolded l] show ?thesis
  proof (cases rule: round_cases)
    case break
    from feed_inv_frame [OF assms(1) live, of s' "[]"] break(2) l show ?thesis by simp
  next
    case (handle cmd q out)
    show ?thesis
    proof (cases out)
      case (Throws err e)
      moreover have "terminated s' = thrown out" using handle(3) by simp
      ultimately show ?thesis by (simp add: feed_inv_def)
    next
      case (Returns e')
      let ?e = "eng s\<lparr>incomingQueue := q\<rparr>"
      from assms(1) live obtain k ms where i: "sink (eng s) = Some (RedisMarketData_vtable exec env, k)"
        "redis_inv (sent_all exec r0) ms k" "feed_current ms (eng s)"
        "length ms + length (waiting s) = length (pushed tr) + length (tradeLog (eng s))" by (auto simp: feed_inv_def)
      have e: "eng s' = e'" "processCommand rd cmd ?e = Returns e'" "incomingQueue e' = q"
        using handle(3) Returns handle(2,4) by simp_all
      have "length ms + length (tradeLog e') < n + length (tradeLog ?e)"
        using i(4) assms(4) e(1) l handle(1) by simp
      from processCommand_feed [OF _ i(2) _ e(2) assms(3) this] i(1,3) obtain k' ms' where
        "sink e' = Some (RedisMarketData_vtable exec env, k')" "redis_inv (sent_all exec r0) ms' k'"
        "feed_current ms' e'" "length ms' + length (tradeLog (eng s)) = Suc (length ms + length (tradeLog e'))"
        by (auto simp: feed_current_def)
      with i(4) e l handle(1) show ?thesis by (auto simp: feed_inv_def)
    qed
  qed
qed

lemma feed_step:
  assumes "feed_inv exec env r0 (pushed (engine_steps tr)) s" and "feed_next exec l s = Some s'"
    and "network_up n env (tr @ [l])" and "length (pushed (engine_steps (tr @ [l]))) + length (tradeLog (eng s')) \<le> n"
  shows "feed_inv exec env r0 (pushed (engine_steps (tr @ [l]))) s'"
proof (cases l)
  case (Step l')
  with assms show ?thesis using feed_sys_step [OF assms(1), of l' s' n] by (simp add: feed_next_def network_up_def)
next
  case (Publish net)
  let ?V = "RedisMarketData_vtable exec env"
  from Publish assms(2) have live: "terminated s = None" by (simp add: feed_next_def split: if_splits)
  with assms(1) obtain k ms where i: "sink (eng s) = Some (?V, k)" "redis_inv (sent_all exec r0) ms k" "feed_current ms (eng s)"
    "length ms + length (waiting s) = length (pushed (engine_steps tr)) + length (tradeLog (eng s))" by (auto simp: feed_inv_def)
  from Publish assms(2) i(1) live obtain k' where k': "publisher_step exec net k = Some k'"
    "s' = s\<lparr>eng := (eng s)\<lparr>sink := Some (?V, k')\<rparr>\<rparr>" by (auto simp: feed_next_def)
  have "healthy n net" using Publish assms(3) by (simp add: network_up_def)
  moreover have "length ms \<le> n" using i(4) assms(4) k'(2) by simp
  ultimately have "redis_inv (sent_all exec r0) ms k'" using publisher_round_sent [OF i(2)] k'(1) by blast
  with i(3,4) k'(2) Publish show ?thesis by (auto simp: feed_inv_def feed_current_def)
qed

lemma processCommand_log_grows: "length (tradeLog e) \<le> length (tradeLog (after (processCommand rd cmd e)))"
  by (auto simp: processCommand_def Let_def split: sum.splits)

lemma feed_log_grows:
  assumes "feed_next exec l s = Some s'"
  shows "length (tradeLog (eng s)) \<le> length (tradeLog (eng s'))"
proof (cases "\<exists>rd. l = Step (Round rd)")
  case True
  then obtain rd where "sys_next (Round rd) s = Some s'" using assms by (auto simp: feed_next_def)
  then show ?thesis
  proof (cases rule: round_cases)
    case (handle cmd q out)
    with processCommand_log_grows [of "eng s\<lparr>incomingQueue := q\<rparr>" rd cmd] show ?thesis by simp
  qed simp
next
  case False
  with assms show ?thesis
    by (cases l) (auto simp: feed_next_def caller_step_frame split: if_splits option.splits)
qed

lemma feed_run_inv:
  "feed_run exec s0 tr s \<Longrightarrow> feed_inv exec env r0 [] s0 \<Longrightarrow> network_up n env tr \<Longrightarrow>
     length (pushed (engine_steps tr)) + length (tradeLog (eng s)) \<le> n \<Longrightarrow>
     feed_inv exec env r0 (pushed (engine_steps tr)) s"
proof (induction rule: feed_run.induct)
  case (step s tr s' l s'')
  have "network_up n env tr" using step.prems(2) by (simp add: network_up_def)
  moreover have "length (pushed (engine_steps tr)) + length (tradeLog (eng s')) \<le> n"
    using step.prems(3) feed_log_grows [OF step.hyps(2)] by simp
  ultimately have "feed_inv exec env r0 (pushed (engine_steps tr)) s'" using step.IH step.prems(1) by blast
  from feed_step [OF this step.hyps(2) step.prems(2,3)] show ?case .
qed simp

lemma feed_start:
  assumes "new_RedisMarketData net0 r0 = Inr k"
  shows "feed_inv exec env r0 [] (idle (plugged_engine j f (Some (RedisMarketData_vtable exec env, k)) u))"
proof -
  from assms have "msg_queue k = []" "publisher k = Waiting" "server k = r0"
    by (auto simp: new_RedisMarketData_def Let_def split: if_splits prod.splits)
  with sent_all_new [of k exec] have "redis_inv (sent_all exec r0) [] k" by simp
  then show ?thesis
    by (auto simp: feed_inv_def feed_current_def last_price_def plugged_engine_defs idle_def new_queue_def intro!: exI [of _ "[]"])
qed

text \<open>When nothing waits any more, the keys show the engine.\<close>

lemma feed_caught_up:
  assumes "redis_laws exec get" and "feed_inv exec env r0 cs s" and "terminated s = None" and "cs \<noteq> []" and "waiting s = []"
    and "sink (eng s) = Some (V, k)" and "in_flight k = []" and "msg_queue k = []"
  shows "get (server k) ''md:best_bid'' = map_option num_double (getBestBid (eng_book (eng s)))"
    "get (server k) ''md:best_ask'' = map_option num_double (getBestAsk (eng_book (eng s)))"
    "get (server k) ''md:last_price'' =
      (if tradeLog (eng s) = [] then get r0 ''md:last_price'' else Some (num_double (price (last (tradeLog (eng s))))))"
proof -
  from assms(2,3,6) obtain ms where m: "redis_inv (sent_all exec r0) ms k" "feed_current ms (eng s)"
    "length ms + length (waiting s) = length cs + length (tradeLog (eng s))" by (auto simp: feed_inv_def)
  from m(1) assms(7,8) have "server k = fold exec (pipeline ms) r0" by (simp add: redis_inv_def sent_all_def)
  with exec_pipeline [OF assms(1), of ms r0] m(2) assms(4,5) m(3)
  show "get (server k) ''md:best_bid'' = map_option num_double (getBestBid (eng_book (eng s)))"
    "get (server k) ''md:best_ask'' = map_option num_double (getBestAsk (eng_book (eng s)))"
    "get (server k) ''md:last_price'' =
      (if tradeLog (eng s) = [] then get r0 ''md:last_price'' else Some (num_double (price (last (tradeLog (eng s))))))"
    by (auto simp: feed_current_def last_price_def)
qed

lemma feed_exec_append:
  "feed_exec exec (ls @ ls') s = (case feed_exec exec ls s of None \<Rightarrow> None | Some s' \<Rightarrow> feed_exec exec ls' s')"
  by (induction ls arbitrary: s) (auto split: option.splits)

lemma feed_run_iff: "feed_run exec s tr s' \<longleftrightarrow> feed_exec exec tr s = Some s'"
proof
  show "feed_run exec s tr s' \<Longrightarrow> feed_exec exec tr s = Some s'"
    by (induction rule: feed_run.induct) (simp_all add: feed_exec_append)
  show "feed_exec exec tr s = Some s' \<Longrightarrow> feed_run exec s tr s'"
    by (induction tr arbitrary: s' rule: rev_induct)
      (auto simp: feed_exec_append intro: feed_run.intros split: option.splits)
qed

section \<open>Samples\<close>

text \<open>An engine that matches two orders while its publisher sends, over the server that is a map.\<close>

definition sample_env :: "(string \<Rightarrow> string option) surroundings" where
  "sample_env k = (0, if length (msg_queue k) = 2 then [good_network] else [])"

definition sample_engine :: "(unit, (string \<Rightarrow> string option) redis_sink, unit) system" where
  "sample_engine = idle (plugged_engine None None (Some (RedisMarketData_vtable map_server sample_env, sample_sink)) ())"

definition sample_feed :: "feed_label list" where
  "sample_feed =
     [Step Start, Step (Submit (Some (limit_order 1 SELL 10 100))), Step (Submit (Some (limit_order 2 BUY 4 101))),
      Step (Round at_zero), Step (Round at_zero), Publish good_network, Publish good_network, Publish good_network]"

section \<open>Properties\<close>

text \<open>C19: Redis shows the book. On a healthy network, in every interleaving of the engine's threads with the
  publisher: when commands were submitted and nothing waits any more, neither in the engine's queue nor in
  the sink, the key \<open>md:best_bid\<close> holds the best bid of the engine's book and does not exist when there is no
  bid, \<open>md:best_ask\<close> likewise, and \<open>md:last_price\<close> holds the price of the last trade of the trade log, or
  what it held at the beginning when there was no trade.\<close>

theorem redis_shows_the_book:
  assumes "redis_laws exec get" and "new_RedisMarketData net0 r0 = Inr k0"
    and "feed_run exec (idle (plugged_engine j f (Some (RedisMarketData_vtable exec env, k0)) u)) tr s"
    and "network_up (length (pushed (engine_steps tr)) + length (tradeLog (eng s))) env tr"
    and "terminated s = None" and "pushed (engine_steps tr) \<noteq> []" and "waiting s = []"
    and "sink (eng s) = Some (V, k)" and "in_flight k = []" and "msg_queue k = []"
  shows "get (server k) ''md:best_bid'' = map_option num_double (getBestBid (eng_book (eng s))) \<and>
    get (server k) ''md:best_ask'' = map_option num_double (getBestAsk (eng_book (eng s))) \<and>
    get (server k) ''md:last_price'' =
      (if tradeLog (eng s) = [] then get r0 ''md:last_price'' else Some (num_double (price (last (tradeLog (eng s))))))"
proof -
  note inv = feed_run_inv [OF assms(3) feed_start [OF assms(2)] assms(4) order_refl]
  from feed_caught_up [OF assms(1) inv assms(5-10)] show ?thesis by blast
qed

theorem redis_shows_the_book_witness:
  "\<exists>s V k. feed_run map_server sample_engine sample_feed s \<and> sink (eng s) = Some (V, k) \<and>
     server k ''md:best_bid'' = None \<and> server k ''md:best_ask'' = Some (num_double (Finite 100)) \<and>
     server k ''md:last_price'' = Some (num_double (Finite 100))"
proof -
  have new: "new_RedisMarketData good_network Map.empty = Inr sample_sink" using sample_sink_run by blast
  have L: "redis_laws map_server (\<lambda>r. r)" by (auto simp: redis_laws_def)
  have "case feed_exec map_server sample_feed sample_engine of None \<Rightarrow> False | Some s \<Rightarrow>
      terminated s = None \<and> waiting s = [] \<and> map price (tradeLog (eng s)) = [Finite 100] \<and>
      getBestBid (eng_book (eng s)) = None \<and> getBestAsk (eng_book (eng s)) = Some (Finite 100) \<and>
      (case sink (eng s) of None \<Rightarrow> False | Some (V, k) \<Rightarrow> in_flight k = [] \<and> msg_queue k = [])" by code_simp
  then obtain s V k where s: "feed_run map_server sample_engine sample_feed s" "terminated s = None" "waiting s = []"
    "map price (tradeLog (eng s)) = [Finite 100]" "getBestBid (eng_book (eng s)) = None"
    "getBestAsk (eng_book (eng s)) = Some (Finite 100)" "sink (eng s) = Some (V, k)" "in_flight k = []" "msg_queue k = []"
    by (auto simp: feed_run_iff simp del: feed_exec.simps split: option.splits)
  have p: "pushed (engine_steps sample_feed) \<noteq> []" "length (pushed (engine_steps sample_feed)) = 2" by (simp_all add: sample_feed_def)
  have t: "length (tradeLog (eng s)) = 1" "price (last (tradeLog (eng s))) = Finite 100"
    using arg_cong [OF s(4), of length] s(4) by (auto simp: map_eq_Cons_conv)
  have "network_up (length (pushed (engine_steps sample_feed)) + length (tradeLog (eng s))) sample_env sample_feed"
    by (simp add: network_up_def sample_env_def p(2) t(1) sample_feed_def healthy_def good_network_def)
  from redis_shows_the_book [OF L new s(1) [unfolded sample_engine_def] this s(2) p(1) s(3,7,8,9)] s t
  show ?thesis by (intro exI [of _ s] exI [of _ V] exI [of _ k]) (auto simp del: num_double.simps)
qed

end
