(* ===== verification/PlugIns.thy ===== *)
theory PlugIns
  imports CrashRecovery MarketFeed
begin

text \<open>
  An engine with both plug-ins, as \<open>demos/persistence_demo.cpp\<close> sets it up: its journal is a \<open>PostgresJournal\<close>,
  its market-data sink a \<open>RedisMarketData\<close>. Callers, matching thread, writer and publisher interleave.

  The engine only writes to its plug-ins: no call of a running engine reads anything back from them. A
  view of an engine that forgets a plug-in (\<open>engine_view\<close>) therefore commutes with every step, so a run with
  both plug-ins is at once a run with the journal alone (\<open>DurableEngine\<close>) and one with the sink alone
  (\<open>MarketFeed\<close>), and what is proved of these holds of it.
\<close>

section \<open>Views of an engine\<close>

definition view_system :: "(('j, 's, 'u) engine \<Rightarrow> ('j2, 's2, 'u2) engine) \<Rightarrow> ('j, 's, 'u) system \<Rightarrow> ('j2, 's2, 'u2) system" where
  "view_system view s = \<lparr>eng = view (eng s), in_stop = in_stop s, terminated = terminated s\<rparr>"

lemma view_system_simps [simp]:
  "eng (view_system view s) = view (eng s)" "in_stop (view_system view s) = in_stop s"
  "terminated (view_system view s) = terminated s"
  by (simp_all add: view_system_def)

text \<open>A view shows what the engine itself decides on, and goes along with its updates and its calls of the
  plug-ins.\<close>

locale engine_view =
  fixes view :: "('j, 's, 'u) engine \<Rightarrow> ('j2, 's2, 'u2) engine"
  assumes view_fields: "eng_book (view e) = eng_book e" "incomingQueue (view e) = incomingQueue e"
      "matchingThread (view e) = matchingThread e" "running (view e) = running e" "nextSeq (view e) = nextSeq e"
      "tradeLog (view e) = tradeLog e"
    and view_updates: "view (e\<lparr>eng_book := b\<rparr>) = (view e)\<lparr>eng_book := b\<rparr>"
      "view (e\<lparr>incomingQueue := q\<rparr>) = (view e)\<lparr>incomingQueue := q\<rparr>"
      "view (e\<lparr>matchingThread := th\<rparr>) = (view e)\<lparr>matchingThread := th\<rparr>"
      "view (e\<lparr>running := r\<rparr>) = (view e)\<lparr>running := r\<rparr>" "view (e\<lparr>nextSeq := n\<rparr>) = (view e)\<lparr>nextSeq := n\<rparr>"
    and view_calls: "view (journal_append ev e) = journal_append ev (view e)"
      "view (publishTrade e t) = publishTrade (view e) t" "view (publishTop e) = publishTop (view e)"
      "view (journal_flush e) = journal_flush (view e)"
begin

lemmas view_simps = view_fields view_updates view_calls

lemma view_publishTrades: "view (foldl publishTrade e ts) = foldl publishTrade (view e) ts"
  by (induction ts arbitrary: e) (simp_all add: view_simps)

lemma view_processCommand: "processCommand rd cmd (view e) = map_outcome view (processCommand rd cmd e)"
  by (simp add: processCommand_def Let_def view_simps view_publishTrades split: sum.splits prod.splits)

lemma view_after: "after (map_outcome view out) = view (after out)" "thrown (map_outcome view out) = thrown out"
  by (cases out; simp)+

lemma view_matchingThread:
  "matchingThread_step rd (view_system view s) = map_option (view_system view) (matchingThread_step rd s)"
proof -
  have "matchingRound rd (view e) = map_loop_round view (matchingRound rd e)" for e
    by (simp add: matchingRound_def view_simps flip: view_processCommand split: option.splits)
  then show ?thesis
    by (auto simp: matchingThread_step_def view_simps view_after view_system_def split: loop_round.splits)
qed

lemma view_join: "join (view e) = map_option view (join e)"
  by (simp add: join_def view_simps split: thread_state.splits)

lemma view_sys_next: "sys_next l (view_system view s) = map_option (view_system view) (sys_next l s)"
proof -
  have "start (view e) = map_option view (start e)" for e
    by (simp add: start_def view_simps view_join option.map_comp comp_def)
  moreover have "stop_join (view e) = map_option view (stop_join e)" for e
    by (simp add: stop_join_def view_simps view_join option.map_comp comp_def)
  ultimately show ?thesis
    by (cases l)
      (simp_all add: sys_next_def view_matchingThread submitOrder_def engine_cancelOrder_def stop_signal_def view_simps
        option.map_comp comp_def, simp_all add: view_system_def view_simps)
qed

end

definition without_sink :: "('j, 's, 'u) engine \<Rightarrow> ('j, unit, 'u) engine" where
  "without_sink e =
     \<lparr>eng_book = eng_book e, incomingQueue = incomingQueue e, matchingThread = matchingThread e, running = running e,
      nextSeq = nextSeq e, journal = journal e, sink = None, tradeLog = tradeLog e, onTrade = onTrade e,
      user_state = user_state e\<rparr>"

definition without_journal :: "('j, 's, 'u) engine \<Rightarrow> (unit, 's, 'u) engine" where
  "without_journal e =
     \<lparr>eng_book = eng_book e, incomingQueue = incomingQueue e, matchingThread = matchingThread e, running = running e,
      nextSeq = nextSeq e, journal = None, sink = sink e, tradeLog = tradeLog e, onTrade = onTrade e,
      user_state = user_state e\<rparr>"

lemmas engine_calls = journal_append_def publishTrade_def publishTop_def journal_flush_def journal_recordTrade_def
  sink_onTrade_def sink_onTopOfBook_def callback_call_def Let_def

interpretation no_sink: engine_view without_sink
  by unfold_locales (simp_all add: without_sink_def engine_calls split: option.splits)

interpretation no_journal: engine_view without_journal
  by unfold_locales (simp_all add: without_journal_def engine_calls split: option.splits)

section \<open>Runs with both plug-ins\<close>

datatype full_label = On durable_label | Pub network

definition full_next ::
  "'d database \<Rightarrow> (redis_command \<Rightarrow> 'r \<Rightarrow> 'r) \<Rightarrow> full_label \<Rightarrow> ('d, 'r redis_sink, 'u) durable \<Rightarrow>
     ('d, 'r redis_sink, 'u) durable option" where
  "full_next D exec l s =
     (case l of
        On l' \<Rightarrow> durable_next D l' s
      | Pub net \<Rightarrow> map_option (\<lambda>p. s\<lparr>process := p\<rparr>) (feed_next exec (Publish net) (process s)))"

inductive full_run ::
  "'d database \<Rightarrow> (redis_command \<Rightarrow> 'r \<Rightarrow> 'r) \<Rightarrow> ('d, 'r redis_sink, 'u) durable \<Rightarrow> full_label list \<Rightarrow>
     ('d, 'r redis_sink, 'u) durable \<Rightarrow> bool" for D exec where
  none: "full_run D exec s [] s"
| step: "full_run D exec s tr s' \<Longrightarrow> full_next D exec l s' = Some s'' \<Longrightarrow> full_run D exec s (tr @ [l]) s''"

fun full_exec ::
  "'d database \<Rightarrow> (redis_command \<Rightarrow> 'r \<Rightarrow> 'r) \<Rightarrow> full_label list \<Rightarrow> ('d, 'r redis_sink, 'u) durable \<Rightarrow>
     ('d, 'r redis_sink, 'u) durable option" where
  "full_exec D exec [] s = Some s"
| "full_exec D exec (l # ls) s = (case full_next D exec l s of None \<Rightarrow> None | Some s' \<Rightarrow> full_exec D exec ls s')"

lemma full_exec_append:
  "full_exec D exec (ls @ ls') s = (case full_exec D exec ls s of None \<Rightarrow> None | Some s' \<Rightarrow> full_exec D exec ls' s')"
  by (induction ls arbitrary: s) (auto split: option.splits)

lemma full_run_iff: "full_run D exec s tr s' \<longleftrightarrow> full_exec D exec tr s = Some s'"
proof
  show "full_run D exec s tr s' \<Longrightarrow> full_exec D exec tr s = Some s'"
    by (induction rule: full_run.induct) (simp_all add: full_exec_append)
  show "full_exec D exec tr s = Some s' \<Longrightarrow> full_run D exec s tr s'"
    by (induction tr arbitrary: s' rule: rev_induct)
      (auto simp: full_exec_append intro: full_run.intros split: option.splits)
qed

text \<open>The steps each of the two smaller systems sees. For an engine without journal \<open>stop()\<close> has returned when the
  matching thread is joined.\<close>

fun journal_steps :: "full_label list \<Rightarrow> durable_label list" where
  "journal_steps [] = []"
| "journal_steps (On l # ls) = l # journal_steps ls"
| "journal_steps (Pub net # ls) = journal_steps ls"

fun feed_steps :: "full_label list \<Rightarrow> feed_label list" where
  "feed_steps [] = []"
| "feed_steps (On (Sys l) # ls) = Step l # feed_steps ls"
| "feed_steps (On StopFlush # ls) = Step StopJoin # feed_steps ls"
| "feed_steps (On _ # ls) = feed_steps ls"
| "feed_steps (Pub net # ls) = Publish net # feed_steps ls"

definition journal_side :: "('d, 's, 'u) durable \<Rightarrow> ('d, unit, 'u) durable" where
  "journal_side s = \<lparr>process = view_system without_sink (process s), flushing = flushing s\<rparr>"

definition feed_side :: "('d, 's, 'u) durable \<Rightarrow> (unit, 's, 'u) system" where
  "feed_side s = (view_system without_journal (process s))\<lparr>in_stop := in_stop (process s) \<and> flushing s = None\<rparr>"

lemma steps_append [simp]:
  "journal_steps (tr @ tr') = journal_steps tr @ journal_steps tr'" "feed_steps (tr @ tr') = feed_steps tr @ feed_steps tr'"
  by (induction tr rule: feed_steps.induct) simp_all

lemma pushed_steps: "pushed (engine_steps (feed_steps tr)) = pushed (sys_of (journal_steps tr))"
proof (induction tr rule: feed_steps.induct)
  case (2 l ls)
  then show ?case by (cases l) simp_all
qed simp_all

lemma side_simps [simp]:
  "process (journal_side s) = view_system without_sink (process s)" "flushing (journal_side s) = flushing s"
  "eng (feed_side s) = without_journal (eng (process s))" "terminated (feed_side s) = terminated (process s)"
  "in_stop (feed_side s) \<longleftrightarrow> in_stop (process s) \<and> flushing s = None"
  by (simp_all add: journal_side_def feed_side_def)

lemma without_sink_simps [simp]:
  "journal (without_sink e) = journal e" "sink (without_sink e) = None"
  "without_sink (e\<lparr>journal := j\<rparr>) = (without_sink e)\<lparr>journal := j\<rparr>" "without_sink (e\<lparr>sink := k\<rparr>) = without_sink e"
  by (simp_all add: without_sink_def)

lemma without_journal_simps [simp]:
  "sink (without_journal e) = sink e" "journal (without_journal e) = None" "journal_flush (without_journal e) = without_journal e"
  "without_journal (e\<lparr>sink := k\<rparr>) = (without_journal e)\<lparr>sink := k\<rparr>" "without_journal (e\<lparr>journal := j\<rparr>) = without_journal e"
  by (simp_all add: without_journal_def journal_flush_def)

text \<open>A \<open>flush()\<close> is only waited for inside \<open>stop()\<close>.\<close>

lemma flush_in_stop:
  "durable_next D l s = Some s' \<Longrightarrow> (flushing s \<noteq> None \<longrightarrow> in_stop (process s)) \<Longrightarrow> flushing s' \<noteq> None \<longrightarrow> in_stop (process s')"
  by (cases l) (auto simp: durable_next_def Let_def sys_next_def matchingThread_step_def
      split: if_splits option.splits sys_label.splits loop_round.splits)

lemma full_flush_in_stop:
  "full_run D exec s0 tr s \<Longrightarrow> flushing s0 = None \<Longrightarrow> flushing s \<noteq> None \<longrightarrow> in_stop (process s)"
proof (induction rule: full_run.induct)
  case (step s0 tr s l s')
  then show ?case
    by (cases l) (auto simp: full_next_def feed_next_def dest: flush_in_stop split: if_splits option.splits)
qed simp

section \<open>The two sides of a step\<close>

lemma durable_next_Sys:
  "l \<noteq> StopJoin \<Longrightarrow> durable_next D (Sys l) s = map_option (\<lambda>p. s\<lparr>process := p\<rparr>) (sys_next l (process s))"
  by (cases l) (simp_all add: durable_next_def Let_def, simp_all add: sys_next_def)

lemma durable_next_StopJoin: "durable_next D (Sys StopJoin) s = None"
  by (simp add: durable_next_def Let_def)

text \<open>Whether a call of \<open>stop()\<close> is shown as in progress matters only when none is.\<close>

lemma sys_next_in_stop:
  assumes "sys_next l p = Some p'" and "l \<noteq> StopJoin" and "\<not> b \<longrightarrow> in_stop p"
  shows "sys_next l (p\<lparr>in_stop := in_stop p \<and> b\<rparr>) = Some (p'\<lparr>in_stop := in_stop p' \<and> b\<rparr>)"
  using assms
  by (cases l; cases p) (auto simp: sys_next_def matchingThread_step_def split: if_splits option.splits loop_round.splits)

lemma journal_side_step:
  assumes "full_next D exec l s = Some s'"
  shows "durable_exec D (journal_steps [l]) (journal_side s) = Some (journal_side s')"
proof (cases l)
  case (On l')
  with assms have n: "durable_next D l' s = Some s'" by (simp add: full_next_def)
  have "durable_next D l' (journal_side s) = Some (journal_side s')"
  proof (cases l')
    case (Sys l2)
    with n obtain p where "l2 \<noteq> StopJoin" "sys_next l2 (process s) = Some p" "s' = s\<lparr>process := p\<rparr>"
      by (cases "l2 = StopJoin") (auto simp: durable_next_Sys durable_next_StopJoin)
    with Sys show ?thesis by (simp add: durable_next_Sys no_sink.view_sys_next journal_side_def)
  next
    case StopFlush
    with n show ?thesis
      by (auto simp: durable_next_def Let_def no_sink.view_join journal_side_def view_system_def split: if_splits option.splits)
  qed (use n in \<open>auto simp: durable_next_def Let_def journal_side_def view_system_def split: if_splits option.splits\<close>)
  with On show ?thesis by simp
next
  case (Pub net)
  with assms show ?thesis
    by (auto simp: full_next_def feed_next_def journal_side_def view_system_def split: if_splits option.splits)
qed

lemma feed_side_step:
  assumes "full_next D exec l s = Some s'" and "flushing s \<noteq> None \<longrightarrow> in_stop (process s)"
  shows "feed_exec exec (feed_steps [l]) (feed_side s) = Some (feed_side s')"
proof (cases l)
  case (On l')
  with assms(1) have n: "durable_next D l' s = Some s'" by (simp add: full_next_def)
  show ?thesis
  proof (cases l')
    case (Sys l2)
    with n obtain p where p: "l2 \<noteq> StopJoin" "sys_next l2 (process s) = Some p" "s' = s\<lparr>process := p\<rparr>"
      by (cases "l2 = StopJoin") (auto simp: durable_next_Sys durable_next_StopJoin)
    have "sys_next l2 (view_system without_journal (process s)) = Some (view_system without_journal p)"
      using no_journal.view_sys_next [of l2 "process s"] p(2) by simp
    from sys_next_in_stop [OF this p(1), of "flushing s = None"] p(3) assms(2)
    have "sys_next l2 (feed_side s) = Some (feed_side s')" by (simp add: feed_side_def)
    with On Sys show ?thesis by (simp add: feed_next_def)
  next
    case StopFlush
    with n On show ?thesis
      by (auto simp: durable_next_def Let_def feed_next_def sys_next_def stop_join_def no_journal.view_join feed_side_def
          view_system_def split: if_splits option.splits)
  next
    case FlushReturn
    with n On show ?thesis
      by (auto simp: durable_next_def Let_def feed_side_def view_system_def split: if_splits option.splits)
  next
    case Writer
    with n On show ?thesis
      by (auto simp: durable_next_def Let_def feed_side_def view_system_def split: if_splits option.splits)
  qed
next
  case (Pub net)
  with assms show ?thesis
    by (auto simp: full_next_def feed_next_def feed_side_def view_system_def split: if_splits option.splits)
qed

lemma full_run_sides:
  "full_run D exec s0 tr s \<Longrightarrow> flushing s0 = None \<Longrightarrow>
     durable_run D (journal_side s0) (journal_steps tr) (journal_side s) \<and>
     feed_run exec (feed_side s0) (feed_steps tr) (feed_side s)"
proof (induction rule: full_run.induct)
  case (step s0 tr s l s')
  note j = journal_side_step [OF step.hyps(2)]
  note f = feed_side_step [OF step.hyps(2) full_flush_in_stop [OF step.hyps(1) step.prems]]
  from step j f show ?case by (simp add: durable_run_iff feed_run_iff durable_exec_append feed_exec_append)
qed (simp add: durable_run.none feed_run.none)

section \<open>From a start with both plug-ins\<close>

abbreviation full_engine ::
  "'d database \<Rightarrow> 'd DurableEngine.surroundings \<Rightarrow> 'd pg_journal \<Rightarrow> (redis_command \<Rightarrow> 'r \<Rightarrow> 'r) \<Rightarrow> 'r MarketFeed.surroundings \<Rightarrow>
     'r redis_sink \<Rightarrow> (trade \<Rightarrow> 'u \<Rightarrow> 'u) option \<Rightarrow> 'u \<Rightarrow> ('d pg_journal, 'r redis_sink, 'u) engine" where
  "full_engine D env j exec renv k f u \<equiv> pg_engine D env j f (Some (RedisMarketData_vtable exec renv, k)) u"

lemma sides_start:
  "journal_side (durable_start (pg_engine D env j f k u)) = durable_start (pg_engine D env j f None u)"
  "feed_side (durable_start (plugged_engine J f k u)) = idle (plugged_engine None f k u)"
  by (simp_all add: journal_side_def feed_side_def durable_start_def idle_def view_system_def without_sink_def without_journal_def
      plugged_engine_defs)

lemma untimed_without_sink [simp]: "untimed_state (without_sink e) = untimed_state e"
  by (simp add: untimed_state_def no_sink.view_fields)

lemma untimed_best:
  "untimed_book b = untimed_book b' \<Longrightarrow> getBestBid b = getBestBid b' \<and> getBestAsk b = getBestAsk b'"
  unfolding getBestBid_def getBestAsk_def by (metis untimed_book_sel(2,3))

lemma untimed_last_price:
  "map untimed_trade ts = map untimed_trade ts' \<Longrightarrow> ts \<noteq> [] \<Longrightarrow> price (last ts) = price (last ts')"
proof -
  assume a: "map untimed_trade ts = map untimed_trade ts'" "ts \<noteq> []"
  then have "ts' \<noteq> []" by auto
  with a have "untimed_trade (last ts) = untimed_trade (last ts')" by (metis last_map)
  then have "price (untimed_trade (last ts)) = price (untimed_trade (last ts'))" by simp
  then show ?thesis by (simp add: untimed_trade_def)
qed

section \<open>Samples\<close>

text \<open>Two orders that trade; the writer and the publisher are at work before, during and after \<open>stop()\<close>.\<close>

definition sample_full :: "full_label list" where
  "sample_full =
     [On (Sys Start), On (Sys (Submit (Some (limit_order 1 SELL 10 100)))), On (Sys (Submit (Some (limit_order 2 BUY 4 101)))),
      On (Sys (Round at_zero)), Pub good_network, On (Sys StopSignal), On (Sys (Round at_zero)), On Writer, On (Sys (Round at_zero)),
      On StopFlush, On Writer, Pub good_network, On Writer, On FlushReturn, Pub good_network]"

definition sample_full_engine :: "(pg_tables, (string \<Rightarrow> string option) redis_sink, unit) durable" where
  "sample_full_engine = durable_start (full_engine good_db (\<lambda>_. (0, 0)) sample_journal map_server sample_env sample_sink None ())"

lemma sample_full_run:
  obtains s V k d where "full_run good_db map_server sample_full_engine sample_full s" "clean_stop (journal_steps sample_full) s"
    "map price (tradeLog (eng (process s))) = [Finite 100]" "getBestBid (eng_book (eng (process s))) = None"
    "getBestAsk (eng_book (eng (process s))) = Some (Finite 100)" "sink (eng (process s)) = Some (V, k)"
    "RedisMarketData.in_flight k = []" "msg_queue k = []" "database_of s = Some d"
proof -
  have "case full_exec good_db map_server sample_full sample_full_engine of None \<Rightarrow> False | Some s \<Rightarrow>
      waiting (process s) = [] \<and> map price (tradeLog (eng (process s))) = [Finite 100] \<and>
      getBestBid (eng_book (eng (process s))) = None \<and> getBestAsk (eng_book (eng (process s))) = Some (Finite 100) \<and>
      (case sink (eng (process s)) of None \<Rightarrow> False | Some (V, k) \<Rightarrow> RedisMarketData.in_flight k = [] \<and> msg_queue k = []) \<and>
      database_of s \<noteq> None" by code_simp
  then obtain s V k d where s: "full_run good_db map_server sample_full_engine sample_full s" "waiting (process s) = []"
    "map price (tradeLog (eng (process s))) = [Finite 100]" "getBestBid (eng_book (eng (process s))) = None"
    "getBestAsk (eng_book (eng (process s))) = Some (Finite 100)" "sink (eng (process s)) = Some (V, k)"
    "RedisMarketData.in_flight k = []" "msg_queue k = []" "database_of s = Some d"
    by (auto simp: full_run_iff simp del: full_exec.simps split: option.splits)
  have "length (tradeLog (eng (process s))) = 1" using arg_cong [OF s(3), of length] by simp
  with s(2) have "clean_stop (journal_steps sample_full) s" by (simp add: clean_stop_def sample_full_def)
  from s(1) this s(3-9) show thesis by (rule that)
qed

section \<open>Properties\<close>

text \<open>C15: the plug-ins do not interfere. Every run of an engine with both plug-ins, in any interleaving of all
  threads, is step by step a run of the engine with the PostgreSQL journal alone, whose journal, database,
  book and trade log are the same, and a run of the engine with the Redis sink alone, whose sink, server,
  book and trade log are the same. Nothing the network does can change what is journaled, and nothing the
  database does can change what is published.\<close>

theorem plugins_do_not_interfere:
  assumes "full_run D exec (durable_start (full_engine D env j exec renv k f u)) tr s"
  shows "durable_run D (durable_start (pg_engine D env j f (None :: (unit imarket_data_sink \<times> unit) option) u)) (journal_steps tr)
      (journal_side s) \<and>
    feed_run exec (idle (plugged_engine (None :: (unit ijournal \<times> unit) option) f (Some (RedisMarketData_vtable exec renv, k)) u))
      (feed_steps tr) (feed_side s)"
  using full_run_sides [OF assms] by (simp add: sides_start) (simp add: durable_start_def)

theorem plugins_do_not_interfere_witness:
  "\<exists>s. full_run good_db map_server sample_full_engine sample_full s \<and>
     durable_run good_db (durable_start (pg_engine good_db (\<lambda>_. (0, 0)) sample_journal None (None :: (unit imarket_data_sink \<times> unit) option) ()))
       (journal_steps sample_full) (journal_side s) \<and>
     map price (tradeLog (eng (feed_side s))) = [Finite 100]"
proof -
  obtain s where s: "full_run good_db map_server sample_full_engine sample_full s"
    "map price (tradeLog (eng (process s))) = [Finite 100]" by (rule sample_full_run)
  from plugins_do_not_interfere [OF s(1) [unfolded sample_full_engine_def]] s show ?thesis by (auto simp: no_journal.view_fields)
qed



end
