(* ===== verification/Vwap.thy ===== *)
theory Vwap
  imports Prelude
begin

text \<open>
  \<open>demos/simd_demo.cpp\<close>: the volume-weighted average price of a session, once with a plain loop and once
  with AVX2 registers of four doubles.

  Floating-point operations round: \<open>r\<close> is the rounding of an exact result to the nearest double, an
  argument of every definition, and a fused multiply-add rounds once. A value is the rational number the
  double denotes; overflow to infinity does not occur in what is stated. The quotient of the two sums may
  be NaN or an infinity. Reading a vector out of range is undefined behaviour.
\<close>

section \<open>Rounded arithmetic\<close>

type_synonym rounding = "rat \<Rightarrow> rat"

definition fadd :: "rounding \<Rightarrow> rat \<Rightarrow> rat \<Rightarrow> rat" where
  "fadd r a b = r (a + b)"

definition fmul :: "rounding \<Rightarrow> rat \<Rightarrow> rat \<Rightarrow> rat" where
  "fmul r a b = r (a * b)"

definition fmadd :: "rounding \<Rightarrow> rat \<Rightarrow> rat \<Rightarrow> rat \<Rightarrow> rat" where
  "fmadd r a b c = r (a * b + c)"

definition fdiv :: "rounding \<Rightarrow> rat \<Rightarrow> rat \<Rightarrow> double" where
  "fdiv r a b =
     (if b = 0 then (if a = 0 then NaN else if 0 < a then PosInf else NegInf) else Finite (r (a / b)))"

definition vec_at :: "rat list \<Rightarrow> nat \<Rightarrow> rat result" where
  "vec_at xs i = (if i < length xs then Inr (xs ! i) else Inl undefined_behaviour)"

section \<open>The two routines\<close>

text \<open>The scalar loop from \<open>i\<close> to \<open>n\<close>; the SIMD routine uses it for the elements left over.\<close>

function scalarLoop ::
  "rounding \<Rightarrow> rat list \<Rightarrow> rat list \<Rightarrow> nat \<Rightarrow> nat \<Rightarrow> rat \<Rightarrow> rat \<Rightarrow> (rat \<times> rat) result" where
  "scalarLoop r prices qtys i n num den =
     (if i < n then
        bindE (vec_at prices i) (\<lambda>p.
        bindE (vec_at qtys i) (\<lambda>q.
        scalarLoop r prices qtys (i + 1) n (fadd r num (fmul r p q)) (fadd r den q)))
      else Inr (num, den))"
  by pat_completeness auto
termination by (relation "measure (\<lambda>(r, prices, qtys, i, n, num, den). n - i)") auto

declare scalarLoop.simps [simp del]

definition vwapScalar :: "rounding \<Rightarrow> rat list \<Rightarrow> rat list \<Rightarrow> double result" where
  "vwapScalar r prices qtys =
     bindE (scalarLoop r prices qtys 0 (length prices) 0 0) (\<lambda>(num, den). Inr (fdiv r num den))"

datatype m256d = M256d rat rat rat rat

definition mm256_setzero_pd :: m256d where
  "mm256_setzero_pd = M256d 0 0 0 0"

definition mm256_loadu_pd :: "rat list \<Rightarrow> nat \<Rightarrow> m256d result" where
  "mm256_loadu_pd xs i =
     bindE (vec_at xs i) (\<lambda>a. bindE (vec_at xs (i + 1)) (\<lambda>b.
     bindE (vec_at xs (i + 2)) (\<lambda>c. bindE (vec_at xs (i + 3)) (\<lambda>d. Inr (M256d a b c d)))))"

fun mm256_fmadd_pd :: "rounding \<Rightarrow> m256d \<Rightarrow> m256d \<Rightarrow> m256d \<Rightarrow> m256d" where
  "mm256_fmadd_pd r (M256d a b c d) (M256d a' b' c' d') (M256d w x y z) =
     M256d (fmadd r a a' w) (fmadd r b b' x) (fmadd r c c' y) (fmadd r d d' z)"

fun mm256_add_pd :: "rounding \<Rightarrow> m256d \<Rightarrow> m256d \<Rightarrow> m256d" where
  "mm256_add_pd r (M256d a b c d) (M256d a' b' c' d') =
     M256d (fadd r a a') (fadd r b b') (fadd r c c') (fadd r d d')"

fun horizontal :: "rounding \<Rightarrow> m256d \<Rightarrow> rat" where
  "horizontal r (M256d a b c d) = fadd r (fadd r (fadd r a b) c) d"

function simdLoop ::
  "rounding \<Rightarrow> rat list \<Rightarrow> rat list \<Rightarrow> nat \<Rightarrow> nat \<Rightarrow> m256d \<Rightarrow> m256d \<Rightarrow> (m256d \<times> m256d) result" where
  "simdLoop r prices qtys i simdEnd numVec denVec =
     (if i < simdEnd then
        bindE (mm256_loadu_pd prices i) (\<lambda>p.
        bindE (mm256_loadu_pd qtys i) (\<lambda>q.
        simdLoop r prices qtys (i + 4) simdEnd (mm256_fmadd_pd r p q numVec) (mm256_add_pd r denVec q)))
      else Inr (numVec, denVec))"
  by pat_completeness auto
termination by (relation "measure (\<lambda>(r, prices, qtys, i, n, num, den). n - i)") auto

declare simdLoop.simps [simp del]

definition vwapSIMD :: "rounding \<Rightarrow> rat list \<Rightarrow> rat list \<Rightarrow> double result" where
  "vwapSIMD r prices qtys =
     (let n = length prices; simdEnd = n - n mod 4 in
      bindE (simdLoop r prices qtys 0 simdEnd mm256_setzero_pd mm256_setzero_pd) (\<lambda>(numVec, denVec).
      bindE (scalarLoop r prices qtys simdEnd n (horizontal r numVec) (horizontal r denVec)) (\<lambda>(num, den).
      Inr (fdiv r num den))))"

section \<open>Exact sums of integers\<close>

text \<open>A double represents every integer of magnitude up to 2^53, and rounding does not change it.\<close>

definition exact_on_integers :: "rounding \<Rightarrow> bool" where
  "exact_on_integers r \<longleftrightarrow> (\<forall>k. \<bar>k\<bar> \<le> 2 ^ 53 \<longrightarrow> r (of_int k) = of_int k)"

definition reals :: "int list \<Rightarrow> rat list" where
  "reals xs = map of_int xs"

definition notional :: "int list \<Rightarrow> int list \<Rightarrow> nat \<Rightarrow> int" where
  "notional P Q j = P ! j * Q ! j"

lemma exactD: "exact_on_integers r \<Longrightarrow> \<bar>k\<bar> \<le> 2 ^ 53 \<Longrightarrow> r (of_int k) = of_int k"
  by (simp add: exact_on_integers_def)

lemma exact_fadd: "exact_on_integers r \<Longrightarrow> \<bar>a + b\<bar> \<le> 2 ^ 53 \<Longrightarrow> fadd r (of_int a) (of_int b) = of_int (a + b)"
  using exactD [of r "a + b"] by (simp add: fadd_def)

lemma exact_fmul: "exact_on_integers r \<Longrightarrow> \<bar>a * b\<bar> \<le> 2 ^ 53 \<Longrightarrow> fmul r (of_int a) (of_int b) = of_int (a * b)"
  using exactD [of r "a * b"] by (simp add: fmul_def)

lemma exact_fmadd:
  "exact_on_integers r \<Longrightarrow> \<bar>a * b + c\<bar> \<le> 2 ^ 53 \<Longrightarrow> fmadd r (of_int a) (of_int b) (of_int c) = of_int (a * b + c)"
  using exactD [of r "a * b + c"] by (simp add: fmadd_def)

lemma vec_at_reals: "i < length xs \<Longrightarrow> vec_at (reals xs) i = Inr (of_int (xs ! i))"
  by (simp add: vec_at_def reals_def)

lemma scalarLoop_exact:
  assumes "exact_on_integers r" and "i \<le> n" and "n \<le> length P" and "n \<le> length Q"
    and "\<bar>a\<bar> + (\<Sum>j = i..<n. \<bar>notional P Q j\<bar>) \<le> 2 ^ 53" and "\<bar>b\<bar> + (\<Sum>j = i..<n. \<bar>Q ! j\<bar>) \<le> 2 ^ 53"
  shows "scalarLoop r (reals P) (reals Q) i n (of_int a) (of_int b) =
    Inr (of_int (a + (\<Sum>j = i..<n. notional P Q j)), of_int (b + (\<Sum>j = i..<n. Q ! j)))"
  using assms
proof (induction "n - i" arbitrary: i a b)
  case 0
  then show ?case by (simp add: scalarLoop.simps)
next
  case (Suc k)
  then have i: "i < n" by simp
  let ?p = "notional P Q i"
  have split: "(\<Sum>j = i..<n. f j) = f i + (\<Sum>j = Suc i..<n. f j)" for f :: "nat \<Rightarrow> int"
    using i by (rule sum.atLeast_Suc_lessThan)
  have pos: "0 \<le> (\<Sum>j = Suc i..<n. \<bar>notional P Q j\<bar>)" "0 \<le> (\<Sum>j = Suc i..<n. \<bar>Q ! j\<bar>)"
    by (simp_all add: sum_nonneg)
  have bnd: "\<bar>?p\<bar> \<le> 2 ^ 53" "\<bar>a + ?p\<bar> + (\<Sum>j = Suc i..<n. \<bar>notional P Q j\<bar>) \<le> 2 ^ 53"
    "\<bar>b + Q ! i\<bar> + (\<Sum>j = Suc i..<n. \<bar>Q ! j\<bar>) \<le> 2 ^ 53"
    using Suc.prems(5,6) pos unfolding split by linarith+
  then have small: "\<bar>a + ?p\<bar> \<le> 2 ^ 53" "\<bar>b + Q ! i\<bar> \<le> 2 ^ 53" using pos by linarith+
  have step: "scalarLoop r (reals P) (reals Q) i n (of_int a) (of_int b) =
      scalarLoop r (reals P) (reals Q) (Suc i) n (of_int (a + ?p)) (of_int (b + Q ! i))"
    using i Suc.prems(1,3,4) bnd(1) small
    by (subst scalarLoop.simps)
      (simp add: vec_at_reals exact_fmul exact_fadd notional_def del: of_int_add of_int_mult)
  show ?case
    unfolding step using Suc.hyps(2) i Suc.prems(1,3,4) bnd
    by (subst Suc.hyps(1)) (simp_all add: split)
qed

text \<open>Four lanes of integers, and the exact run of the vector loop on them: the lanes stay within bounds and
  their sum is the sum of the elements read.\<close>

fun lanes :: "int \<times> int \<times> int \<times> int \<Rightarrow> m256d" where
  "lanes (a, b, c, d) = M256d (of_int a) (of_int b) (of_int c) (of_int d)"

fun lane_sum :: "int \<times> int \<times> int \<times> int \<Rightarrow> int" where
  "lane_sum (a, b, c, d) = a + b + c + d"

fun lane_abs :: "int \<times> int \<times> int \<times> int \<Rightarrow> int" where
  "lane_abs (a, b, c, d) = \<bar>a\<bar> + \<bar>b\<bar> + \<bar>c\<bar> + \<bar>d\<bar>"

fun lane_add :: "int \<times> int \<times> int \<times> int \<Rightarrow> (nat \<Rightarrow> int) \<Rightarrow> nat \<Rightarrow> int \<times> int \<times> int \<times> int" where
  "lane_add (a, b, c, d) f i = (a + f i, b + f (i + 1), c + f (i + 2), d + f (i + 3))"

lemma sum_four:
  "i + 4 \<le> (n :: nat) \<Longrightarrow> (\<Sum>j = i..<n. f j) = f i + f (i + 1) + f (i + 2) + f (i + 3) + (\<Sum>j = i + 4..<n. (f j :: int))"
  by (simp add: sum.atLeast_Suc_lessThan numeral_eq_Suc)

lemma four_le: "w \<le> a + p \<Longrightarrow> x \<le> b + q \<Longrightarrow> y \<le> c + u \<Longrightarrow> z \<le> d + v \<Longrightarrow>
    w + x + y + z \<le> a + b + c + d + p + q + u + (v :: int)"
  by linarith

lemma each_le:
  "0 \<le> a \<Longrightarrow> 0 \<le> b \<Longrightarrow> 0 \<le> c \<Longrightarrow> 0 \<le> d \<Longrightarrow> 0 \<le> p \<Longrightarrow> 0 \<le> q \<Longrightarrow> 0 \<le> u \<Longrightarrow> 0 \<le> v \<Longrightarrow>
     a + b + c + d + p + q + u + v \<le> (B :: int) \<Longrightarrow> a + p \<le> B \<and> b + q \<le> B \<and> c + u \<le> B \<and> d + v \<le> B"
  by linarith

lemma abs_add_le: "\<bar>a\<bar> + \<bar>b\<bar> \<le> B \<Longrightarrow> \<bar>a + b\<bar> \<le> (B :: int)"
  by (rule order_trans [OF abs_triangle_ineq])

lemma lane_add_bounds:
  "lane_abs (lane_add A f i) \<le> lane_abs A + \<bar>f i\<bar> + \<bar>f (i + 1)\<bar> + \<bar>f (i + 2)\<bar> + \<bar>f (i + 3)\<bar>"
  "lane_sum (lane_add A f i) = lane_sum A + f i + f (i + 1) + f (i + 2) + f (i + 3)"
proof -
  obtain a b c d where A: "A = (a, b, c, d)" by (metis prod_cases4)
  show "lane_abs (lane_add A f i) \<le> lane_abs A + \<bar>f i\<bar> + \<bar>f (i + 1)\<bar> + \<bar>f (i + 2)\<bar> + \<bar>f (i + 3)\<bar>"
    unfolding A lane_add.simps lane_abs.simps by (intro four_le abs_triangle_ineq)
  show "lane_sum (lane_add A f i) = lane_sum A + f i + f (i + 1) + f (i + 2) + f (i + 3)"
    unfolding A by simp
qed

lemma exact_lanes_fmadd:
  assumes "exact_on_integers r" and "lane_abs A + \<bar>notional P Q i\<bar> + \<bar>notional P Q (i + 1)\<bar> +
      \<bar>notional P Q (i + 2)\<bar> + \<bar>notional P Q (i + 3)\<bar> \<le> 2 ^ 53"
  shows "mm256_fmadd_pd r (lanes (P ! i, P ! (i + 1), P ! (i + 2), P ! (i + 3)))
      (lanes (Q ! i, Q ! (i + 1), Q ! (i + 2), Q ! (i + 3))) (lanes A) = lanes (lane_add A (notional P Q) i)"
proof -
  obtain a b c d where A: "A = (a, b, c, d)" by (metis prod_cases4)
  from each_le [OF _ _ _ _ _ _ _ _ assms(2) [unfolded A lane_abs.simps]]
  have "\<bar>a + notional P Q i\<bar> \<le> 2 ^ 53 \<and> \<bar>b + notional P Q (i + 1)\<bar> \<le> 2 ^ 53 \<and>
    \<bar>c + notional P Q (i + 2)\<bar> \<le> 2 ^ 53 \<and> \<bar>d + notional P Q (i + 3)\<bar> \<le> 2 ^ 53"
    by (intro conjI abs_add_le) simp_all
  then show ?thesis
    unfolding A by (simp add: exact_fmadd [OF assms(1)] notional_def add.commute del: of_int_add of_int_mult)
qed

lemma exact_lanes_add:
  assumes "exact_on_integers r"
    and "lane_abs B + \<bar>Q ! i\<bar> + \<bar>Q ! (i + 1)\<bar> + \<bar>Q ! (i + 2)\<bar> + \<bar>Q ! (i + 3)\<bar> \<le> 2 ^ 53"
  shows "mm256_add_pd r (lanes B) (lanes (Q ! i, Q ! (i + 1), Q ! (i + 2), Q ! (i + 3))) =
    lanes (lane_add B (nth Q) i)"
proof -
  obtain a b c d where B: "B = (a, b, c, d)" by (metis prod_cases4)
  from each_le [OF _ _ _ _ _ _ _ _ assms(2) [unfolded B lane_abs.simps]]
  have "\<bar>a + Q ! i\<bar> \<le> 2 ^ 53 \<and> \<bar>b + Q ! (i + 1)\<bar> \<le> 2 ^ 53 \<and> \<bar>c + Q ! (i + 2)\<bar> \<le> 2 ^ 53 \<and>
    \<bar>d + Q ! (i + 3)\<bar> \<le> 2 ^ 53"
    by (intro conjI abs_add_le) simp_all
  then show ?thesis unfolding B by (simp add: exact_fadd [OF assms(1)] del: of_int_add)
qed

lemma exact_horizontal:
  assumes "exact_on_integers r" and "lane_abs A \<le> 2 ^ 53"
  shows "horizontal r (lanes A) = of_int (lane_sum A)"
proof -
  obtain a b c d where A: "A = (a, b, c, d)" by (metis prod_cases4)
  from assms(2) have "\<bar>a + b\<bar> \<le> 2 ^ 53" "\<bar>a + b + c\<bar> \<le> 2 ^ 53" "\<bar>a + b + c + d\<bar> \<le> 2 ^ 53"
    unfolding A lane_abs.simps by linarith+
  then show ?thesis unfolding A by (simp add: exact_fadd [OF assms(1)] del: of_int_add)
qed

lemma loadu_reals:
  "i + 4 \<le> length xs \<Longrightarrow>
     mm256_loadu_pd (reals xs) i = Inr (lanes (xs ! i, xs ! (i + 1), xs ! (i + 2), xs ! (i + 3)))"
  by (simp add: mm256_loadu_pd_def vec_at_reals)

lemma simdLoop_exact:
  assumes "exact_on_integers r" and "i + 4 * k = n" and "n \<le> length P" and "n \<le> length Q"
    and "lane_abs A + (\<Sum>j = i..<n. \<bar>notional P Q j\<bar>) \<le> 2 ^ 53" and "lane_abs B + (\<Sum>j = i..<n. \<bar>Q ! j\<bar>) \<le> 2 ^ 53"
  shows "\<exists>A' B'. simdLoop r (reals P) (reals Q) i n (lanes A) (lanes B) = Inr (lanes A', lanes B') \<and>
    lane_abs A' \<le> lane_abs A + (\<Sum>j = i..<n. \<bar>notional P Q j\<bar>) \<and> lane_sum A' = lane_sum A + (\<Sum>j = i..<n. notional P Q j) \<and>
    lane_abs B' \<le> lane_abs B + (\<Sum>j = i..<n. \<bar>Q ! j\<bar>) \<and> lane_sum B' = lane_sum B + (\<Sum>j = i..<n. Q ! j)"
  using assms(2-)
proof (induction k arbitrary: i A B)
  case 0
  then show ?case by (intro exI [of _ A] exI [of _ B]) (simp add: simdLoop.simps)
next
  case (Suc k)
  from Suc.prems(1) have i: "i < n" "i + 4 \<le> n" by simp_all
  note four = sum_four [OF i(2)]
  have pos: "0 \<le> (\<Sum>j = i + 4..<n. \<bar>notional P Q j\<bar>)" "0 \<le> (\<Sum>j = i + 4..<n. \<bar>Q ! j\<bar>)"
    by (simp_all add: sum_nonneg)
  let ?A = "lane_add A (notional P Q) i" and ?B = "lane_add B (nth Q) i"
  have bA: "lane_abs A + \<bar>notional P Q i\<bar> + \<bar>notional P Q (i + 1)\<bar> + \<bar>notional P Q (i + 2)\<bar> +
      \<bar>notional P Q (i + 3)\<bar> \<le> 2 ^ 53"
    using Suc.prems(4) pos(1) unfolding four by linarith
  have bB: "lane_abs B + \<bar>Q ! i\<bar> + \<bar>Q ! (i + 1)\<bar> + \<bar>Q ! (i + 2)\<bar> + \<bar>Q ! (i + 3)\<bar> \<le> 2 ^ 53"
    using Suc.prems(5) pos(2) unfolding four by linarith
  have step: "simdLoop r (reals P) (reals Q) i n (lanes A) (lanes B) =
      simdLoop r (reals P) (reals Q) (i + 4) n (lanes ?A) (lanes ?B)"
    using i Suc.prems(2,3) exact_lanes_fmadd [OF assms(1) bA] exact_lanes_add [OF assms(1) bB]
    by (subst simdLoop.simps) (simp add: loadu_reals del: lanes.simps)
  have "lane_abs ?A + (\<Sum>j = i + 4..<n. \<bar>notional P Q j\<bar>) \<le> 2 ^ 53" "lane_abs ?B + (\<Sum>j = i + 4..<n. \<bar>Q ! j\<bar>) \<le> 2 ^ 53"
    using Suc.prems(4,5) lane_add_bounds(1) [of A "notional P Q" i] lane_add_bounds(1) [of B "nth Q" i]
    unfolding four by linarith+
  then obtain A' B' where R: "simdLoop r (reals P) (reals Q) (i + 4) n (lanes ?A) (lanes ?B) = Inr (lanes A', lanes B')"
    "lane_abs A' \<le> lane_abs ?A + (\<Sum>j = i + 4..<n. \<bar>notional P Q j\<bar>)"
    "lane_sum A' = lane_sum ?A + (\<Sum>j = i + 4..<n. notional P Q j)"
    "lane_abs B' \<le> lane_abs ?B + (\<Sum>j = i + 4..<n. \<bar>Q ! j\<bar>)" "lane_sum B' = lane_sum ?B + (\<Sum>j = i + 4..<n. Q ! j)"
    using Suc.IH [of "i + 4" ?A ?B] Suc.prems(1-3) by auto
  note ab = lane_add_bounds [of A "notional P Q" i] and bb = lane_add_bounds [of B "nth Q" i]
  have "lane_abs A' \<le> lane_abs A + (\<Sum>j = i..<n. \<bar>notional P Q j\<bar>)"
    using R(2) ab(1) unfolding four by linarith
  moreover have "lane_sum A' = lane_sum A + (\<Sum>j = i..<n. notional P Q j)"
    using R(3) ab(2) unfolding four by linarith
  moreover have "lane_abs B' \<le> lane_abs B + (\<Sum>j = i..<n. \<bar>Q ! j\<bar>)"
    using R(4) bb(1) unfolding four by linarith
  moreover have "lane_sum B' = lane_sum B + (\<Sum>j = i..<n. Q ! j)"
    using R(5) bb(2) unfolding four by linarith
  ultimately show ?case using R(1) unfolding step by blast
qed

section \<open>Properties\<close>

text \<open>C38: the vectorised routine computes the same average as the scalar one. For whole-number prices and
  quantities whose products, and whose quantities, sum up in magnitude to at most 2^53, and any rounding
  that leaves such integers alone, both routines read in range and return the same value, for every
  length, whether or not it is a multiple of four.\<close>

theorem vwapSIMD_equals_vwapScalar:
  assumes "exact_on_integers r" and "length P = length Q"
    and "(\<Sum>j = 0..<length P. \<bar>P ! j * Q ! j\<bar>) \<le> 2 ^ 53" and "(\<Sum>j = 0..<length Q. \<bar>Q ! j\<bar>) \<le> 2 ^ 53"
  shows "\<exists>v. vwapScalar r (map of_int P) (map of_int Q) = Inr v \<and> vwapSIMD r (map of_int P) (map of_int Q) = Inr v"
proof -
  let ?n = "length P" and ?N = "\<lambda>i k. \<Sum>j = i..<k. notional P Q j" and ?Q = "\<lambda>i k. \<Sum>j = i..<k. Q ! j"
  define m where "m = ?n - ?n mod 4"
  have m: "m \<le> ?n" "0 + 4 * (?n div 4) = m" by (simp_all add: m_def minus_mod_eq_mult_div)
  have cat: "(\<Sum>j = 0..<m. f j) + (\<Sum>j = m..<?n. f j) = (\<Sum>j = 0..<?n. f j)" for f :: "nat \<Rightarrow> int"
    using m(1) by (simp add: sum.atLeastLessThan_concat)
  from assms(3,4) have b: "(\<Sum>j = 0..<m. \<bar>notional P Q j\<bar>) + (\<Sum>j = m..<?n. \<bar>notional P Q j\<bar>) \<le> 2 ^ 53"
    "(\<Sum>j = 0..<m. \<bar>Q ! j\<bar>) + (\<Sum>j = m..<?n. \<bar>Q ! j\<bar>) \<le> 2 ^ 53"
    unfolding cat by (simp_all add: notional_def assms(2))
  have nn: "0 \<le> (\<Sum>j = m..<?n. \<bar>notional P Q j\<bar>)" "0 \<le> (\<Sum>j = m..<?n. \<bar>Q ! j\<bar>)" by (simp_all add: sum_nonneg)
  have scalar: "scalarLoop r (reals P) (reals Q) 0 ?n 0 0 = Inr (of_int (?N 0 ?n), of_int (?Q 0 ?n))"
    using scalarLoop_exact [OF assms(1), of 0 ?n P Q 0 0] assms by (simp add: notional_def)
  have pre: "lane_abs (0, 0, 0, 0) + (\<Sum>j = 0..<m. \<bar>notional P Q j\<bar>) \<le> 2 ^ 53"
    "lane_abs (0, 0, 0, 0) + (\<Sum>j = 0..<m. \<bar>Q ! j\<bar>) \<le> 2 ^ 53"
    using b nn unfolding lane_abs.simps by linarith+
  have z: "lane_abs (0, 0, 0, 0) = 0" "lane_sum (0, 0, 0, 0) = 0" by simp_all
  have "m \<le> length Q" using m(1) assms(2) by simp
  from simdLoop_exact [OF assms(1) m(2,1) this pre] obtain A B where simd:
    "simdLoop r (reals P) (reals Q) 0 m (lanes (0, 0, 0, 0)) (lanes (0, 0, 0, 0)) = Inr (lanes A, lanes B)"
    "lane_abs A \<le> (\<Sum>j = 0..<m. \<bar>notional P Q j\<bar>)" "lane_sum A = ?N 0 m"
    "lane_abs B \<le> (\<Sum>j = 0..<m. \<bar>Q ! j\<bar>)" "lane_sum B = ?Q 0 m"
    unfolding z add_0 by blast
  have abs: "\<bar>lane_sum A\<bar> \<le> lane_abs A" "\<bar>lane_sum B\<bar> \<le> lane_abs B" by (cases A; simp) (cases B; simp)
  have hor: "horizontal r (lanes A) = of_int (?N 0 m)" "horizontal r (lanes B) = of_int (?Q 0 m)"
  proof -
    have "lane_abs A \<le> 2 ^ 53" "lane_abs B \<le> 2 ^ 53" using simd(2,4) b nn by linarith+
    then show "horizontal r (lanes A) = of_int (?N 0 m)" "horizontal r (lanes B) = of_int (?Q 0 m)"
      using exact_horizontal [OF assms(1)] simd(3,5) by metis+
  qed
  have "\<bar>?N 0 m\<bar> + (\<Sum>j = m..<?n. \<bar>notional P Q j\<bar>) \<le> 2 ^ 53" "\<bar>?Q 0 m\<bar> + (\<Sum>j = m..<?n. \<bar>Q ! j\<bar>) \<le> 2 ^ 53"
    using simd(2,4) abs [unfolded simd(3,5)] b by linarith+
  from scalarLoop_exact [OF assms(1) m(1) _ _ this]
  have "scalarLoop r (reals P) (reals Q) m ?n (of_int (?N 0 m)) (of_int (?Q 0 m)) =
      Inr (of_int (?N 0 ?n), of_int (?Q 0 ?n))"
    unfolding cat by (simp add: assms(2))
  then show ?thesis
    using scalar simd(1) hor
    by (simp add: vwapScalar_def vwapSIMD_def Let_def m_def [symmetric] mm256_setzero_pd_def reals_def)
qed

theorem vwapSIMD_equals_vwapScalar_witness:
  "\<exists>v. vwapScalar id (map of_int [100, 101, 99, 100, 102]) (map of_int [10, 20, 30, 5, 1]) = Inr v \<and>
     vwapSIMD id (map of_int [100, 101, 99, 100, 102]) (map of_int [10, 20, 30, 5, 1]) = Inr v"
  by (rule vwapSIMD_equals_vwapScalar) (simp_all add: exact_on_integers_def sum.atLeast_Suc_lessThan)

end
