(* ===== verification/PersistenceDemo.thy ===== *)
theory PersistenceDemo
  imports PlugIns Vwap
begin

text \<open>
  \<open>demos/persistence_demo.cpp\<close>: trade and persist with both plug-ins, discard the process, recover and trade on,
  then a large workload with persistence on. All of \<open>main\<close> is here, from the settings to the exit code, with the
  destruction of engine, sink and journal at the end of each phase, and every line it prints.

  The environment, the two servers, the clocks and what the random generators return are arguments. A phase
  is a session of an engine over a \<open>PostgresJournal\<close> and a \<open>RedisMarketData\<close> (\<open>PlugIns\<close>), in any interleaving
  of main, the matching thread, the writer and the publisher; \<open>main\<close> is a relation, because what it prints
  about Redis depends on the interleaving.
\<close>

section \<open>Configuration\<close>

definition envOr :: "(string \<Rightarrow> string option) \<Rightarrow> string \<Rightarrow> string \<Rightarrow> string" where
  "envOr getenv key fallback = (case getenv key of None \<Rightarrow> fallback | Some v \<Rightarrow> v)"

text \<open>\<open>std::stoi\<close>: white space, a sign, digits; it throws when there is no digit or the value is out of the
  range of \<open>int\<close>. \<open>std::out_of_range\<close> is a \<open>logic_error\<close>.\<close>

definition is_digit :: "char \<Rightarrow> bool" where
  "is_digit c \<longleftrightarrow> of_char CHR ''0'' \<le> (of_char c :: nat) \<and> (of_char c :: nat) \<le> of_char CHR ''9''"

fun digits_value :: "int \<Rightarrow> string \<Rightarrow> int" where
  "digits_value acc [] = acc"
| "digits_value acc (c # cs) = (if is_digit c then digits_value (10 * acc + (of_char c - 48)) cs else acc)"

fun skip_space :: "string \<Rightarrow> string" where
  "skip_space [] = []"
| "skip_space (c # cs) = (if of_char c \<in> {9, 10, 11, 12, 13, 32 :: nat} then skip_space cs else c # cs)"

fun sign_of :: "string \<Rightarrow> int \<times> string" where
  "sign_of [] = (1, [])"
| "sign_of (c # cs) = (if c = CHR ''-'' then (-1, cs) else if c = CHR ''+'' then (1, cs) else (1, c # cs))"

definition stoi :: "string \<Rightarrow> int result" where
  "stoi str =
     (let (sgn, cs) = sign_of (skip_space str) in
      case cs of
        [] \<Rightarrow> Inl (invalid_argument ''stoi'')
      | c # _ \<Rightarrow>
          if \<not> is_digit c then Inl (invalid_argument ''stoi'')
          else let v = sgn * digits_value 0 cs in if int32 v then Inr v else Inl (logic_error ''stoi''))"

record demo_config =
  pgConn :: string
  redisHost :: string
  redisPort :: int

definition demo_configuration :: "(string \<Rightarrow> string option) \<Rightarrow> demo_config result" where
  "demo_configuration getenv =
     bindE (stoi (envOr getenv ''REDIS_PORT'' ''6379'')) (\<lambda>port.
     Inr \<lparr>pgConn = envOr getenv ''PG_CONN'' ''host=localhost port=5432 dbname=trading user=trader password=trader'',
       redisHost = envOr getenv ''REDIS_HOST'' ''127.0.0.1'', redisPort = port\<rparr>)"

section \<open>Clean tables\<close>

definition truncateTables :: "'d database \<Rightarrow> 'd \<Rightarrow> 'd outcome" where
  "truncateTables D d = db_txn D [truncate_events, truncate_trades] d"

text \<open>The beginning of \<open>main\<close>: \<open>Inl\<close> is the exit code when \<open>truncateTables\<close> throws.\<close>

definition demo_begin :: "'d database \<Rightarrow> 'd \<Rightarrow> int + 'd" where
  "demo_begin D d = (case truncateTables D d of Throws err d' \<Rightarrow> Inl 1 | Returns d' \<Rightarrow> Inr d')"

section \<open>Output\<close>

datatype demo_line =
    TextLine string
  | CannotConnect
  | TradesHeader string nat
  | TradeLine order_id order_id int double
  | Persisted "64 word" "64 word" "64 word"
  | SubmittedIn nat rat
  | Throughput double
  | PostgresRows "64 word" "64 word" "64 word" double
  | RedisCommands "64 word"

definition printTrades :: "string \<Rightarrow> trade list \<Rightarrow> demo_line list" where
  "printTrades label trades =
     TradesHeader label (length trades) #
     map (\<lambda>t. TradeLine (buyOrderId t) (sellOrderId t) (quantity t) (price t)) trades"

text \<open>The average number of rows in a batch. The sum of the counters wraps in 64 bits and is converted to double.\<close>

definition avgBatch :: "rounding \<Rightarrow> 'd pg_journal \<Rightarrow> double" where
  "avgBatch r j =
     (if batchesCommitted j \<noteq> 0
      then fdiv r (r (of_nat (unat (eventsWritten j + tradesWritten j)))) (r (of_nat (unat (batchesCommitted j))))
      else dzero)"

section \<open>Orders\<close>

definition phase1_calls :: "(nat \<Rightarrow> timestamp) \<Rightarrow> sys_label list result" where
  "phase1_calls now =
     bindE (createOrder (now 0) LIMIT 1 1 SELL 10 (Finite 100)) (\<lambda>o1.
     bindE (createOrder (now 1) LIMIT 2 2 BUY 4 (Finite 100)) (\<lambda>o2.
     bindE (createOrder (now 2) LIMIT 3 1 SELL 5 (Finite 101)) (\<lambda>o3.
     Inr [Submit (Some o1), Submit (Some o2), Submit (Some o3), Cancel 3])))"

definition phase2_calls :: "(nat \<Rightarrow> timestamp) \<Rightarrow> sys_label list result" where
  "phase2_calls now =
     bindE (createOrder (now 3) LIMIT 4 3 BUY 6 (Finite 100)) (\<lambda>o4.
     bindE (createOrder (now 4) LIMIT 5 3 BUY 5 (Finite 101)) (\<lambda>o5.
     Inr [Submit (Some o4), Submit (Some o5)]))"

definition phase3Order :: "(nat \<Rightarrow> timestamp) \<Rightarrow> (nat \<Rightarrow> side \<times> int \<times> rat) \<Rightarrow> nat \<Rightarrow> order result" where
  "phase3Order now draws i =
     (case draws i of (s, q, p) \<Rightarrow> createOrder (now i) LIMIT (word_of_nat (i + 1)) 1 s q (Finite p))"

definition phase3_calls :: "(nat \<Rightarrow> timestamp) \<Rightarrow> (nat \<Rightarrow> side \<times> int \<times> rat) \<Rightarrow> nat \<Rightarrow> sys_label list result" where
  "phase3_calls now draws N =
     bindE (mapE (phase3Order now draws) [0..<N]) (\<lambda>ords. Inr (map (\<lambda>ord. Submit (Some ord)) ords))"

section \<open>What the program meets\<close>

text \<open>The database at the connection string and the Redis server at host and port, the surroundings of the two
  plug-ins in each phase and what the first connection to Redis gives, the clock of the orders of each phase, the readings
  during the recovery, what the distributions return, how often and how long phase 3 submits, and the rounding
  of doubles.\<close>

record ('d, 'r) demo_world =
  pg :: "'d database"
  pgEnv :: "nat \<Rightarrow> 'd DurableEngine.surroundings"
  redis :: "redis_command \<Rightarrow> 'r \<Rightarrow> 'r"
  redisEnv :: "nat \<Rightarrow> 'r MarketFeed.surroundings"
  firstConnect :: "nat \<Rightarrow> network"
  orderClock :: "nat \<Rightarrow> nat \<Rightarrow> timestamp"
  replayClock :: "nat \<Rightarrow> reading"
  drawn :: "nat \<Rightarrow> side \<times> int \<times> rat"
  submissions :: nat
  seconds :: rat
  fp :: rounding

text \<open>The engine with both plug-ins set, in phase \<open>i\<close>.\<close>

definition phase_engine ::
  "('d, 'r) demo_world \<Rightarrow> nat \<Rightarrow> 'd pg_journal \<Rightarrow> 'r redis_sink \<Rightarrow> ('d pg_journal, 'r redis_sink, unit) engine" where
  "phase_engine W i j k =
     setMarketDataSink (Some (RedisMarketData_vtable (redis W) (redisEnv W i), k))
       (setJournal (Some (PostgresJournal_vtable (pg W) (pgEnv W i), j)) (new_Engine ()))"

lemma phase_engine_plugged:
  "phase_engine W i j k = full_engine (pg W) (pgEnv W i) j (redis W) (redisEnv W i) k None ()"
  by (simp add: phase_engine_def plugged_engine_defs)

text \<open>A session up to where \<open>stop()\<close> returns, and what the writer and the publisher do while main prints.\<close>

definition full_session ::
  "('d, 'r) demo_world \<Rightarrow> ('d pg_journal, 'r redis_sink, unit) engine \<Rightarrow> sys_label list \<Rightarrow>
     ('d, 'r redis_sink, unit) durable \<Rightarrow> bool" where
  "full_session W e calls s \<longleftrightarrow>
     (\<exists>tr. full_run (pg W) (redis W) (durable_start e) (tr @ [On FlushReturn]) s \<and>
        callers (sys_of (journal_steps tr)) = Start # calls @ [StopSignal])"

definition background ::
  "('d, 'r) demo_world \<Rightarrow> ('d, 'r redis_sink, unit) durable \<Rightarrow> ('d, 'r redis_sink, unit) durable \<Rightarrow> bool" where
  "background W s s' \<longleftrightarrow>
     (\<exists>tr. full_run (pg W) (redis W) s tr s' \<and> (\<forall>l \<in> set tr. l = On Writer \<or> (\<exists>net. l = Pub net)))"

text \<open>The end of a scope destroys the objects in the reverse order of their declarations: the engine, whose threads
  have ended; the sink, whose publisher sends what is queued and ends; the journal, whose writer commits what is
  queued and ends.\<close>

definition sink_destroyed :: "('d, 'r) demo_world \<Rightarrow> 'r redis_sink \<Rightarrow> 'r redis_sink \<Rightarrow> bool" where
  "sink_destroyed W k k' \<longleftrightarrow>
     (\<exists>nets nets'. redis_run (redis W) k (map Publisher nets @ Destroy # map Publisher nets' @ [Join]) k')"

definition journal_destroyed :: "('d, 'r) demo_world \<Rightarrow> 'd pg_journal \<Rightarrow> 'd pg_journal \<Rightarrow> bool" where
  "journal_destroyed W j j' \<longleftrightarrow>
     (\<exists>n n'. pg_run (pg W) j (replicate n PgWriter @ PgDestroy # replicate n' PgWriter @ [PgJoin]) j')"

definition scope_end ::
  "('d, 'r) demo_world \<Rightarrow> ('d, 'r redis_sink, unit) durable \<Rightarrow> 'd \<Rightarrow> 'r \<Rightarrow> bool" where
  "scope_end W s d r \<longleftrightarrow>
     Engine_destructor [] (process s) = Some True \<and>
     (\<exists>J j j' V k k'. journal (eng (process s)) = Some (J, j) \<and> sink (eng (process s)) = Some (V, k) \<and>
        sink_destroyed W k k' \<and> journal_destroyed W j j' \<and> d = database_state j' \<and> r = server k')"

section \<open>The phases\<close>

text \<open>A phase on the database \<open>d\<close> and the server \<open>r\<close>: the lines it prints, and the two at its end or the exception that
  leaves it. The counters are read one after the other while main prints.\<close>

inductive phase1 ::
  "('d, 'r) demo_world \<Rightarrow> 'd \<Rightarrow> 'r \<Rightarrow> demo_line list \<Rightarrow> cpp_error + 'd \<times> 'r \<Rightarrow> bool" for W d r where
  no_journal: "new_PostgresJournal (pg W) d = Inl err \<Longrightarrow> phase1 W d r [] (Inl err)"
| no_redis: "new_PostgresJournal (pg W) d = Inr j \<Longrightarrow> new_RedisMarketData (firstConnect W 1) r = Inl err \<Longrightarrow>
     phase1 W d r [] (Inl err)"
| bad_order: "new_PostgresJournal (pg W) d = Inr j \<Longrightarrow> new_RedisMarketData (firstConnect W 1) r = Inr k \<Longrightarrow>
     phase1_calls (orderClock W 1) = Inl err \<Longrightarrow> phase1 W d r [] (Inl err)"
| completed: "new_PostgresJournal (pg W) d = Inr j \<Longrightarrow> new_RedisMarketData (firstConnect W 1) r = Inr k \<Longrightarrow>
     phase1_calls (orderClock W 1) = Inr calls \<Longrightarrow> full_session W (phase_engine W 1 j k) calls s \<Longrightarrow>
     background W s s1 \<Longrightarrow> journal (eng (process s1)) = Some (J1, j1) \<Longrightarrow>
     background W s1 s2 \<Longrightarrow> journal (eng (process s2)) = Some (J2, j2) \<Longrightarrow>
     background W s2 s3 \<Longrightarrow> sink (eng (process s3)) = Some (V3, k3) \<Longrightarrow> scope_end W s3 d' r' \<Longrightarrow>
     phase1 W d r
       (printTrades ''  before crash'' (getTradeLog (eng (process s))) @
        [Persisted (eventsWritten j1) (tradesWritten j2) (commandsSent k3)])
       (Inr (d', r'))"

text \<open>Phase 2 has no sink; the plug-ins of a default constructed engine do nothing.\<close>

inductive phase2 :: "('d, 'r) demo_world \<Rightarrow> 'd \<Rightarrow> demo_line list \<Rightarrow> cpp_error + 'd \<Rightarrow> bool" for W d where
  no_journal: "new_PostgresJournal (pg W) d = Inl err \<Longrightarrow> phase2 W d [] (Inl err)"
| no_recovery: "new_PostgresJournal (pg W) d = Inr j \<Longrightarrow>
     recover (replayClock W) (pg_engine (pg W) (pgEnv W 2) j None (None :: (unit imarket_data_sink \<times> unit) option) ()) = Throws err e \<Longrightarrow>
     phase2 W d [] (Inl err)"
| bad_order: "new_PostgresJournal (pg W) d = Inr j \<Longrightarrow>
     recover (replayClock W) (pg_engine (pg W) (pgEnv W 2) j None (None :: (unit imarket_data_sink \<times> unit) option) ()) = Returns e \<Longrightarrow>
     phase2_calls (orderClock W 2) = Inl err \<Longrightarrow>
     phase2 W d (printTrades ''  recovered trade history'' (getTradeLog e)) (Inl err)"
| completed: "new_PostgresJournal (pg W) d = Inr j \<Longrightarrow>
     recover (replayClock W) (pg_engine (pg W) (pgEnv W 2) j None (None :: (unit imarket_data_sink \<times> unit) option) ()) = Returns e \<Longrightarrow>
     phase2_calls (orderClock W 2) = Inr calls \<Longrightarrow> session (pg W) e calls s \<Longrightarrow>
     Engine_destructor [] (process s) = Some True \<Longrightarrow> journal (eng (process s)) = Some (J, j1) \<Longrightarrow> journal_destroyed W j1 j2 \<Longrightarrow>
     phase2 W d
       (printTrades ''  recovered trade history'' (getTradeLog e) @
        printTrades ''  after trading post-recovery'' (getTradeLog (eng (process s))) @
        [TextLine ''  (expected: the original 4-share trade, plus a new 6-share fill against the recovered resting order)''])
       (Inr (database_state j2))"

text \<open>Phase 3, after the second \<open>truncateTables\<close>.\<close>

inductive phase3 ::
  "('d, 'r) demo_world \<Rightarrow> 'd \<Rightarrow> 'r \<Rightarrow> demo_line list \<Rightarrow> cpp_error + 'd \<times> 'r \<Rightarrow> bool" for W d r where
  no_journal: "new_PostgresJournal (pg W) d = Inl err \<Longrightarrow> phase3 W d r [] (Inl err)"
| no_redis: "new_PostgresJournal (pg W) d = Inr j \<Longrightarrow> new_RedisMarketData (firstConnect W 3) r = Inl err \<Longrightarrow>
     phase3 W d r [] (Inl err)"
| bad_order: "new_PostgresJournal (pg W) d = Inr j \<Longrightarrow> new_RedisMarketData (firstConnect W 3) r = Inr k \<Longrightarrow>
     phase3_calls (orderClock W 3) (drawn W) (submissions W) = Inl err \<Longrightarrow> phase3 W d r [] (Inl err)"
| completed: "new_PostgresJournal (pg W) d = Inr j \<Longrightarrow> new_RedisMarketData (firstConnect W 3) r = Inr k \<Longrightarrow>
     phase3_calls (orderClock W 3) (drawn W) (submissions W) = Inr calls \<Longrightarrow> full_session W (phase_engine W 3 j k) calls s \<Longrightarrow>
     background W s s1 \<Longrightarrow> journal (eng (process s1)) = Some (J1, j1) \<Longrightarrow>
     background W s1 s2 \<Longrightarrow> journal (eng (process s2)) = Some (J2, j2) \<Longrightarrow>
     background W s2 s3 \<Longrightarrow> sink (eng (process s3)) = Some (V3, k3) \<Longrightarrow> scope_end W s3 d' r' \<Longrightarrow>
     phase3 W d r
       [SubmittedIn (submissions W) (seconds W),
        Throughput (fdiv (fp W) (fp W (of_nat (submissions W))) (seconds W)),
        PostgresRows (eventsWritten j2) (tradesWritten j2) (batchesCommitted j2) (avgBatch (fp W) j1),
        RedisCommands (commandsSent k3)]
       (Inr (d', r'))"

section \<open>main\<close>

text \<open>How \<open>main\<close> ends: with an exit code before anything was done, with exit code 0 and what is then in the database and
  in Redis, or by an exception that nothing catches.\<close>

datatype ('d, 'r) demo_end = ExitCode int | Success 'd 'r | Uncaught cpp_error

definition banner1 :: "demo_line list" where
  "banner1 = [TextLine ''===== PHASE 1: trade + persist, then crash ====='']"

definition banner2 :: "demo_line list" where
  "banner2 =
     [TextLine ''  *** process 'crashed' - in-memory state discarded ***'',
      TextLine ''===== PHASE 2: restart + recover from the log ====='']"

definition banner3 :: "demo_line list" where
  "banner3 = [TextLine ''===== PHASE 3: throughput WITH durable persistence ====='']"

definition epilogue :: "demo_line list" where
  "epilogue =
     [TextLine ''Done. Inspect the durable state directly:'',
      TextLine (''  psql -c 'SELECT count(*) FROM events;'' @ [CHR 0x27]),
      TextLine (''  psql -c 'SELECT sum(quantity*price) AS notional FROM trades;'' @ [CHR 0x27]),
      TextLine ''  redis-cli GET md:best_bid ; redis-cli GET md:last_price'']"

inductive demo_main ::
  "(string \<Rightarrow> string option) \<Rightarrow> (demo_config \<Rightarrow> ('d, 'r) demo_world) \<Rightarrow> 'd \<Rightarrow> 'r \<Rightarrow> demo_line list \<Rightarrow> ('d, 'r) demo_end \<Rightarrow> bool"
  for getenv world d r where
  bad_port: "demo_configuration getenv = Inl err \<Longrightarrow> demo_main getenv world d r [] (Uncaught err)"
| no_tables: "demo_configuration getenv = Inr cfg \<Longrightarrow> demo_begin (pg (world cfg)) d = Inl c \<Longrightarrow>
     demo_main getenv world d r [CannotConnect] (ExitCode c)"
| phase1_throws: "demo_configuration getenv = Inr cfg \<Longrightarrow> demo_begin (pg (world cfg)) d = Inr d0 \<Longrightarrow>
     phase1 (world cfg) d0 r ls1 (Inl err) \<Longrightarrow> demo_main getenv world d r (banner1 @ ls1) (Uncaught err)"
| phase2_throws: "demo_configuration getenv = Inr cfg \<Longrightarrow> demo_begin (pg (world cfg)) d = Inr d0 \<Longrightarrow>
     phase1 (world cfg) d0 r ls1 (Inr (d1, r1)) \<Longrightarrow> phase2 (world cfg) d1 ls2 (Inl err) \<Longrightarrow>
     demo_main getenv world d r (banner1 @ ls1 @ banner2 @ ls2) (Uncaught err)"
| truncate_throws: "demo_configuration getenv = Inr cfg \<Longrightarrow> demo_begin (pg (world cfg)) d = Inr d0 \<Longrightarrow>
     phase1 (world cfg) d0 r ls1 (Inr (d1, r1)) \<Longrightarrow> phase2 (world cfg) d1 ls2 (Inr d2) \<Longrightarrow>
     truncateTables (pg (world cfg)) d2 = Throws err d3 \<Longrightarrow>
     demo_main getenv world d r (banner1 @ ls1 @ banner2 @ ls2 @ banner3) (Uncaught err)"
| phase3_throws: "demo_configuration getenv = Inr cfg \<Longrightarrow> demo_begin (pg (world cfg)) d = Inr d0 \<Longrightarrow>
     phase1 (world cfg) d0 r ls1 (Inr (d1, r1)) \<Longrightarrow> phase2 (world cfg) d1 ls2 (Inr d2) \<Longrightarrow>
     truncateTables (pg (world cfg)) d2 = Returns d3 \<Longrightarrow> phase3 (world cfg) d3 r1 ls3 (Inl err) \<Longrightarrow>
     demo_main getenv world d r (banner1 @ ls1 @ banner2 @ ls2 @ banner3 @ ls3) (Uncaught err)"
| success: "demo_configuration getenv = Inr cfg \<Longrightarrow> demo_begin (pg (world cfg)) d = Inr d0 \<Longrightarrow>
     phase1 (world cfg) d0 r ls1 (Inr (d1, r1)) \<Longrightarrow> phase2 (world cfg) d1 ls2 (Inr d2) \<Longrightarrow>
     truncateTables (pg (world cfg)) d2 = Returns d3 \<Longrightarrow> phase3 (world cfg) d3 r1 ls3 (Inr (d4, r4)) \<Longrightarrow>
     demo_main getenv world d r (banner1 @ ls1 @ banner2 @ ls2 @ banner3 @ ls3 @ epilogue) (Success d4 r4)"

end
