(* ===== verification/TradeTable.thy ===== *)
theory TradeTable
  imports CrashRecovery
begin

text \<open>
  The table \<open>trades\<close> of \<open>persistence/PostgresJournal.cpp\<close>, the queryable projection of the fills, next to the
  trade log of the engine.

  A journal that keeps a row for every recorded trade (\<open>trade_record\<close>) has, in every state of a run, the rows
  of the trades the engine has made since it started. For \<open>PostgresJournal\<close> these rows are those in the table,
  then those in the writer's batch, then the queued ones. \<open>Engine::recover\<close> records nothing, so a row that a
  crash has lost is not written later.
\<close>

section \<open>Rows and trades\<close>

text \<open>A trade without its time stamps, as a row has it and as the engine has it.\<close>

type_synonym fill = "int \<times> int \<times> double \<times> int"

definition row_fill :: "trade_row \<Rightarrow> fill" where
  "row_fill r = (row_buy_order_id r, row_sell_order_id r, row_trade_price r, row_trade_quantity r)"

definition trade_fill :: "trade \<Rightarrow> fill" where
  "trade_fill t = (sint (buyOrderId t), sint (sellOrderId t), price t, quantity t)"

definition trades_in_flight :: "'d pg_journal \<Rightarrow> queued_trade list" where
  "trades_in_flight j = (case writer j of Batch es ts \<Rightarrow> ts | _ \<Rightarrow> [])"

definition stored_rows :: "pg_tables \<Rightarrow> trade_row list" where
  "stored_rows T = (case trades_table T of None \<Rightarrow> [] | Some rows \<Rightarrow> rows)"

definition pg_rows :: "('d \<Rightarrow> pg_tables) \<Rightarrow> 'd pg_journal \<Rightarrow> fill list" where
  "pg_rows tables j =
     map row_fill (stored_rows (tables (database_state j))) @
     map (\<lambda>q. trade_fill (queued q)) (trades_in_flight j @ tradeQueue j)"

text \<open>The journal has the rows \<open>base\<close> and then one for each trade the engine made after the first \<open>n\<close>.\<close>

definition recorded ::
  "'j ijournal \<Rightarrow> ('j \<Rightarrow> 'r list) \<Rightarrow> (trade \<Rightarrow> 'r) \<Rightarrow> 'r list \<Rightarrow> nat \<Rightarrow> ('j, 's, 'u) engine \<Rightarrow> bool" where
  "recorded J rows_of row base n e \<longleftrightarrow> n \<le> length (tradeLog e) \<and>
     (\<exists>j. journal e = Some (J, j) \<and> rows_of j = base @ map row (drop n (tradeLog e)))"

lemma row_fill_trade [simp]: "row_fill (trade_to_row q) = trade_fill (queued q)"
  by (simp add: row_fill_def trade_fill_def trade_to_row_def)

lemma recorded_frame [simp]:
  "recorded J rows_of row base n (e\<lparr>incomingQueue := q\<rparr>) = recorded J rows_of row base n e"
  "recorded J rows_of row base n (e\<lparr>nextSeq := k\<rparr>) = recorded J rows_of row base n e"
  "recorded J rows_of row base n (e\<lparr>eng_book := b\<rparr>) = recorded J rows_of row base n e"
  "recorded J rows_of row base n (e\<lparr>running := r\<rparr>) = recorded J rows_of row base n e"
  "recorded J rows_of row base n (e\<lparr>matchingThread := t\<rparr>) = recorded J rows_of row base n e"
  "recorded J rows_of row base n (publishTop e) = recorded J rows_of row base n e"
  by (simp_all add: recorded_def)

section \<open>An engine over a journal that records trades\<close>

context trade_record
begin

lemma publishTrades_recorded:
  "recorded J rows_of row base n e \<Longrightarrow> journal e = Some (J, j) \<Longrightarrow> ready j \<Longrightarrow> fits (log_of j) \<Longrightarrow>
     recorded J rows_of row base n (foldl publishTrade e ts)"
proof (induction ts arbitrary: e j)
  case (Cons t ts)
  let ?j = "recordTrade_op J t j"
  have j: "log_of ?j = log_of j" "ready ?j" using log_recordTrade [OF Cons.prems(3,4)] by simp_all
  have "recorded J rows_of row base n (publishTrade e t)"
    using Cons.prems rows_recordTrade [OF Cons.prems(3,4), of t] by (auto simp: recorded_def)
  moreover have "journal (publishTrade e t) = Some (J, ?j)" using Cons.prems(2) by simp
  ultimately have "recorded J rows_of row base n (foldl publishTrade (publishTrade e t) ts)"
    using j Cons.prems(4) by (intro Cons.IH [of _ ?j]) simp_all
  then show ?case by simp
qed simp

lemma processCommand_recorded:
  assumes "engine_sound J log_of cmds e" and "journal_ready J ready e" and "recorded J rows_of row base n e"
    and fits: "\<And>evs. journaled 0 (cmds @ [cmd]) evs \<Longrightarrow> fits evs"
  shows "recorded J rows_of row base n (after (processCommand rd cmd e))"
proof (cases "commandEvent (wall_now rd) cmd (nextSeq e)")
  case (Inl err)
  with assms(3) show ?thesis by (simp add: processCommand_def Let_def)
next
  case (Inr ev)
  let ?e2 = "journal_append ev (e\<lparr>nextSeq := nextSeq e + 1\<rparr>)"
  from assms(1,2) obtain j where j: "journal e = Some (J, j)" "journaled 0 cmds (log_of j)" "ready j"
    "nextSeq e = seq_no (length cmds)" by (auto simp: engine_sound_def journal_ready_def)
  from Inr j have "journaled 0 (cmds @ [cmd]) (log_of j @ [ev])"
    using commandEvent_time [OF Inr] by (simp add: journaled_append)
  note f = fits [OF this]
  note j2 = log_append [OF j(3) f] rows_append [OF j(3) f]
  have r2: "recorded J rows_of row base n ?e2" using assms(3) j(1) j2(2) by (auto simp: recorded_def)
  have "recorded J rows_of row base n (foldl publishTrade (?e2\<lparr>eng_book := b\<rparr>) ts)" for b ts
    using r2 j(1) j2(1) f by (intro publishTrades_recorded [of base n _ "append_op J ev j"]) simp_all
  with Inr r2 show ?thesis by (auto simp: processCommand_def Let_def split: sum.splits)
qed

lemma step_recorded:
  assumes "system_sound J log_of h cs s" and "journal_ready J ready (eng s)" and "all_fit (length h + length cs)"
    and "recorded J rows_of row base n (eng s)" and "sys_next l s = Some s'"
  shows "recorded J rows_of row base n (eng s')"
proof (cases "\<exists>rd. l = Round rd")
  case True
  then obtain rd where "sys_next (Round rd) s = Some s'" using assms(5) by auto
  then show ?thesis
  proof (cases rule: round_cases)
    case break
    with assms(4) show ?thesis by simp
  next
    case (handle cmd q out)
    from assms(5) have "terminated s = None" by (auto simp: sys_next_def split: if_splits)
    with assms(1) obtain handled where h: "cs = handled @ waiting s" "engine_sound J log_of (h @ handled) (eng s)"
      by (auto simp: system_sound_def)
    have "length ((h @ handled) @ [cmd]) \<le> length h + length cs" using h(1) handle(1) by simp
    with assms(3) have "fits evs" if "journaled 0 ((h @ handled) @ [cmd]) evs" for evs
      using that unfolding all_fit_def by blast
    with h(2) assms(2,4) have "recorded J rows_of row base n (after out)"
      unfolding handle(2) by (intro processCommand_recorded [of "h @ handled"]) (simp_all add: journal_ready_def)
    then show ?thesis using handle(3) by simp
  qed
next
  case False
  with assms(4,5) show ?thesis
    by (cases l) (auto simp: recorded_def rows_flush sys_next_def submitOrder_def engine_cancelOrder_def stop_signal_def
        stop_join_def start_def join_def split: if_splits thread_state.splits)
qed

end

section \<open>PostgresJournal records trades\<close>

lemma writer_step_rows:
  assumes "database_laws D tables" and "healthy D tables" and "journal_ok tables m j"
    and "seq_ordered (pg_log tables j)" and "writer_step D j = Some j'"
  shows "pg_rows tables j' = pg_rows tables j"
proof (cases "writer j")
  case Waiting
  with assms(3,5) have "j' = j\<lparr>eventQueue := [], tradeQueue := [], writer := Batch (eventQueue j) (tradeQueue j)\<rparr>"
    by (auto simp: journal_ok_def writer_step_def writer_take_def split: if_splits)
  with Waiting show ?thesis by (simp add: pg_rows_def trades_in_flight_def)
next
  case (Batch es ts)
  from assms(3) obtain evs trows where j: "loadable tables evs j" "trades_table (tables (database_state j)) = Some trows"
    by (auto simp: journal_ok_def)
  from assms(4) on_disk_loadable [OF j(1)] Batch have "seq_ordered (evs @ es)"
    using seq_ordered_append [of "evs @ es" "eventQueue j"] by (simp add: pg_log_def in_flight_def)
  then obtain d where "db_txn D (batch_statements es ts) (database_state j) = Returns d"
    "trades_table (tables d) = Some (trows @ map trade_to_row ts)" by (rule batch_commits [OF assms(1,2) j])
  with assms(5) Batch j(2) show ?thesis
    by (auto simp: writer_step_def writer_commit_def Let_def pg_rows_def trades_in_flight_def stored_rows_def)
next
  case (Counting k)
  with assms(5) show ?thesis by (auto simp: writer_step_def writer_count_def pg_rows_def trades_in_flight_def)
qed (use assms(5) in \<open>simp add: writer_step_def\<close>)

lemma writer_steps_rows:
  assumes "database_laws D tables" and "healthy D tables"
  shows "journal_ok tables m j \<Longrightarrow> seq_ordered (pg_log tables j) \<Longrightarrow> pg_rows tables (writer_steps D k j) = pg_rows tables j"
proof (induction k arbitrary: j)
  case (Suc k)
  show ?case
  proof (cases "writer_step D j")
    case (Some j')
    from writer_step_log [OF assms Suc.prems Some] writer_step_rows [OF assms Suc.prems Some] Suc.IH [of j'] Suc.prems Some
    show ?thesis by simp
  qed simp
qed simp

lemma call_rows:
  assumes "pg_ready D tables m j"
  shows "seq_ordered (pg_log tables j @ [ev]) \<Longrightarrow>
      pg_rows tables (append_op (PostgresJournal_vtable D env) ev j) = pg_rows tables j"
    "seq_ordered (pg_log tables j) \<Longrightarrow>
      pg_rows tables (recordTrade_op (PostgresJournal_vtable D env) t j) = pg_rows tables j @ [trade_fill t]"
proof -
  from assms have D: "database_laws D tables" "healthy D tables" by (simp_all add: pg_ready_def)
  note ready = hand_in_ready [OF assms]
  note quiet = writer_steps_rows [OF D]
  assume "seq_ordered (pg_log tables j @ [ev])"
  with quiet [of m "pg_append ev j"] ready(1,2) [of ev]
  show "pg_rows tables (append_op (PostgresJournal_vtable D env) ev j) = pg_rows tables j"
    by (simp add: PostgresJournal_vtable_def writer_meanwhile_def pg_ready_def)
      (simp add: pg_rows_def pg_append_def trades_in_flight_def)
next
  from assms have D: "database_laws D tables" "healthy D tables" by (simp_all add: pg_ready_def)
  note ready = hand_in_ready [OF assms]
  note quiet = writer_steps_rows [OF D]
  assume "seq_ordered (pg_log tables j)"
  with quiet [of m "pg_recordTrade (fst (env j)) t j"] ready(3,4) [of "fst (env j)" t]
  show "pg_rows tables (recordTrade_op (PostgresJournal_vtable D env) t j) = pg_rows tables j @ [trade_fill t]"
    by (simp add: PostgresJournal_vtable_def writer_meanwhile_def pg_ready_def)
      (simp add: pg_rows_def pg_recordTrade_def trades_in_flight_def)
qed

interpretation pgt: trade_record "PostgresJournal_vtable D env" "pg_log tables" "pg_ready D tables m" seq_ordered
  "pg_rows tables" trade_fill for D env tables m
  by unfold_locales (simp_all add: call_rows, simp add: PostgresJournal_vtable_def)

section \<open>Runs\<close>

abbreviation pg_recorded ::
  "'d database \<Rightarrow> 'd surroundings \<Rightarrow> ('d \<Rightarrow> pg_tables) \<Rightarrow> fill list \<Rightarrow> nat \<Rightarrow> ('d, 's, 'u) durable \<Rightarrow> bool" where
  "pg_recorded D env tables base n s \<equiv>
     recorded (PostgresJournal_vtable D env) (pg_rows tables) trade_fill base n (eng (process s))"

lemma durable_inv_ready:
  assumes "durable_inv D env tables h cs s" and "database_laws D tables" and "healthy D tables"
    and "length h + length cs < 2 ^ 63"
  obtains j where "journal (eng (process s)) = Some (PostgresJournal_vtable D env, j)"
    "pg_ready D tables (length h) j" "seq_ordered (pg_log tables j)"
proof -
  from assms(1) obtain j n where j: "system_sound (PostgresJournal_vtable D env) (pg_log tables) h cs (process s)"
    "journal (eng (process s)) = Some (PostgresJournal_vtable D env, j)" "journal_inv tables (length h) n j"
    by (auto simp: durable_inv_def Let_def)
  obtain cmds where "journaled 0 cmds (pg_log tables j)" "length cmds \<le> length h + length cs"
    using system_sound_journaled [OF j(1,2)] by blast
  then have "seq_ordered (pg_log tables j)" using assms(4) journaled_seq_ordered by (meson le_less_trans)
  with that j assms(2,3) show thesis by (simp add: pg_ready_def journal_inv_def)
qed

lemma durable_step_recorded:
  assumes "database_laws D tables" and "healthy D tables" and "durable_inv D env tables h (pushed (sys_of tr)) s"
    and "length h + length (pushed (sys_of tr)) < 2 ^ 63" and "pg_recorded D env tables base n s"
    and "durable_next D l s = Some s'"
  shows "pg_recorded D env tables base n s'"
proof -
  let ?J = "PostgresJournal_vtable D env"
  obtain j where j: "journal (eng (process s)) = Some (?J, j)" "pg_ready D tables (length h) j" "seq_ordered (pg_log tables j)"
    by (rule durable_inv_ready [OF assms(3,1,2,4)])
  show ?thesis
  proof (cases l)
    case (Sys l')
    with assms(6) obtain p where p: "sys_next l' (process s) = Some p" "s' = s\<lparr>process := p\<rparr>"
      by (cases l') (auto simp: durable_next_def Let_def split: if_splits)
    have "system_sound ?J (pg_log tables) h (pushed (sys_of tr)) (process s)" using assms(3) by (simp add: durable_inv_def Let_def)
    moreover have "journal_ready ?J (pg_ready D tables (length h)) (eng (process s))" using j by (simp add: journal_ready_def)
    ultimately show ?thesis using pgt.step_recorded [OF _ _ pg_all_fit [OF assms(4)] assms(5) p(1)] p(2) by simp
  next
    case Writer
    with assms(6) j(1) obtain j' where "writer_step D j = Some j'"
      "s' = s\<lparr>process := (process s)\<lparr>eng := (eng (process s))\<lparr>journal := Some (?J, j')\<rparr>\<rparr>\<rparr>"
      by (auto simp: durable_next_def Let_def split: if_splits)
    with writer_step_rows [OF assms(1,2) _ j(3)] j(1,2) assms(5) show ?thesis by (auto simp: recorded_def pg_ready_def)
  qed (use assms(5,6) in \<open>auto simp: durable_next_def Let_def join_def split: if_splits option.splits thread_state.splits\<close>)
qed

lemma durable_run_recorded:
  "durable_run D s0 tr s \<Longrightarrow> database_laws D tables \<Longrightarrow> healthy D tables \<Longrightarrow> durable_inv D env tables h [] s0 \<Longrightarrow>
     length h + length (pushed (sys_of tr)) < 2 ^ 63 \<Longrightarrow> pg_recorded D env tables base n s0 \<Longrightarrow>
     pg_recorded D env tables base n s"
proof (induction rule: durable_run.induct)
  case (step s tr s' l s'')
  then have l: "length h + length (pushed (sys_of tr)) < 2 ^ 63" by simp
  with step have "pg_recorded D env tables base n s'" by simp
  from durable_step_recorded [OF step.prems(1,2) durable_run_inv [OF step.hyps(1) step.prems(1-3) l] l this step.hyps(2)]
  show ?case .
qed simp

text \<open>When \<open>flush()\<close> has returned, the writer has nothing in its hands and nothing waits for it.\<close>

definition settled :: "'d pg_journal \<Rightarrow> bool" where
  "settled j \<longleftrightarrow> eventQueue j = [] \<and> tradeQueue j = [] \<and> (\<forall>es ts. writer j \<noteq> Batch es ts)"

lemma writer_not_idle: "writer j \<noteq> Batch [] [] \<Longrightarrow> writer_step D j = Some j' \<Longrightarrow> writer j' \<noteq> Batch [] []"
  by (auto simp: writer_step_def writer_take_def writer_commit_def writer_count_def Let_def
      split: writer_pc.splits if_splits outcome.splits)

lemma calls_not_idle:
  assumes "writer j \<noteq> Batch [] []"
  shows "writer (append_op (PostgresJournal_vtable D env) ev j) \<noteq> Batch [] []"
    "writer (recordTrade_op (PostgresJournal_vtable D env) t j) \<noteq> Batch [] []"
proof -
  have "writer j \<noteq> Batch [] [] \<Longrightarrow> writer (writer_steps D k j) \<noteq> Batch [] []" for j k
    by (induction k arbitrary: j) (auto dest: writer_not_idle split: option.split)
  with assms show "writer (append_op (PostgresJournal_vtable D env) ev j) \<noteq> Batch [] []"
    "writer (recordTrade_op (PostgresJournal_vtable D env) t j) \<noteq> Batch [] []"
    by (auto simp: PostgresJournal_vtable_def writer_meanwhile_def pg_append_def pg_recordTrade_def)
qed

lemma flushed_settled:
  assumes "durable_inv D env tables h cs s" and "durable_next D FlushReturn s = Some s'"
    and "length cs + length (tradeLog (eng (process s'))) < 2 ^ 64"
    and "journal (eng (process s')) = Some (PostgresJournal_vtable D env, j)" and "writer j \<noteq> Batch [] []"
  shows "settled j"
proof -
  from assms(1) obtain j0 n where i: "journal (eng (process s)) = Some (PostgresJournal_vtable D env, j0)" "journal_inv tables (length h) n j0"
    "n + length (waiting (process s)) \<le> length cs + length (tradeLog (eng (process s)))"
    "\<And>target. flushing s = Some target \<Longrightarrow> target = enqueued j0"
    by (auto simp: durable_inv_def Let_def)
  from assms(2) i(1,4) have f: "flush_returns (enqueued j0) j0" "s' = s\<lparr>process := (process s)\<lparr>in_stop := False\<rparr>, flushing := None\<rparr>"
    by (auto simp: durable_next_def Let_def split: if_splits option.splits)
  have "n < 2 ^ 64" using i(3) assms(3) f(2) by simp
  from flushed_on_disk [OF i(2) this f(1)] i(1) f(2) assms(4,5) show ?thesis
    by (auto simp: settled_def in_flight_def split: writer_pc.splits)
qed

text \<open>The rows after a run, and after a clean stop.\<close>

lemma run_rows:
  assumes "database_laws D tables" and "healthy D tables" and "durable_inv D env tables h [] (durable_start e)"
    and "new_PostgresJournal D d = Inr j" and "journal e = Some (PostgresJournal_vtable D env, j)"
    and "durable_run D (durable_start e) tr s" and "length h + length (pushed (sys_of tr)) < 2 ^ 63"
  obtains j' where "journal (eng (process s)) = Some (PostgresJournal_vtable D env, j')"
    "map row_fill (stored_rows (tables d)) @ map trade_fill (drop (length (tradeLog e)) (tradeLog (eng (process s)))) =
       map row_fill (stored_rows (tables (database_state j'))) @ map (\<lambda>q. trade_fill (queued q)) (trades_in_flight j' @ tradeQueue j')"
    "clean_stop tr s \<longrightarrow> settled j'"
proof -
  let ?J = "PostgresJournal_vtable D env" and ?base = "map row_fill (stored_rows (tables d))"
  note new = new_journal_tables [OF assms(1,4)]
  have "pg_rows tables j = ?base"
    using new by (simp add: pg_rows_def stored_rows_def with_schema_def trades_in_flight_def split: option.splits)
  then have "pg_recorded D env tables ?base (length (tradeLog e)) (durable_start e)"
    using assms(5) by (simp add: recorded_def durable_start_def)
  from durable_run_recorded [OF assms(6,1-3,7) this] obtain j' where j': "journal (eng (process s)) = Some (?J, j')"
    "pg_rows tables j' = ?base @ map trade_fill (drop (length (tradeLog e)) (tradeLog (eng (process s))))"
    by (auto simp: recorded_def)
  have "journal (eng (process (durable_start e))) = Some (?J, j)" "writer j \<noteq> Batch [] []"
    using assms(5) new by (simp_all add: durable_start_def)
  from durable_run_closed [where Q = "\<lambda>j. writer j \<noteq> Batch [] []", OF assms(6) this calls_not_idle writer_not_idle] j'(1)
  have busy: "writer j' \<noteq> Batch [] []" by auto
  have "settled j'" if c: "clean_stop tr s"
  proof -
    from c have "tr \<noteq> []" "last tr = FlushReturn" by (simp_all add: clean_stop_def)
    with assms(6) obtain tr1 s1 where s1: "tr = tr1 @ [FlushReturn]" "durable_run D (durable_start e) tr1 s1"
      "durable_next D FlushReturn s1 = Some s" by (cases rule: durable_run.cases) auto
    have "durable_inv D env tables h (pushed (sys_of tr1)) s1"
      using durable_run_inv [OF s1(2) assms(1-3)] assms(7) s1(1) by simp
    from flushed_settled [OF this s1(3) _ j'(1) busy] c s1(1) show ?thesis by (auto simp: clean_stop_def)
  qed
  with that [OF j'(1)] j'(2) show thesis by (simp add: pg_rows_def)
qed

lemma recoverLoop_journal: "recoverLoop rds evs n e = Returns e' \<Longrightarrow> journal e' = journal e"
  by (induction rds evs n e rule: recoverLoop.induct) (auto split: sum.splits)

lemma recover_journal: "recover rds e = Returns e' \<Longrightarrow> journal e' = journal e"
  by (auto simp: recover_def dest: recoverLoop_journal split: sum.splits)

section \<open>Samples\<close>

text \<open>A process that dies when the event of a fill is in the database and its row is not.\<close>

definition gap_env :: "pg_tables surroundings" where
  "gap_env j = (0, if tradeQueue j = [] then 2 else 0)"

definition sample_gap :: "durable_label list" where
  "sample_gap =
     [Sys Start, Sys (Submit (Some (limit_order 1 SELL 10 100))), Sys (Submit (Some (limit_order 2 BUY 4 101))),
      Sys (Round at_zero), Sys (Round at_zero), Writer]"

definition quick_stop :: "durable_label list" where
  "quick_stop = [Sys Start, Sys StopSignal, Sys (Round at_zero), StopFlush, FlushReturn]"

section \<open>Properties\<close>

text \<open>C13: the table of trades follows the trade log. For a process that has recovered from a healthy database and
  then run in any interleaving of its threads and the writer: the table holds the rows it had, followed by
  the rows of a prefix of the trades the engine has made since the recovery, with their ids, prices and
  quantities in order; after a clean stop it is the whole of them. The trades that the recovery replayed
  are not written a second time.\<close>

theorem trades_table_follows:
  assumes "database_laws D tables" and "healthy D tables" and "holds_log (tables d) h" and "applyCommands h blank = Inr st"
    and "\<forall>cmd \<in> set h. from_factory cmd" and "new_PostgresJournal D d = Inr j"
    and "recover rds (pg_engine D env j f k u) = Returns e" and "durable_run D (durable_start e) tr s"
    and "length h + length (pushed (sys_of tr)) < 2 ^ 63" and "database_of s = Some d'"
  shows "\<exists>lost. map row_fill (stored_rows (tables d)) @ map trade_fill (drop (length (tradeLog e)) (tradeLog (eng (process s)))) =
      map row_fill (stored_rows (tables d')) @ lost \<and> (clean_stop tr s \<longrightarrow> lost = [])"
proof -
  have "length h < 2 ^ 63" using assms(9) by simp
  then obtain e0 where e0: "recover rds (pg_engine D env j f k u) = Returns e0" "durable_inv D env tables h [] (durable_start e0)"
    by (rule pg_recover [OF assms(1-3,6,4,5)])
  then have inv: "durable_inv D env tables h [] (durable_start e)" "journal e = Some (PostgresJournal_vtable D env, j)"
    using assms(7) recover_journal [OF assms(7)] by simp_all
  obtain j' where "journal (eng (process s)) = Some (PostgresJournal_vtable D env, j')"
    "map row_fill (stored_rows (tables d)) @ map trade_fill (drop (length (tradeLog e)) (tradeLog (eng (process s)))) =
       map row_fill (stored_rows (tables (database_state j'))) @ map (\<lambda>q. trade_fill (queued q)) (trades_in_flight j' @ tradeQueue j')"
    "clean_stop tr s \<longrightarrow> settled j'" by (rule run_rows [OF assms(1,2) inv(1) assms(6) inv(2) assms(8,9)])
  with assms(10) show ?thesis
    by (intro exI [of _ "map (\<lambda>q. trade_fill (queued q)) (trades_in_flight j' @ tradeQueue j')"])
      (auto simp: database_of_def settled_def trades_in_flight_def split: writer_pc.splits)
qed

theorem trades_table_follows_witness:
  "\<exists>s e d'. recover (\<lambda>_. at_zero) (pg_engine good_db (\<lambda>_. (0, 0)) sample_journal None None ()) =
       Returns (e :: (pg_tables pg_journal, unit, unit) engine) \<and>
     durable_run good_db (durable_start e) (sample_stop @ [FlushReturn]) s \<and> database_of s = Some d' \<and>
     map row_fill (stored_rows d') = [(2, 1, Finite 100, 4)]"
proof -
  let ?e0 = "pg_engine good_db (\<lambda>_. (0, 0)) sample_journal None None () :: (pg_tables pg_journal, unit, unit) engine"
  have "case recover (\<lambda>_. at_zero) ?e0 of Throws _ _ \<Rightarrow> False | Returns e \<Rightarrow> tradeLog e = [] \<and>
      (case durable_exec good_db (sample_stop @ [FlushReturn]) (durable_start e) of None \<Rightarrow> False | Some s \<Rightarrow>
        map trade_fill (tradeLog (eng (process s))) = [(2, 1, Finite 100, 4)] \<and> waiting (process s) = [] \<and>
        length (tradeLog (eng (process s))) = 1 \<and> database_of s \<noteq> None)" by code_simp
  then obtain e s d' where e: "recover (\<lambda>_. at_zero) ?e0 = Returns e" "tradeLog e = []"
    "durable_run good_db (durable_start e) (sample_stop @ [FlushReturn]) s"
    "map trade_fill (tradeLog (eng (process s))) = [(2, 1, Finite 100, 4)]" "waiting (process s) = []"
    "length (tradeLog (eng (process s))) = 1" "database_of s = Some d'"
    by (auto simp: durable_run_iff simp del: durable_exec.simps split: option.splits outcome.splits)
  have b: "applyCommands [] blank = Inr blank" "\<forall>cmd \<in> set []. from_factory cmd" by simp_all
  have n: "length ([] :: command list) + length (pushed (sys_of (sample_stop @ [FlushReturn]))) < 2 ^ 63"
    by (simp add: sample_factory)
  have "clean_stop (sample_stop @ [FlushReturn]) s" using e(5,6) by (simp add: clean_stop_def sample_factory)
  with trades_table_follows [OF good_db_laws sample_holds_log b sample_journal_new(1) e(1,3) n e(7)] e(2,4)
  have "map row_fill (stored_rows d') = map row_fill (stored_rows empty_tables) @ [(2, 1, Finite 100, 4)]" by auto
  moreover have "stored_rows empty_tables = []" by (simp add: stored_rows_def empty_tables_def)
  ultimately show ?thesis using e(1,3,7) by auto
qed

text \<open>C22: a crash can leave a fill out of the table for good. There is a run of a healthy database in which a
  process dies after the event of an order was committed and before the row of its fill was; the next
  process recovers the fill in its trade log and is stopped cleanly, and the table of trades is still empty.\<close>

theorem trades_table_misses_fill:
  "\<exists>s d j e s' d'. durable_run good_db (durable_start (pg_engine good_db gap_env sample_journal None None ())) sample_gap
       (s :: (pg_tables, unit, unit) durable) \<and> database_of s = Some d \<and> new_PostgresJournal good_db d = Inr j \<and>
     recover (\<lambda>_. at_zero) (pg_engine good_db gap_env j None None ()) = Returns (e :: (pg_tables pg_journal, unit, unit) engine) \<and>
     durable_run good_db (durable_start e) quick_stop s' \<and> clean_stop quick_stop s' \<and> database_of s' = Some d' \<and>
     map trade_fill (getTradeLog (eng (process s'))) = [(2, 1, Finite 100, 4)] \<and> trades_table d' = Some []"
proof -
  let ?s0 = "durable_start (pg_engine good_db gap_env sample_journal None None ()) :: (pg_tables, unit, unit) durable"
  let ?e0 = "\<lambda>j. pg_engine good_db gap_env j None None () :: (pg_tables pg_journal, unit, unit) engine"
  have "case durable_exec good_db sample_gap ?s0 of None \<Rightarrow> False | Some s \<Rightarrow>
      (case database_of s of None \<Rightarrow> False | Some d \<Rightarrow>
      (case new_PostgresJournal good_db d of Inl _ \<Rightarrow> False | Inr j \<Rightarrow>
      (case recover (\<lambda>_. at_zero) (?e0 j) of Throws _ _ \<Rightarrow> False | Returns e \<Rightarrow>
      (case durable_exec good_db quick_stop (durable_start e) of None \<Rightarrow> False | Some s' \<Rightarrow>
        waiting (process s') = [] \<and> map trade_fill (getTradeLog (eng (process s'))) = [(2, 1, Finite 100, 4)] \<and>
        (case database_of s' of None \<Rightarrow> False | Some d' \<Rightarrow> trades_table d' = Some [])))))" by code_simp
  then obtain s d j e s' d' where r: "durable_run good_db ?s0 sample_gap s" "database_of s = Some d"
    "new_PostgresJournal good_db d = Inr j" "recover (\<lambda>_. at_zero) (?e0 j) = Returns e"
    "durable_run good_db (durable_start e) quick_stop s'" "waiting (process s') = []"
    "map trade_fill (getTradeLog (eng (process s'))) = [(2, 1, Finite 100, 4)]" "database_of s' = Some d'"
    "trades_table d' = Some []"
    by (auto simp: durable_run_iff simp del: durable_exec.simps split: option.splits sum.splits outcome.splits)
  have "length (getTradeLog (eng (process s'))) = 1" using arg_cong [OF r(7), of length] by simp
  then have c: "clean_stop quick_stop s'" using r(6) by (simp add: clean_stop_def quick_stop_def getTradeLog_def)
  show ?thesis
    by (intro exI [of _ s] exI [of _ d] exI [of _ j] exI [of _ e] exI [of _ s'] exI [of _ d'] conjI; (fact r | fact c))
qed

end
