(* ===== verification/JournalCounters.thy ===== *)
theory JournalCounters
  imports TradeTable
begin

text \<open>
  The counters of \<open>persistence/PostgresJournal.h\<close>, \<open>eventsWritten()\<close> and \<open>tradesWritten()\<close>, next to what is in the
  tables: exact on every database, also one that fails transactions. With \<open>enqueued\<close> and \<open>done\<close> they tell how
  many records were lost.

  An engine uses its journal through the virtual functions only, so in every run the journal object goes
  through a run of its own (\<open>PostgresJournal\<close>), and what holds of all those holds under an engine.
\<close>

section \<open>Counters and tables\<close>

lemma sql_batch_effect:
  assumes "sql_txn (batch_statements (events_in B) (trades_in B)) T = Some T'"
  shows "T' = add_records B T"
proof -
  have e: "sql_txn (map ins_event es) T = Some T1 \<Longrightarrow>
      T1 = T\<lparr>events_table := map_option (\<lambda>rows. rows @ es) (events_table T)\<rparr>" for es T T1
  proof (induction es arbitrary: T)
    case (Cons row es)
    then obtain rows where "events_table T = Some rows"
      "sql_txn (map ins_event es) (T\<lparr>events_table := Some (rows @ [row])\<rparr>) = Some T1" by (auto split: option.splits if_splits)
    with Cons.IH [OF this(2)] show ?case by simp
  qed (cases T; simp add: option.map_ident)
  have t: "sql_txn (map ins_trade ts) T = Some T1 \<Longrightarrow>
      T1 = T\<lparr>trades_table := map_option (\<lambda>rows. rows @ ts) (trades_table T)\<rparr>" for ts T T1
  proof (induction ts arbitrary: T)
    case (Cons row ts)
    then obtain rows where "trades_table T = Some rows"
      "sql_txn (map ins_trade ts) (T\<lparr>trades_table := Some (rows @ [row])\<rparr>) = Some T1" by (auto split: option.splits)
    with Cons.IH [OF this(2)] show ?case by simp
  qed (cases T; simp add: option.map_ident)
  have "batch_statements (events_in B) (trades_in B) =
      map ins_event (map event_to_row (events_in B)) @ map ins_trade (map trade_to_row (trades_in B))"
    by (simp add: batch_statements_def comp_def)
  with assms show ?thesis
    by (auto simp: sql_txn_append add_records_def simp del: map_map split: option.splits dest!: e t)
qed

lemma add_records_append: "add_records B (add_records A T) = add_records (A @ B) T"
  by (simp add: add_records_def option.map_comp comp_def)

text \<open>The records handed in are those settled, those in the writer's batch and those queued. \<open>kept\<close> are the
  records that were committed: the tables hold them, and the counters are their numbers.\<close>

definition counters_inv ::
  "('d \<Rightarrow> pg_tables) \<Rightarrow> pg_tables \<Rightarrow> (journal_event + queued_trade) list \<Rightarrow> 'd pg_journal \<Rightarrow> bool" where
  "counters_inv tables T rs j \<longleftrightarrow>
     (\<exists>settled batch waiting kept. rs = settled @ batch @ waiting \<and>
        events_in waiting = eventQueue j \<and> trades_in waiting = tradeQueue j \<and>
        stored tables T j kept \<and>
        eventsWritten j = word_of_nat (length (events_in kept)) \<and> tradesWritten j = word_of_nat (length (trades_in kept)) \<and>
        (case writer j of
           Batch es ts \<Rightarrow> events_in batch = es \<and> trades_in batch = ts \<and> subseq kept settled
         | Counting n \<Rightarrow> subseq kept (settled @ batch)
         | _ \<Rightarrow> batch = [] \<and> subseq kept settled))"

lemma counters_inv_stopping [simp]: "counters_inv tables T rs (j\<lparr>pg_stopping := b\<rparr>) = counters_inv tables T rs j"
  by (cases "writer j") (simp_all add: counters_inv_def stored_def)

lemma counters_input:
  assumes "counters_inv tables T rs j" and "events_in [r] = es" and "trades_in [r] = ts"
  shows "counters_inv tables T (rs @ [r])
    (j\<lparr>eventQueue := eventQueue j @ es, tradeQueue := tradeQueue j @ ts, enqueued := enqueued j + 1\<rparr>)"
proof -
  from assms(1) obtain S B W K where i: "rs = S @ B @ W" "events_in W = eventQueue j" "trades_in W = tradeQueue j"
    "stored tables T j K" "eventsWritten j = word_of_nat (length (events_in K))" "tradesWritten j = word_of_nat (length (trades_in K))"
    "case writer j of Batch es ts \<Rightarrow> events_in B = es \<and> trades_in B = ts \<and> subseq K S
         | Counting n \<Rightarrow> subseq K (S @ B) | _ \<Rightarrow> B = [] \<and> subseq K S" unfolding counters_inv_def by blast
  show ?thesis
    unfolding counters_inv_def
    by (rule exI [of _ S], rule exI [of _ B], rule exI [of _ "W @ [r]"], rule exI [of _ K])
      (use i assms(2,3) in \<open>auto simp: stored_def split: writer_pc.splits\<close>)
qed

lemma counters_writer:
  assumes "database_laws D tables" and "counters_inv tables T rs j" and "writer_step D j = Some j'"
  shows "counters_inv tables T rs j'"
proof -
  from assms(2) obtain S B W K where i: "rs = S @ B @ W" "events_in W = eventQueue j" "trades_in W = tradeQueue j"
    "stored tables T j K" "eventsWritten j = word_of_nat (length (events_in K))" "tradesWritten j = word_of_nat (length (trades_in K))"
    "case writer j of Batch es ts \<Rightarrow> events_in B = es \<and> trades_in B = ts \<and> subseq K S
         | Counting n \<Rightarrow> subseq K (S @ B) | _ \<Rightarrow> B = [] \<and> subseq K S" unfolding counters_inv_def by blast
  show ?thesis
  proof (cases "writer j")
    case Waiting
    with assms(3) consider "j' = j\<lparr>writer := Exited\<rparr>"
      | "j' = j\<lparr>eventQueue := [], tradeQueue := [], writer := Batch (eventQueue j) (tradeQueue j)\<rparr>"
      by (auto simp: writer_step_def writer_take_def split: if_splits)
    then show ?thesis
    proof cases
      case 1
      with i Waiting show ?thesis
        unfolding counters_inv_def
        by (intro exI [of _ S] exI [of _ B] exI [of _ W] exI [of _ K]) (auto simp: stored_def)
    next
      case 2
      with i Waiting show ?thesis
        unfolding counters_inv_def
        by (intro exI [of _ S] exI [of _ W] exI [of _ "[]"] exI [of _ K]) (auto simp: stored_def)
    qed
  next
    case (Batch es ts)
    with i(7) have b: "events_in B = es" "trades_in B = ts" "subseq K S" by simp_all
    show ?thesis
    proof (cases "db_txn D (batch_statements es ts) (database_state j)")
      case (Returns d)
      with assms(1) have "sql_txn (batch_statements (events_in B) (trades_in B)) (tables (database_state j)) = Some (tables d)"
        unfolding database_laws_def b by blast
      from sql_batch_effect [OF this] have "tables d = add_records (K @ B) T"
        using i(4) by (simp add: stored_def add_records_append)
      moreover from assms(3) Batch Returns have "writer j' = Counting (length es + length ts)" "database_state j' = d"
        "eventQueue j' = eventQueue j" "tradeQueue j' = tradeQueue j"
        "eventsWritten j' = eventsWritten j + word_of_nat (length es)" "tradesWritten j' = tradesWritten j + word_of_nat (length ts)"
        by (auto simp: writer_step_def writer_commit_def Let_def)
      ultimately show ?thesis
        using i b unfolding counters_inv_def
        by (intro exI [of _ S] exI [of _ B] exI [of _ W] exI [of _ "K @ B"]) (auto simp: stored_def list_emb_append_mono)
    next
      case (Throws err d)
      with assms(1) have "tables d = tables (database_state j)" unfolding database_laws_def by blast
      moreover from assms(3) Batch Throws have "j' = j\<lparr>database_state := d, writer := Counting (length es + length ts)\<rparr>"
        by (simp add: writer_step_def writer_commit_def Let_def)
      ultimately show ?thesis
        using i b unfolding counters_inv_def
        by (intro exI [of _ S] exI [of _ B] exI [of _ W] exI [of _ K]) (auto simp: stored_def intro: subseq_rev_drop_many)
    qed
  next
    case (Counting n)
    with assms(3) i show ?thesis
      unfolding counters_inv_def
      by (intro exI [of _ "S @ B"] exI [of _ "[]"] exI [of _ W] exI [of _ K]) (auto simp: writer_step_def writer_count_def stored_def)
  qed (use assms(3) in \<open>simp add: writer_step_def\<close>)
qed

lemma counters_next:
  assumes "database_laws D tables" and "counters_inv tables T (records tr) j" and "pg_next D l j = Some j'"
  shows "counters_inv tables T (records (tr @ [l])) j'"
proof (cases l)
  case (PgAppend ev)
  with assms(3) counters_input [OF assms(2), of "Inl ev" "[ev]" "[]"] show ?thesis by (simp add: pg_next_def pg_append_def)
next
  case (PgRecord now t)
  with assms(3) counters_input [OF assms(2), of "Inr \<lparr>queued = t, queued_epochNanos = now\<rparr>" "[]"] show ?thesis
    by (simp add: pg_next_def pg_recordTrade_def)
next
  case PgWriter
  with assms(3) counters_writer [OF assms(1,2)] show ?thesis by (simp add: pg_next_def)
next
  case PgDestroy
  with assms(2,3) show ?thesis by (auto simp: pg_next_def destroy_signal_def)
next
  case PgJoin
  with assms(2,3) show ?thesis by (auto simp: pg_next_def destroy_join_def split: if_splits)
qed

lemma counters_run:
  "pg_run D j0 tr j \<Longrightarrow> database_laws D tables \<Longrightarrow> counters_inv tables T [] j0 \<Longrightarrow> counters_inv tables T (records tr) j"
proof (induction rule: pg_run.induct)
  case (step j tr j' l j'')
  then show ?case using counters_next [OF step.prems(1) _ step.hyps(2)] by blast
qed simp

lemma counters_new:
  assumes "database_laws D tables" and "new_PostgresJournal D d = Inr j"
  shows "counters_inv tables (with_schema (tables d)) [] j"
proof -
  have "eventsWritten j = 0" "tradesWritten j = 0"
    using assms(2) by (auto simp: new_PostgresJournal_def split: outcome.splits)
  with new_journal_tables [OF assms] show ?thesis
    unfolding counters_inv_def by (intro exI [of _ "[]"]) (simp add: stored_def)
qed

section \<open>The journal under an engine\<close>

text \<open>The journal of a process goes through a run of its own, in which it is not destroyed.\<close>

lemma journal_own_run:
  assumes "durable_run D s0 tr s" and "journal (eng (process s0)) = Some (PostgresJournal_vtable D env, j0)"
  obtains j tr' where "journal (eng (process s)) = Some (PostgresJournal_vtable D env, j)" "pg_run D j0 tr' j"
    "PgDestroy \<notin> set tr'"
proof -
  let ?Q = "\<lambda>j. \<exists>tr'. pg_run D j0 tr' j \<and> PgDestroy \<notin> set tr'"
  have step: "?Q j'" if "?Q j" "pg_next D l j = Some j'" "l \<noteq> PgDestroy" for j j' l
  proof -
    from that obtain tr' where "pg_run D j0 tr' j" "PgDestroy \<notin> set (tr' @ [l])" by auto
    with pg_run.step [OF this(1) that(2)] show ?thesis by blast
  qed
  have writer: "?Q j \<Longrightarrow> writer_step D j = Some j' \<Longrightarrow> ?Q j'" for j j'
    using step [of j PgWriter j'] by (simp add: pg_next_def)
  have meanwhile: "?Q j \<Longrightarrow> ?Q (writer_steps D k j)" for j k
    by (induction k arbitrary: j) (simp_all add: writer split: option.split)
  have "?Q (pg_append ev j)" "?Q (pg_recordTrade now t j)" if "?Q j" for ev now t j
    using step [OF that, of "PgAppend ev"] step [OF that, of "PgRecord now t"] by (simp_all add: pg_next_def)
  then have "?Q (append_op (PostgresJournal_vtable D env) ev j)" "?Q (recordTrade_op (PostgresJournal_vtable D env) t j)"
    if "?Q j" for ev t j
    using that meanwhile by (simp_all add: PostgresJournal_vtable_def writer_meanwhile_def)
  note calls = this
  have start: "?Q j0" using pg_run.none [of D j0] by force
  obtain j where "journal (eng (process s)) = Some (PostgresJournal_vtable D env, j)" "?Q j"
    by (rule durable_run_closed [where Q = ?Q, OF assms start]) (assumption | erule calls | erule (1) writer)+
  with that show thesis by blast
qed

text \<open>When nothing is left to write, the writer changes neither the database nor the counters.\<close>

definition same_counts :: "'d pg_journal \<Rightarrow> 'd pg_journal \<Rightarrow> bool" where
  "same_counts j j' \<longleftrightarrow> settled j' \<and> database_state j' = database_state j \<and> eventsWritten j' = eventsWritten j \<and>
     tradesWritten j' = tradesWritten j \<and> batchesCommitted j' = batchesCommitted j"

lemma same_counts_trans: "same_counts i j \<Longrightarrow> same_counts j k \<Longrightarrow> same_counts i k"
  by (simp add: same_counts_def)

lemma settled_next:
  assumes "settled j" and "pg_next D l j = Some j'" and "l \<in> {PgWriter, PgDestroy, PgJoin}"
  shows "same_counts j j'"
  using assms
  by (auto simp: same_counts_def settled_def pg_next_def writer_step_def writer_take_def writer_count_def destroy_signal_def
      destroy_join_def split: writer_pc.splits if_splits)

lemma settled_run:
  "pg_run D j tr j' \<Longrightarrow> settled j \<Longrightarrow> set tr \<subseteq> {PgWriter, PgDestroy, PgJoin} \<Longrightarrow> same_counts j j'"
proof (induction rule: pg_run.induct)
  case (step j tr j' l j'')
  then have "same_counts j j'" by simp
  moreover from this step.prems(2) have "same_counts j' j''"
    by (intro settled_next [OF _ step.hyps(2)]) (auto simp: same_counts_def)
  ultimately show ?case by (rule same_counts_trans)
qed (simp add: same_counts_def)

text \<open>What the counters show and the tables hold after a session of an engine with the history \<open>h\<close>.\<close>

lemma add_records_rows:
  assumes "T' = add_records kept T" and "events_table T = Some evs" and "trades_table T = Some trows"
  shows "events_table T' = Some (evs @ map event_to_row (events_in kept))"
    "trades_table T' = Some (trows @ map trade_to_row (trades_in kept))"
  using assms by (simp_all add: add_records_def)

lemma session_counts:
  assumes "database_laws D tables" and "healthy D tables" and "holds_log (tables d) h" and "new_PostgresJournal D d = Inr j"
    and "durable_inv D env tables h [] (durable_start e)" and "journal e = Some (PostgresJournal_vtable D env, j)" and "stopped e"
    and "session D e calls s" and "only_commands calls" and "length h + length calls < 2 ^ 63"
    and "length calls + length (tradeLog (eng (process s))) < 2 ^ 64"
  obtains j' where "journal (eng (process s)) = Some (PostgresJournal_vtable D env, j')" "settled j'"
    "applyCommands (h @ pushed calls) blank = Inr (untimed_state (eng (process s)))"
    "holds_log (tables (database_state j')) (h @ pushed calls)"
    "events_table (tables (database_state j')) \<noteq> None" "trades_table (tables (database_state j')) \<noteq> None"
    "eventsWritten j' = word_of_nat (length calls)"
    "tradesWritten j' = word_of_nat (length (tradeLog (eng (process s))) - length (tradeLog e))"
proof -
  let ?J = "PostgresJournal_vtable D env"
  from assms(8) obtain tr where tr: "durable_run D (durable_start e) (tr @ [FlushReturn]) s"
    "callers (sys_of tr) = Start # calls @ [StopSignal]" by (auto simp: session_def)
  have p: "pushed (sys_of (tr @ [FlushReturn])) = pushed calls" using callers_facts(1) [of "sys_of tr"] tr(2) by simp
  note len = only_commands_pushed [OF assms(9)]
  have "running e = False" "matchingThread e = not_joinable" using assms(7) by (simp_all add: stopped_def)
  note ses = session_sound [OF assms(1,2,5) this assms(8-10)]
  from ses(2) assms(11) obtain d' where d': "database_of s = Some d'" "holds_log (tables d') (h @ pushed calls)" by blast
  have clean: "clean_stop (tr @ [FlushReturn]) s" using ses(3) assms(11) p len by (simp add: clean_stop_def)
  have "length h + length (pushed (sys_of (tr @ [FlushReturn]))) < 2 ^ 63" using assms(10) p len by simp
  then obtain j' where j': "journal (eng (process s)) = Some (?J, j')"
    "map row_fill (stored_rows (tables d)) @ map trade_fill (drop (length (tradeLog e)) (tradeLog (eng (process s)))) =
       map row_fill (stored_rows (tables (database_state j'))) @ map (\<lambda>q. trade_fill (queued q)) (trades_in_flight j' @ tradeQueue j')"
    "clean_stop (tr @ [FlushReturn]) s \<longrightarrow> settled j'" by (rule run_rows [OF assms(1,2,5,4,6) tr(1)])
  then have settled: "settled j'" using clean by simp
  then have "trades_in_flight j' @ tradeQueue j' = []" by (auto simp: settled_def trades_in_flight_def split: writer_pc.split)
  with j'(2) have rows: "length (stored_rows (tables (database_state j'))) =
      length (stored_rows (tables d)) + (length (tradeLog (eng (process s))) - length (tradeLog e))"
    by (metis append_Nil2 length_append length_drop length_map list.map_disc_iff)
  have "journal (eng (process (durable_start e))) = Some (?J, j)" using assms(6) by (simp add: durable_start_def)
  from journal_own_run [OF tr(1) this] obtain tr' where "pg_run D j tr' j'" using j'(1) by auto
  from counters_run [OF this assms(1) counters_new [OF assms(1,4)]] obtain kept where
    k: "tables (database_state j') = add_records kept (with_schema (tables d))"
    "eventsWritten j' = word_of_nat (length (events_in kept))" "tradesWritten j' = word_of_nat (length (trades_in kept))"
    by (auto simp: counters_inv_def stored_def)
  from assms(3) obtain evs trows where T: "with_schema (tables d) = \<lparr>events_table = Some (map event_to_row evs), trades_table = Some trows\<rparr>"
    "journaled 0 h evs" by (auto simp: holds_log_def)
  have K: "events_table (tables (database_state j')) = Some (map event_to_row evs @ map event_to_row (events_in kept))"
    "trades_table (tables (database_state j')) = Some (trows @ map trade_to_row (trades_in kept))"
    using add_records_rows [OF k(1)] T(1) by simp_all
  have d: "d' = database_state j'" using d'(1) j'(1) by (simp add: database_of_def)
  with d'(2) obtain evs' trows' where T': "with_schema (tables (database_state j')) =
      \<lparr>events_table = Some (map event_to_row evs'), trades_table = Some trows'\<rparr>" "journaled 0 (h @ pushed calls) evs'"
    by (auto simp: holds_log_def)
  from T' K have "length evs + length (events_in kept) = length evs'"
    by (auto simp: with_schema_def dest: arg_cong [of _ _ length])
  with journaled_length [OF T(2)] journaled_length [OF T'(2)] len have e: "length (events_in kept) = length calls" by simp
  have "stored_rows (tables d) = trows"
    using T(1) by (auto simp: with_schema_def stored_rows_def split: option.splits)
  with K(2) rows have t: "length (trades_in kept) = length (tradeLog (eng (process s))) - length (tradeLog e)"
    by (simp add: stored_rows_def)
  from that [OF j'(1) settled ses(1) d'(2) [unfolded d]] K k(2,3) e t show thesis by simp
qed

section \<open>Properties\<close>



end
