(* ===== verification/TradeBound.thy ===== *)
theory TradeBound
  imports EngineInvariants
begin

text \<open>
  How many trades there can be. Every execution of \<open>OrderBook::matchIncoming\<close> uses up the resting order or the
  incoming one (or both), so with each order that comes in there can be one trade more than resting orders
  disappear. The trade log of an engine and its book together never hold more entries than orders were
  submitted, which bounds the number of rows and messages a run hands to its plug-ins.
\<close>

section \<open>Trades and resting orders\<close>

definition resting_count :: "book \<Rightarrow> nat" where
  "resting_count b = length (abs_of b BUY) + length (abs_of b SELL)"

definition submits :: "command list \<Rightarrow> nat" where
  "submits cmds = length (filter (\<lambda>cmd. cmd_type cmd = SUBMIT) cmds)"

lemma submits_simps [simp]:
  "submits [] = 0" "submits (cmd # cmds) = (if cmd_type cmd = SUBMIT then 1 else 0) + submits cmds"
  "submits (cmds @ cmds') = submits cmds + submits cmds'"
  by (simp_all add: submits_def)

lemma submits_le: "submits cmds \<le> length cmds"
  by (simp add: submits_def)

lemma sweep_count:
  "sweep clk inc rs ts = (ts', inc', rs') \<Longrightarrow>
     length ts' + length rs' + (if getRemainingQuantity inc' = 0 then 0 else 1) \<le> length ts + length rs + 1"
proof (induction inc rs ts arbitrary: ts' inc' rs' rule: sweep_induct)
  case (full inc r rs ts)
  from full.IH [OF sweep_fullD [OF full.prems full.hyps]] show ?case by simp
qed (auto simp: sweep_steps fill_def)

lemma length_queue_up: "length (queue_up s ord rs) = Suc (length rs)"
  by (simp add: queue_up_def Let_def) (metis length_append takeWhile_dropWhile_id)

lemma resting_side: "resting_count b = length (abs_of b (opposite s)) + length (abs_of b s)"
  by (cases s) (simp_all add: resting_count_def)

lemma addOrder_count:
  assumes "book_inv b" and "order_ok ord" and "addOrder clk b (Some ord) = Inr (ts, b')"
  shows "length ts + resting_count b' \<le> resting_count b + 1"
proof -
  obtain ord' where parts:
    "sweep clk ord (abs_of b (opposite (getSide ord))) [] = (ts, ord', abs_of b' (opposite (getSide ord)))"
    "abs_of b' (getSide ord) =
       (if getRemainingQuantity ord' = 0 \<or> getOrderKind ord = MARKET then abs_of b (getSide ord)
        else queue_up (getSide ord) (setStatus ord' (rest_status ord')) (abs_of b (getSide ord)))"
    by (rule addOrder_parts [OF assms])
  from parts(2) have "length (abs_of b' (getSide ord)) \<le>
      length (abs_of b (getSide ord)) + (if getRemainingQuantity ord' = 0 then 0 else 1)"
    by (simp add: length_queue_up del: getOrderKind.simps)
  with sweep_count [OF parts(1)] show ?thesis
    by (simp add: resting_side [of b "getSide ord"] resting_side [of b' "getSide ord"])
qed

lemma applyCommand_count:
  assumes "book_reachable b" and "well_formed_order cmd" and "applyCommand clk cmd b = Inr (ts, b')"
  shows "length ts + resting_count b' \<le> resting_count b + (if cmd_type cmd = SUBMIT then 1 else 0)"
proof (cases "cmd_type cmd")
  case SUBMIT
  with assms(3) have add: "addOrder clk b (cmd_order cmd) = Inr (ts, b')" by (simp add: applyCommand_def)
  then obtain ord where "cmd_order cmd = Some ord" by (cases "cmd_order cmd") (auto simp: addOrder_def)
  with add addOrder_count [OF book_reachable_inv [OF assms(1)], of ord clk ts b'] SUBMIT assms(2)
  show ?thesis by (simp add: well_formed_order_def)
next
  case CANCEL
  obtain b1 where "cancelOrder b (cancelId cmd) = Inr (ownedOrders b (cancelId cmd) \<noteq> None, b1)"
    "abs_of b1 = spec_cancel (abs_of b) (cancelId cmd)"
    by (rule cancelOrder_keeps [OF book_reachable_inv [OF assms(1)]])
  with CANCEL assms(3) show ?thesis
    by (auto simp: applyCommand_def resting_count_def spec_cancel_def intro!: add_mono)
qed

section \<open>Over an engine\<close>

definition count_ok :: "command list \<Rightarrow> ('j, 's, 'u) system \<Rightarrow> bool" where
  "count_ok cs s \<longleftrightarrow> length (tradeLog (eng s)) + resting_count (eng_book (eng s)) + submits (waiting s) \<le> submits cs"

lemma processCommand_count:
  assumes "book_reachable (eng_book e)" and "well_formed_order cmd"
  shows "length (tradeLog (after (processCommand rd cmd e))) + resting_count (eng_book (after (processCommand rd cmd e))) \<le>
    length (tradeLog e) + resting_count (eng_book e) + (if cmd_type cmd = SUBMIT then 1 else 0)"
  using applyCommand_count [OF assms]
  by (fastforce simp: processCommand_def Let_def split: sum.splits)

lemma step_count:
  assumes "run_wf s" and "count_ok cs s" and "sys_next l s = Some s'"
  shows "count_ok (cs @ pushed [l]) s'"
proof (cases "\<exists>rd. l = Round rd")
  case True
  then obtain rd where l: "l = Round rd" by blast
  with assms(3) have "sys_next (Round rd) s = Some s'" by simp
  then show ?thesis
  proof (cases rule: round_cases)
    case break
    with assms(2) l show ?thesis by (simp add: count_ok_def)
  next
    case (handle cmd q out)
    with assms(1) have "book_reachable (eng_book (eng s\<lparr>incomingQueue := q\<rparr>))" "well_formed_order cmd"
      by (simp_all add: run_wf_def)
    from processCommand_count [OF this, of rd] handle assms(2) l show ?thesis by (auto simp: count_ok_def split: if_splits)
  qed
next
  case False
  with caller_step_frame [OF assms(3)] assms(2) show ?thesis by (simp add: count_ok_def)
qed

lemma run_count:
  "system_run s0 tr s \<Longrightarrow> run_wf s0 \<Longrightarrow> count_ok [] s0 \<Longrightarrow> \<forall>cmd \<in> set (pushed tr). well_formed_order cmd \<Longrightarrow>
     count_ok (pushed tr) s"
proof (induction rule: system_run.induct)
  case (step s0 tr s l s')
  then have "run_wf s" using run_wf by (metis UnCI pushed_append set_append)
  with step step_count [OF this _ step.hyps(2), of "pushed tr"] show ?case by simp
qed simp

lemma applyCommands_count:
  "applyCommands cmds st = Inr st' \<Longrightarrow> book_reachable (snd st) \<Longrightarrow> \<forall>cmd \<in> set cmds. well_formed_order cmd \<Longrightarrow>
     length (fst st') + resting_count (snd st') \<le> length (fst st) + resting_count (snd st) + submits cmds"
proof (induction cmds arbitrary: st)
  case (Cons cmd cmds)
  from Cons.prems(1) obtain ts b' where app: "applyCommand no_clock (untimed_command cmd) (snd st) = Inr (ts, b')"
    "applyCommands cmds (fst st @ ts, b') = Inr st'" by (auto simp: bindE_eq_Inr)
  have wf: "well_formed_order (untimed_command cmd)" "cmd_type (untimed_command cmd) = cmd_type cmd"
    using Cons.prems(3) by (auto simp: well_formed_order_def untimed_command_def order_ok_def untimed_def split: option.splits)
  note r = applyCommand_reachable [OF Cons.prems(2) wf(1) app(1)]
  from Cons.IH [OF app(2)] r Cons.prems(3) applyCommand_count [OF Cons.prems(2) wf(1) app(1)] wf(2)
  show ?case by (simp split: if_splits)
qed simp

section \<open>Properties\<close>

text \<open>C30: there are never more trades than orders. In every interleaving of an engine with any plug-ins, whose
  submitted orders are well formed: the trades in the log, the orders resting in the book and the submits
  still waiting are together at most the orders that were submitted.\<close>

theorem trades_at_most_orders:
  assumes "system_run (idle (plugged_engine j f k u)) tr s" and "\<forall>cmd \<in> set (pushed tr). well_formed_order cmd"
  shows "length (getTradeLog (eng s)) + resting_count (eng_book (eng s)) + submits (waiting s) \<le> submits (pushed tr)"
proof -
  have "resting_count empty_book = 0" by (simp add: resting_count_def abs_of_def ids_def empty_book_def)
  then have "run_wf (idle (plugged_engine j f k u))" "count_ok [] (idle (plugged_engine j f k u))"
    by (simp_all add: run_wf_def count_ok_def book_reachable.empty)
  from run_count [OF assms(1) this assms(2)] show ?thesis by (simp add: count_ok_def getTradeLog_def)
qed

theorem trades_at_most_orders_witness:
  "length (getTradeLog (eng sample_end)) + resting_count (eng_book (eng sample_end)) \<le> submits (pushed sample_run)"
proof -
  have "\<forall>cmd \<in> set (pushed sample_run). well_formed_order cmd"
    by (simp add: sample_run_def well_formed_order_def Command_submit_def Command_cancel_def order_ok_limit_order)
  from trades_at_most_orders [OF sample_run [unfolded mem_engine_def] this] show ?thesis by simp
qed

end
