(* ===== verification/PersistenceProps.thy ===== *)
theory PersistenceProps
  imports PersistenceDemo JournalCounters TradeBound
begin

text \<open>
  What \<open>demos/persistence_demo.cpp\<close> prints and leaves. The two phases with both plug-ins are seen from the
  journal (\<open>PlugIns\<close>), where what is known of sessions over a healthy database applies (\<open>CrashRecovery\<close>,
  \<open>JournalCounters\<close>); after \<open>stop()\<close> the counters and the database stay as they are until the scope ends.
\<close>

section \<open>Lemmas\<close>

lemma truncate_tables:
  assumes "database_laws D tables" and "truncateTables D d = Returns d'"
  shows "holds_log (tables d') []"
proof -
  from assms have "sql_txn [truncate_events, truncate_trades] (tables d) = Some (tables d')"
    unfolding database_laws_def truncateTables_def by blast
  then have "tables d' = (tables d)\<lparr>events_table := Some [], trades_table := Some []\<rparr>" by (auto split: if_splits)
  then show ?thesis by (auto simp: holds_log_def with_schema_def)
qed

lemma truncate_works:
  assumes "database_laws D tables" and "PgDatabase.healthy D tables"
    and "events_table (tables d) \<noteq> None" and "trades_table (tables d) \<noteq> None"
  obtains d' where "truncateTables D d = Returns d'"
proof -
  from assms(3,4) have "\<exists>T. sql_txn [truncate_events, truncate_trades] (tables d) = Some T" by auto
  then obtain T where "sql_txn [truncate_events, truncate_trades] (tables d) = Some T" ..
  then obtain d' where "db_txn D [truncate_events, truncate_trades] d = Returns d'" by (rule healthyE [OF assms(2,1)])
  with that show thesis by (simp add: truncateTables_def)
qed

lemma redis_connects:
  assumes "connect_gives net = connected"
  obtains k where "new_RedisMarketData net r = Inr k"
  using assms by (simp add: new_RedisMarketData_def ensureConnected_def)

lemma limit_at_ok: "1 \<le> q \<Longrightarrow> q \<le> 20 \<Longrightarrow> 98 \<le> p \<Longrightarrow> order_ok (limit_at now i t s q p)"
  by (simp add: order_ok_def price_ok_def int32_def limit_at_def)

definition phase1_commands :: "command list" where
  "phase1_commands =
     [Command_submit (Some (limit_at 0 1 1 SELL 10 100)), Command_submit (Some (limit_at 0 2 2 BUY 4 100)),
      Command_submit (Some (limit_at 0 3 1 SELL 5 101)), Command_cancel 3]"

definition phase2_commands :: "command list" where
  "phase2_commands =
     [Command_submit (Some (limit_at 0 4 3 BUY 6 100)), Command_submit (Some (limit_at 0 5 3 BUY 5 101))]"

lemma phase1_calls_Inr:
  assumes "phase1_calls now = Inr calls"
  shows "map untimed_command (pushed calls) = phase1_commands" "only_commands calls" "length calls = 4"
    "\<forall>cmd \<in> set (pushed calls). from_factory cmd" "\<forall>cmd \<in> set (pushed calls). well_formed_order cmd"
proof -
  have c: "calls = [Submit (Some (limit_at (now 0) 1 1 SELL 10 100)), Submit (Some (limit_at (now 1) 2 2 BUY 4 100)),
      Submit (Some (limit_at (now 2) 3 1 SELL 5 101)), Cancel 3]"
    using assms by (simp add: phase1_calls_def createOrder_limit)
  show "map untimed_command (pushed calls) = phase1_commands" "only_commands calls" "length calls = 4"
    by (simp_all add: c phase1_commands_def only_commands_def)
  show "\<forall>cmd \<in> set (pushed calls). from_factory cmd"
    by (simp add: c limit_at_factory) (simp add: from_factory_def Command_cancel_def)
  show "\<forall>cmd \<in> set (pushed calls). well_formed_order cmd"
    by (simp add: c well_formed_order_def Command_submit_def Command_cancel_def)
      (simp add: limit_at_def order_ok_def price_ok_def int32_def)
qed

lemma phase2_calls_Inr:
  assumes "phase2_calls now = Inr calls"
  shows "map untimed_command (pushed calls) = phase2_commands" "only_commands calls" "length calls = 2"
proof -
  have c: "calls = [Submit (Some (limit_at (now 3) 4 3 BUY 6 100)), Submit (Some (limit_at (now 4) 5 3 BUY 5 101))]"
    using assms by (simp add: phase2_calls_def createOrder_limit)
  show "map untimed_command (pushed calls) = phase2_commands" "only_commands calls" "length calls = 2"
    by (simp_all add: c phase2_commands_def only_commands_def)
qed

text \<open>The trades of the sequential specification for the two scripts.\<close>

lemma script_trades:
  "trades_of (applyCommands phase1_commands blank) = Some (fills [(2, 1, 4, 100)])"
  "trades_of (applyCommands (phase1_commands @ phase2_commands) blank) = Some (fills [(2, 1, 4, 100), (4, 1, 6, 100)])"
  by code_simp+

lemma printTrades_untimed: "printTrades label (map untimed_trade ts) = printTrades label ts"
  by (simp add: printTrades_def comp_def untimed_trade_def)

text \<open>Seen from the journal, a session with both plug-ins is one with the journal alone.\<close>

lemma full_session_side:
  assumes "full_session W (phase_engine W i j k) calls s"
  shows "session (pg W) (pg_engine (pg W) (pgEnv W i) j None (None :: (unit imarket_data_sink \<times> unit) option) ()) calls (journal_side s)"
proof -
  from assms obtain tr where tr: "full_run (pg W) (redis W) (durable_start (phase_engine W i j k)) (tr @ [On FlushReturn]) s"
    "callers (sys_of (journal_steps tr)) = Start # calls @ [StopSignal]" by (auto simp: full_session_def)
  from full_run_sides [OF tr(1)] tr(2) show ?thesis
    unfolding session_def phase_engine_plugged
    by (intro exI [of _ "journal_steps tr"]) (simp add: sides_start, simp add: durable_start_def)
qed

lemma background_counts:
  assumes "background W s s'" and "journal (eng (process s)) = Some (J, j)" and "settled j"
  obtains j' where "journal (eng (process s')) = Some (J, j')" "same_counts j j'"
proof -
  have "full_run D exec s tr s' \<Longrightarrow> journal (eng (process s)) = Some (J, j) \<Longrightarrow> settled j \<Longrightarrow>
      \<forall>l \<in> set tr. l = On Writer \<or> (\<exists>net. l = Pub net) \<Longrightarrow> \<exists>j'. journal (eng (process s')) = Some (J, j') \<and> same_counts j j'" for D exec tr
  proof (induction rule: full_run.induct)
    case (step s tr s1 l s2)
    then obtain j1 where j1: "journal (eng (process s1)) = Some (J, j1)" "same_counts j j1" by auto
    from step.prems(3) have "l = On Writer \<or> (\<exists>net. l = Pub net)" by simp
    then show ?case
    proof
      assume "l = On Writer"
      with step.hyps(2) j1(1) obtain j2 where j2: "writer_step D j1 = Some j2" "journal (eng (process s2)) = Some (J, j2)"
        by (auto simp: full_next_def durable_next_def Let_def split: if_splits option.splits)
      then have "pg_next D PgWriter j1 = Some j2" by (simp add: pg_next_def)
      from settled_next [OF _ this] j1(2) have "same_counts j1 j2" by (simp add: same_counts_def)
      with j1(2) j2(2) show ?case using same_counts_trans by blast
    next
      assume "\<exists>net. l = Pub net"
      with step.hyps(2) j1 show ?case by (auto simp: full_next_def feed_next_def split: if_splits option.splits)
    qed
  qed (simp add: same_counts_def)
  note steps = this
  from assms(1) obtain tr where "full_run (pg W) (redis W) s tr s'" "\<forall>l \<in> set tr. l = On Writer \<or> (\<exists>net. l = Pub net)"
    by (auto simp: background_def)
  from steps [OF this(1) assms(2,3) this(2)] that show thesis by blast
qed

lemma journal_destroyed_counts: "journal_destroyed W j j' \<Longrightarrow> settled j \<Longrightarrow> same_counts j j'"
  unfolding journal_destroyed_def by (elim exE, erule settled_run) (auto simp: set_replicate_conv_if)

text \<open>A phase with both plug-ins on truncated tables, through its session, its output and the end of its scope.\<close>

lemma demo_session:
  assumes "database_laws (pg W) tables" and "PgDatabase.healthy (pg W) tables" and "holds_log (tables d) []"
    and "new_PostgresJournal (pg W) d = Inr j" and "full_session W (phase_engine W i j k) calls s" and "only_commands calls"
    and "\<forall>cmd \<in> set (pushed calls). well_formed_order cmd" and "length calls < 2 ^ 62"
    and "background W s s1" and "journal (eng (process s1)) = Some (J1, j1)"
    and "background W s1 s2" and "journal (eng (process s2)) = Some (J2, j2)"
    and "background W s2 s3" and "scope_end W s3 d' r'"
  shows "applyCommands (pushed calls) blank = Inr (untimed_state (eng (process s)))"
    and "eventsWritten j1 = word_of_nat (length calls)" and "eventsWritten j2 = word_of_nat (length calls)"
    and "tradesWritten j2 = word_of_nat (length (tradeLog (eng (process s))))"
    and "holds_log (tables d') (pushed calls)" and "events_table (tables d') \<noteq> None" and "trades_table (tables d') \<noteq> None"
proof -
  let ?J = "PostgresJournal_vtable (pg W) (pgEnv W i)"
  let ?e = "pg_engine (pg W) (pgEnv W i) j None (None :: (unit imarket_data_sink \<times> unit) option) ()"
  note inv = pg_start [OF assms(1-4), of "pgEnv W i" None "None :: (unit imarket_data_sink \<times> unit) option" "()"]
  note ses = full_session_side [OF assms(5)]
  have l: "length ([] :: command list) + length calls < 2 ^ 63" using assms(8) by simp
  have a: "applyCommands (pushed calls) blank = Inr (untimed_state (eng (process s)))"
    using session_sound(1) [OF assms(1,2) inv _ _ ses assms(6) l] by simp
  have "resting_count empty_book = 0" by (simp add: resting_count_def abs_of_def ids_def empty_book_def)
  with applyCommands_count [OF a _ assms(7)] submits_le [of "pushed calls"] only_commands_pushed [OF assms(6)]
  have "length (tradeLog (eng (process s))) \<le> length calls"
    by (simp add: blank_def untimed_state_def book_reachable.empty)
  then have n: "length calls + length (tradeLog (eng (process (journal_side s)))) < 2 ^ 64"
    using assms(8) by (simp add: no_sink.view_fields)
  obtain j0 where j0: "journal (eng (process (journal_side s))) = Some (?J, j0)" "settled j0"
    "applyCommands ([] @ pushed calls) blank = Inr (untimed_state (eng (process (journal_side s))))"
    "holds_log (tables (database_state j0)) ([] @ pushed calls)"
    "events_table (tables (database_state j0)) \<noteq> None" "trades_table (tables (database_state j0)) \<noteq> None"
    "eventsWritten j0 = word_of_nat (length calls)"
    "tradesWritten j0 = word_of_nat (length (tradeLog (eng (process (journal_side s)))) - length (tradeLog ?e))"
    by (rule session_counts [OF assms(1-4) inv _ _ ses assms(6) l n]) simp_all
  then have "journal (eng (process s)) = Some (?J, j0)" by simp
  then obtain j1' where j1: "journal (eng (process s1)) = Some (?J, j1')" "same_counts j0 j1'"
    by (rule background_counts [OF assms(9) _ j0(2)])
  then obtain j2' where j2: "journal (eng (process s2)) = Some (?J, j2')" "same_counts j1' j2'"
    by (auto simp: same_counts_def elim!: background_counts [OF assms(11)])
  then obtain j3 where j3: "journal (eng (process s3)) = Some (?J, j3)" "same_counts j2' j3"
    by (auto simp: same_counts_def elim!: background_counts [OF assms(13)])
  from assms(14) j3(1) obtain j4 where j4: "journal_destroyed W j3 j4" "d' = database_state j4" by (auto simp: scope_end_def)
  have "settled j3" using j3(2) by (simp add: same_counts_def)
  note j34 = journal_destroyed_counts [OF j4(1) this]
  have "j1' = j1" "j2' = j2" using j1(1) j2(1) assms(10,12) by simp_all
  with j1(2) j2(2) j3(2) j34 j4(2) have c: "eventsWritten j1 = eventsWritten j0" "eventsWritten j2 = eventsWritten j0"
    "tradesWritten j2 = tradesWritten j0" "d' = database_state j0" by (simp_all add: same_counts_def)
  from a show "applyCommands (pushed calls) blank = Inr (untimed_state (eng (process s)))" .
  from c j0 show "eventsWritten j1 = word_of_nat (length calls)" "eventsWritten j2 = word_of_nat (length calls)"
    "tradesWritten j2 = word_of_nat (length (tradeLog (eng (process s))))"
    "holds_log (tables d') (pushed calls)" "events_table (tables d') \<noteq> None" "trades_table (tables d') \<noteq> None"
    by (simp_all add: no_sink.view_fields)
qed

lemma phase3_calls_Inr:
  assumes "\<forall>i < N. case draws i of (s, q, p) \<Rightarrow> 1 \<le> q \<and> q \<le> 20 \<and> 98 \<le> p \<and> p \<le> 102"
  shows "phase3_calls now draws N = Inr (map (\<lambda>i. case draws i of (s, q, p) \<Rightarrow>
      Submit (Some (limit_at (now i) (word_of_nat (i + 1)) 1 s q p))) [0..<N])"
proof -
  have "mapE (phase3Order now draws) [0..<N] =
      Inr (map (\<lambda>i. case draws i of (s, q, p) \<Rightarrow> limit_at (now i) (word_of_nat (i + 1)) 1 s q p) [0..<N])"
    using assms by (intro mapE_Inr) (auto simp: phase3Order_def createOrder_limit split: prod.splits)
  then show ?thesis by (simp add: phase3_calls_def split_def)
qed

lemma phase3_calls_facts:
  assumes "\<forall>i < N. case draws i of (s, q, p) \<Rightarrow> 1 \<le> q \<and> q \<le> 20 \<and> 98 \<le> p \<and> p \<le> 102"
  obtains calls where "phase3_calls now draws N = Inr calls" "only_commands calls" "length calls = N"
    "\<forall>cmd \<in> set (pushed calls). well_formed_order cmd"
proof -
  let ?f = "\<lambda>i. case draws i of (s, q, p) \<Rightarrow> limit_at (now i) (word_of_nat (i + 1)) 1 s q p"
  have "pushed (map (\<lambda>i. Submit (Some (?f i))) is) = map (\<lambda>i. Command_submit (Some (?f i))) is" for "is"
    by (induction "is") simp_all
  then have "\<forall>cmd \<in> set (pushed (map (\<lambda>i. Submit (Some (?f i))) [0..<N])). well_formed_order cmd"
    using assms by (fastforce simp: well_formed_order_def Command_submit_def split: prod.splits intro: limit_at_ok)
  moreover have "only_commands (map (\<lambda>i. Submit (Some (?f i))) [0..<N])" by (simp add: only_commands_def list_all_iff)
  moreover have "phase3_calls now draws N = Inr (map (\<lambda>i. Submit (Some (?f i))) [0..<N])"
    unfolding phase3_calls_Inr [OF assms] by (simp add: split_def)
  ultimately show thesis by (intro that) simp_all
qed

text \<open>The phases: none throws when Redis accepts the connection, and what they print and leave.\<close>

lemma phase1_outcome:
  assumes "phase1 W d r ls res" and "database_laws (pg W) tables" and "PgDatabase.healthy (pg W) tables"
    and "holds_log (tables d) []" and "connect_gives (firstConnect W 1) = connected"
  obtains cmds st d' r' sent where "res = Inr (d', r')"
    "ls = [TradesHeader ''  before crash'' 1, TradeLine 2 1 4 (Finite 100), Persisted 4 1 sent]"
    "map untimed_command cmds = phase1_commands" "\<forall>cmd \<in> set cmds. from_factory cmd" "length cmds = 4"
    "holds_log (tables d') cmds" "applyCommands cmds blank = Inr st"
proof -
  obtain j where j: "new_PostgresJournal (pg W) d = Inr j" by (rule new_journal [OF assms(2-4)])
  obtain k where k: "new_RedisMarketData (firstConnect W 1) r = Inr k" by (rule redis_connects [OF assms(5)])
  have calls: "\<exists>calls. phase1_calls (orderClock W 1) = Inr calls" by (simp add: phase1_calls_def createOrder_limit)
  from assms(1) show thesis
  proof cases
    case (completed j k calls s s1 J1 j1 s2 J2 j2 s3 V3 k3 d' r')
    note p = phase1_calls_Inr [OF completed(5)]
    have "length calls < 2 ^ 62" by (simp add: p(3))
    note ses = demo_session [OF assms(2-4) completed(3,6) p(2,5) this completed(7-11,13)]
    note log = trade_log_of [OF ses(1) p(1) script_trades(1)]
    have "length (tradeLog (eng (process s))) = 1" using arg_cong [OF log, of length] by (simp add: fills_def)
    moreover have "length (pushed calls) = 4" using arg_cong [OF p(1), of length] by (simp add: phase1_commands_def)
    moreover have "printTrades ''  before crash'' (getTradeLog (eng (process s))) =
        [TradesHeader ''  before crash'' 1, TradeLine 2 1 4 (Finite 100)]"
      using printTrades_untimed [of _ "tradeLog (eng (process s))"] unfolding log getTradeLog_def
      by (simp add: printTrades_def fills_def)
    ultimately show thesis using that completed(1,2) ses p by simp
  qed (use j k calls in auto)
qed

lemma phase2_outcome:
  assumes "phase2 W d ls res" and "database_laws (pg W) tables" and "PgDatabase.healthy (pg W) tables"
    and "holds_log (tables d) cmds" and "map untimed_command cmds = phase1_commands" and "\<forall>cmd \<in> set cmds. from_factory cmd"
    and "length cmds = 4" and "applyCommands cmds blank = Inr st"
  obtains d' where "res = Inr d'" "events_table (tables d') \<noteq> None" "trades_table (tables d') \<noteq> None"
    "ls = [TradesHeader ''  recovered trade history'' 1, TradeLine 2 1 4 (Finite 100),
      TradesHeader ''  after trading post-recovery'' 2, TradeLine 2 1 4 (Finite 100), TradeLine 4 1 6 (Finite 100),
      TextLine ''  (expected: the original 4-share trade, plus a new 6-share fill against the recovered resting order)'']"
proof -
  obtain j where j: "new_PostgresJournal (pg W) d = Inr j" by (rule new_journal [OF assms(2-4)])
  let ?e0 = "pg_engine (pg W) (pgEnv W 2) j None (None :: (unit imarket_data_sink \<times> unit) option) ()"
  have n: "length cmds < 2 ^ 63" by (simp add: assms(7))
  obtain e where e: "recover (replayClock W) ?e0 = Returns e" "untimed_state e = st"
    "durable_inv (pg W) (pgEnv W 2) tables cmds [] (durable_start e)" "running e = False" "matchingThread e = not_joinable"
    "queue (incomingQueue e) = []" by (rule pg_recover [OF assms(2-4) j assms(8,6) n])
  from e(4-6) have stop: "stopped e" by (simp add: stopped_def)
  have jr: "journal e = Some (PostgresJournal_vtable (pg W) (pgEnv W 2), j)" using recover_journal [OF e(1)] by simp
  from assms(8) e(2) have a: "applyCommands cmds blank = Inr (untimed_state e)" by simp
  note log = trade_log_of [OF a assms(5) script_trades(1)]
  have print: "printTrades label ts = printTrades label (fills xs)" if "map untimed_trade ts = fills xs" for label ts xs
    using that printTrades_untimed by metis
  from assms(1) show thesis
  proof cases
    case (bad_order j e err)
    then show thesis by (simp add: phase2_calls_def createOrder_limit)
  next
    case (completed j' e' calls s J j1 j2)
    from completed(3,4) j e(1) have same: "j' = j" "e' = e" by simp_all
    note p = phase2_calls_Inr [OF completed(5)]
    note ses0 = completed(6) [unfolded same]
    have l: "length cmds + length calls < 2 ^ 63" by (simp add: assms(7) p(3))
    have c: "map untimed_command (cmds @ pushed calls) = phase1_commands @ phase2_commands" using assms(5) p(1) by simp
    note log2 = trade_log_of [OF session_sound(1) [OF assms(2,3) e(3-5) ses0 p(2) l] c script_trades(2)]
    have "length (tradeLog (eng (process s))) = 2" using arg_cong [OF log2, of length] by (simp add: fills_def)
    then have "length calls + length (tradeLog (eng (process s))) < 2 ^ 64" by (simp add: p(3))
    then obtain j0 where j0: "journal (eng (process s)) = Some (PostgresJournal_vtable (pg W) (pgEnv W 2), j0)" "settled j0"
      "events_table (tables (database_state j0)) \<noteq> None" "trades_table (tables (database_state j0)) \<noteq> None"
      by (rule session_counts [OF assms(2-4) j e(3) jr stop ses0 p(2) l])
    with completed(8) have "j1 = j0" by simp
    from journal_destroyed_counts [OF completed(9) [unfolded this] j0(2)] have "database_state j2 = database_state j0"
      by (simp add: same_counts_def)
    with that [of "database_state j2"] j0(3,4) completed(1,2) show thesis
      unfolding same getTradeLog_def print [OF log] print [OF log2] by (simp add: printTrades_def fills_def)
  qed (use j e(1) in auto)
qed

lemma phase3_outcome:
  assumes "phase3 W d r ls res" and "database_laws (pg W) tables" and "PgDatabase.healthy (pg W) tables"
    and "holds_log (tables d) []" and "connect_gives (firstConnect W 3) = connected" and "submissions W < 2 ^ 31"
    and "\<forall>i < submissions W. case drawn W i of (s, q, p) \<Rightarrow> 1 \<le> q \<and> q \<le> 20 \<and> 98 \<le> p \<and> p \<le> 102"
  obtains calls ts b d' r' batches avg sent where "res = Inr (d', r')"
    "phase3_calls (orderClock W 3) (drawn W) (submissions W) = Inr calls" "length (pushed calls) = submissions W"
    "applyCommands (pushed calls) blank = Inr (ts, b)" "holds_log (tables d') (pushed calls)"
    "ls = [SubmittedIn (submissions W) (seconds W), Throughput (fdiv (fp W) (fp W (of_nat (submissions W))) (seconds W)),
       PostgresRows (word_of_nat (submissions W)) (word_of_nat (length ts)) batches avg, RedisCommands sent]"
proof -
  obtain calls where c: "phase3_calls (orderClock W 3) (drawn W) (submissions W) = Inr calls" "only_commands calls"
    "length calls = submissions W" "\<forall>cmd \<in> set (pushed calls). well_formed_order cmd" by (rule phase3_calls_facts [OF assms(7)])
  obtain j where j: "new_PostgresJournal (pg W) d = Inr j" by (rule new_journal [OF assms(2-4)])
  obtain k where k: "new_RedisMarketData (firstConnect W 3) r = Inr k" by (rule redis_connects [OF assms(5)])
  from assms(1) show thesis
  proof cases
    case (completed j k calls' s s1 J1 j1 s2 J2 j2 s3 V3 k3 d' r')
    from completed(5) c(1) have same: "calls' = calls" by simp
    have l: "length calls < 2 ^ 62" using assms(6) c(3) by simp
    note ses = demo_session [OF assms(2-4) completed(3) completed(6) [unfolded same] c(2,4) l completed(7-11,13)]
    obtain ts b where st: "untimed_state (eng (process s)) = (ts, b)" by (cases "untimed_state (eng (process s))")
    then have "length (tradeLog (eng (process s))) = length ts" by (auto simp: untimed_state_def)
    with that [of d' r' calls ts b] completed(1,2) c(1,3) only_commands_pushed [OF c(2)] ses st show thesis by simp
  qed (use j k c(1) in auto)
qed

text \<open>What the first two phases tell.\<close>

abbreviation told1 :: "64 word \<Rightarrow> demo_line list" where
  "told1 sent \<equiv> [TradesHeader ''  before crash'' 1, TradeLine 2 1 4 (Finite 100), Persisted 4 1 sent]"

abbreviation told2 :: "demo_line list" where
  "told2 \<equiv> [TradesHeader ''  recovered trade history'' 1, TradeLine 2 1 4 (Finite 100),
      TradesHeader ''  after trading post-recovery'' 2, TradeLine 2 1 4 (Finite 100), TradeLine 4 1 6 (Finite 100),
      TextLine ''  (expected: the original 4-share trade, plus a new 6-share fill against the recovered resting order)'']"

lemma demo_phases12:
  assumes "phase1 W d r ls1 (Inr (d1, r1))" and "database_laws (pg W) tables" and "PgDatabase.healthy (pg W) tables"
    and "holds_log (tables d) []" and "connect_gives (firstConnect W 1) = connected"
  shows "\<exists>sent. ls1 = told1 sent \<and> (\<forall>ls2 res2. phase2 W d1 ls2 res2 \<longrightarrow>
    (\<exists>d2 d3. res2 = Inr d2 \<and> truncateTables (pg W) d2 = Returns d3 \<and> holds_log (tables d3) [] \<and> ls2 = told2))"
proof -
  obtain cmds st sent where c: "ls1 = told1 sent" "map untimed_command cmds = phase1_commands"
    "\<forall>cmd \<in> set cmds. from_factory cmd" "length cmds = 4" "holds_log (tables d1) cmds" "applyCommands cmds blank = Inr st"
    by (rule phase1_outcome [OF assms]) auto
  have "\<exists>d2 d3. res2 = Inr d2 \<and> truncateTables (pg W) d2 = Returns d3 \<and> holds_log (tables d3) [] \<and> ls2 = told2"
    if p2: "phase2 W d1 ls2 res2" for ls2 res2
  proof -
    obtain d2 where d2: "res2 = Inr d2" "events_table (tables d2) \<noteq> None" "trades_table (tables d2) \<noteq> None" "ls2 = told2"
      by (rule phase2_outcome [OF p2 assms(2,3) c(5,2-4,6)])
    obtain d3 where "truncateTables (pg W) d2 = Returns d3" by (rule truncate_works [OF assms(2,3) d2(2,3)])
    with d2 truncate_tables [OF assms(2) this] show ?thesis by blast
  qed
  with c(1) show ?thesis by blast
qed

section \<open>Samples\<close>

text \<open>A world with the sample database and server and one submission in phase 3, and a schedule for each phase. At the end of
  the scope the publisher takes and sends what is queued and ends.\<close>

definition sample_world :: "(pg_tables, string \<Rightarrow> string option) demo_world" where
  "sample_world =
     \<lparr>pg = good_db, pgEnv = (\<lambda>_ _. (0, 0)), redis = map_server, redisEnv = (\<lambda>_. sample_env), firstConnect = (\<lambda>_. good_network),
      orderClock = (\<lambda>_ _. 0), replayClock = (\<lambda>_. at_zero), drawn = (\<lambda>_. (SELL, 5, 100)), submissions = 1, seconds = 1,
      fp = (\<lambda>x. x)\<rparr>"

definition sample_phase1 :: "full_label list" where
  "sample_phase1 =
     [On (Sys Start), On (Sys (Submit (Some (limit_at 0 1 1 SELL 10 100)))), On (Sys (Round at_zero)),
      On (Sys (Submit (Some (limit_at 0 2 2 BUY 4 100)))), On Writer, On (Sys (Submit (Some (limit_at 0 3 1 SELL 5 101)))),
      On (Sys (Cancel 3)), On (Sys (Round at_zero)), On (Sys StopSignal), On (Sys (Round at_zero)), On (Sys (Round at_zero)),
      On Writer, On Writer, On (Sys (Round at_zero)), On StopFlush, On Writer, On Writer, On Writer]"

definition sample_phase2 :: "durable_label list" where
  "sample_phase2 =
     [Sys Start, Sys (Submit (Some (limit_at 0 4 3 BUY 6 100))), Sys (Submit (Some (limit_at 0 5 3 BUY 5 101))),
      Sys StopSignal, Sys (Round at_zero), Sys (Round at_zero), Sys (Round at_zero), StopFlush, Writer, Writer, Writer]"

definition sample_phase3 :: "full_label list" where
  "sample_phase3 =
     [On (Sys Start), On (Sys (Submit (Some (limit_at 0 1 1 SELL 5 100)))), On (Sys StopSignal), On (Sys (Round at_zero)),
      On (Sys (Round at_zero)), On StopFlush, On Writer, On Writer, On Writer]"

definition run_phase ::
  "nat \<Rightarrow> full_label list \<Rightarrow> pg_tables \<Rightarrow> (string \<Rightarrow> string option) \<Rightarrow>
     ((pg_tables, (string \<Rightarrow> string option) redis_sink, unit) durable \<times> pg_tables \<times> (string \<Rightarrow> string option)) option" where
  "run_phase i labels d r =
     (case new_PostgresJournal good_db d of Inl _ \<Rightarrow> None | Inr j \<Rightarrow>
     (case new_RedisMarketData good_network r of Inl _ \<Rightarrow> None | Inr k \<Rightarrow>
     (case full_exec good_db map_server (labels @ [On FlushReturn]) (durable_start (phase_engine sample_world i j k)) of None \<Rightarrow> None | Some s \<Rightarrow>
     (if Engine_destructor [] (process s) \<noteq> Some True then None else
     (case journal (eng (process s)) of None \<Rightarrow> None | Some (J, j1) \<Rightarrow>
     (case sink (eng (process s)) of None \<Rightarrow> None | Some (V, k1) \<Rightarrow>
     (case pg_exec good_db [PgDestroy, PgWriter, PgJoin] j1 of None \<Rightarrow> None | Some j2 \<Rightarrow>
     (case redis_exec map_server [Destroy, Publisher good_network, Publisher good_network, Publisher good_network, Join] k1 of
        None \<Rightarrow> None | Some k2 \<Rightarrow> Some (s, database_state j2, server k2)))))))))"

lemma sample_destroyed:
  "pg_exec good_db [PgDestroy, PgWriter, PgJoin] j = Some j' \<Longrightarrow> journal_destroyed sample_world j j'"
  "redis_exec map_server [Destroy, Publisher good_network, Publisher good_network, Publisher good_network, Join] k = Some k' \<Longrightarrow>
     sink_destroyed sample_world k k'"
proof -
  show "journal_destroyed sample_world j j'" if "pg_exec good_db [PgDestroy, PgWriter, PgJoin] j = Some j'"
    unfolding journal_destroyed_def using pg_exec_run [OF that]
    by (intro exI [of _ 0] exI [of _ 1]) (simp add: sample_world_def)
  show "sink_destroyed sample_world k k'"
    if "redis_exec map_server [Destroy, Publisher good_network, Publisher good_network, Publisher good_network, Join] k = Some k'"
    unfolding sink_destroyed_def using that [folded redis_run_iff]
    by (intro exI [of _ "[]"] exI [of _ "[good_network, good_network, good_network]"]) (simp add: sample_world_def)
qed

lemma run_phase:
  assumes "run_phase i labels d r = Some (s, d', r')" and "callers (sys_of (journal_steps labels)) = Start # calls @ [StopSignal]"
  obtains j k J j1 V k1 where "new_PostgresJournal (pg sample_world) d = Inr j" "new_RedisMarketData good_network r = Inr k"
    "full_session sample_world (phase_engine sample_world i j k) calls s" "scope_end sample_world s d' r'"
    "journal (eng (process s)) = Some (J, j1)" "sink (eng (process s)) = Some (V, k1)"
proof -
  from assms(1) obtain j k J j1 j2 V k1 k2 where p: "new_PostgresJournal good_db d = Inr j" "new_RedisMarketData good_network r = Inr k"
    "full_exec good_db map_server (labels @ [On FlushReturn]) (durable_start (phase_engine sample_world i j k)) = Some s"
    "Engine_destructor [] (process s) = Some True" "journal (eng (process s)) = Some (J, j1)" "sink (eng (process s)) = Some (V, k1)"
    "pg_exec good_db [PgDestroy, PgWriter, PgJoin] j1 = Some j2"
    "redis_exec map_server [Destroy, Publisher good_network, Publisher good_network, Publisher good_network, Join] k1 = Some k2"
    "d' = database_state j2" "r' = server k2"
    by (auto simp: run_phase_def simp del: full_exec.simps pg_exec.simps redis_exec.simps
        split: sum.split_asm option.split_asm if_split_asm)
  have "full_session sample_world (phase_engine sample_world i j k) calls s"
    unfolding full_session_def using p(3) [folded full_run_iff] assms(2)
    by (intro exI [of _ labels]) (simp add: sample_world_def)
  moreover have "scope_end sample_world s d' r'"
    unfolding scope_end_def using p(4-6,9,10) sample_destroyed(1) [OF p(7)] sample_destroyed(2) [OF p(8)] by blast
  ultimately show thesis using that p(1,2,5,6) by (simp add: sample_world_def)
qed

definition run_phase2 :: "pg_tables \<Rightarrow> pg_tables option" where
  "run_phase2 d =
     (case new_PostgresJournal good_db d of Inl _ \<Rightarrow> None | Inr j \<Rightarrow>
     (case recover (\<lambda>_. at_zero) (pg_engine good_db (\<lambda>_. (0, 0)) j None (None :: (unit imarket_data_sink \<times> unit) option) ()) of
        Throws _ _ \<Rightarrow> None | Returns e \<Rightarrow>
     (case durable_exec good_db (sample_phase2 @ [FlushReturn]) (durable_start e) of None \<Rightarrow> None | Some s \<Rightarrow>
     (if Engine_destructor [] (process s) \<noteq> Some True then None else
     (case journal (eng (process s)) of None \<Rightarrow> None | Some (J, j1) \<Rightarrow>
      map_option database_state (pg_exec good_db [PgDestroy, PgWriter, PgJoin] j1))))))"

lemma sample_calls:
  "phase1_calls (\<lambda>_. 0) = Inr [Submit (Some (limit_at 0 1 1 SELL 10 100)), Submit (Some (limit_at 0 2 2 BUY 4 100)),
     Submit (Some (limit_at 0 3 1 SELL 5 101)), Cancel 3]"
  "phase2_calls (\<lambda>_. 0) = Inr [Submit (Some (limit_at 0 4 3 BUY 6 100)), Submit (Some (limit_at 0 5 3 BUY 5 101))]"
  "phase3_calls (\<lambda>_. 0) (\<lambda>_. (SELL, 5, 100)) 1 = Inr [Submit (Some (limit_at 0 1 1 SELL 5 100))]"
  by (simp_all add: phase1_calls_def phase2_calls_def phase3_calls_def phase3Order_def createOrder_limit)

lemma run_phase2:
  assumes "run_phase2 d = Some d'"
  obtains ls where "phase2 sample_world d ls (Inr d')"
proof -
  from assms obtain j e s J j1 j2 where p: "new_PostgresJournal good_db d = Inr j"
    "recover (\<lambda>_. at_zero) (pg_engine good_db (\<lambda>_. (0, 0)) j None (None :: (unit imarket_data_sink \<times> unit) option) ()) = Returns e"
    "durable_exec good_db (sample_phase2 @ [FlushReturn]) (durable_start e) = Some s"
    "Engine_destructor [] (process s) = Some True" "journal (eng (process s)) = Some (J, j1)"
    "pg_exec good_db [PgDestroy, PgWriter, PgJoin] j1 = Some j2" "d' = database_state j2"
    by (auto simp: run_phase2_def simp del: durable_exec.simps pg_exec.simps
        split: sum.split_asm option.split_asm if_split_asm outcome.split_asm)
  have s: "session good_db e [Submit (Some (limit_at 0 4 3 BUY 6 100)), Submit (Some (limit_at 0 5 3 BUY 5 101))] s"
    unfolding session_def using p(3) [folded durable_run_iff] by (intro exI [of _ sample_phase2]) (simp add: sample_phase2_def)
  have w: "pg sample_world = good_db" "pgEnv sample_world 2 = (\<lambda>_. (0, 0))" "replayClock sample_world = (\<lambda>_. at_zero)"
    "orderClock sample_world 2 = (\<lambda>_. 0)" by (simp_all add: sample_world_def)
  from phase2.completed [of sample_world d, unfolded w, OF p(1,2) sample_calls(2) s p(4,5) sample_destroyed(1) [OF p(6)]] p(7) that
  show thesis by simp
qed

lemma no_background: "background W s s"
  unfolding background_def using full_run.none by (metis empty_iff list.set(1))

lemma default_configuration:
  obtains cfg where "demo_configuration (\<lambda>_. None) = Inr cfg"
proof -
  have "case demo_configuration (\<lambda>_. None) of Inl _ \<Rightarrow> False | Inr _ \<Rightarrow> True" by code_simp
  with that show thesis by (auto split: sum.split_asm)
qed

lemma and_then:
  "(case x of None \<Rightarrow> False | Some y \<Rightarrow> P y) \<longleftrightarrow> (\<exists>y. x = Some y \<and> P y)"
  "(case out of Throws err z \<Rightarrow> False | Returns z \<Rightarrow> Q z) \<longleftrightarrow> (\<exists>z. out = Returns z \<and> Q z)"
  by (cases x; simp) (cases out; simp)

lemma sample_demo:
  obtains lines ending where "demo_main (\<lambda>_. None) (\<lambda>_. sample_world) empty_tables Map.empty lines ending"
proof -
  have "case run_phase 1 sample_phase1 empty_tables Map.empty of None \<Rightarrow> False | Some (s1, d1, r1) \<Rightarrow>
      (case run_phase2 d1 of None \<Rightarrow> False | Some d2 \<Rightarrow>
      (case truncateTables good_db d2 of Throws _ _ \<Rightarrow> False | Returns d3 \<Rightarrow>
      (case run_phase 3 sample_phase3 d3 r1 of None \<Rightarrow> False | Some _ \<Rightarrow> True)))" by code_simp
  then obtain s1 d1 r1 d2 d3 s3 d4 r4 where p: "run_phase 1 sample_phase1 empty_tables Map.empty = Some (s1, d1, r1)"
    "run_phase2 d1 = Some d2" "truncateTables good_db d2 = Returns d3" "run_phase 3 sample_phase3 d3 r1 = Some (s3, d4, r4)"
    by (auto simp: and_then)
  have w: "firstConnect sample_world i = good_network" "orderClock sample_world i = (\<lambda>_. 0)" "pg sample_world = good_db"
    "drawn sample_world = (\<lambda>_. (SELL, 5, 100))" "submissions sample_world = 1" for i
    by (simp_all add: sample_world_def)
  have "callers (sys_of (journal_steps sample_phase1)) = Start # [Submit (Some (limit_at 0 1 1 SELL 10 100)),
      Submit (Some (limit_at 0 2 2 BUY 4 100)), Submit (Some (limit_at 0 3 1 SELL 5 101)), Cancel 3] @ [StopSignal]"
    by (simp add: sample_phase1_def)
  from run_phase [OF p(1) this] obtain l1 where l1: "phase1 sample_world empty_tables Map.empty l1 (Inr (d1, r1))"
    using phase1.completed [of sample_world, OF _ _ _ _ no_background _ no_background _ no_background]
    unfolding w sample_calls by (metis sum.inject(2))
  obtain l2 where l2: "phase2 sample_world d1 l2 (Inr d2)" by (rule run_phase2 [OF p(2)])
  have "callers (sys_of (journal_steps sample_phase3)) = Start # [Submit (Some (limit_at 0 1 1 SELL 5 100))] @ [StopSignal]"
    by (simp add: sample_phase3_def)
  from run_phase [OF p(4) this] obtain l3 where l3: "phase3 sample_world d3 r1 l3 (Inr (d4, r4))"
    using phase3.completed [of sample_world, OF _ _ _ _ no_background _ no_background _ no_background]
    unfolding w sample_calls by (metis sum.inject(2))
  obtain cfg where c: "demo_configuration (\<lambda>_. None) = Inr cfg" by (rule default_configuration)
  have "demo_begin good_db empty_tables = Inr empty_tables"
    by (simp add: demo_begin_def truncateTables_def good_db_def list_database_def empty_tables_def)
  from demo_main.success [of "\<lambda>_. None" cfg "\<lambda>_. sample_world", unfolded w, OF c this l1 l2 p(3) l3] that show thesis by blast
qed

text \<open>Under the hypotheses of the property below no phase throws: only one end of \<open>main\<close> is left.\<close>

lemma demo_main_succeeds:
  assumes "demo_main getenv world d r lines ending" and "demo_configuration getenv = Inr cfg" and "world cfg = W"
    and "database_laws (pg W) tables" and "PgDatabase.healthy (pg W) tables"
    and "events_table (tables d) \<noteq> None" and "trades_table (tables d) \<noteq> None"
    and "connect_gives (firstConnect W 1) = connected" and "connect_gives (firstConnect W 3) = connected"
    and "submissions W < 2 ^ 31"
    and "\<forall>i < submissions W. case drawn W i of (s, q, p) \<Rightarrow> 1 \<le> q \<and> q \<le> 20 \<and> 98 \<le> p \<and> p \<le> 102"
  obtains sent1 d3 r1 ls3 d4 r4 where "holds_log (tables d3) []" "phase3 W d3 r1 ls3 (Inr (d4, r4))" "ending = Success d4 r4"
    "lines = banner1 @ told1 sent1 @ banner2 @ told2 @ banner3 @ ls3 @ epilogue"
proof -
  note db = assms(4,5)
  obtain d0 where d0: "truncateTables (pg W) d = Returns d0" by (rule truncate_works [OF db assms(6,7)])
  then have started: "demo_begin (pg W) d = Inr d0" by (simp add: demo_begin_def)
  note h0 = truncate_tables [OF db(1) d0]
  have one: "\<not> phase1 W d0 r ls (Inl err)" for ls err using phase1_outcome [OF _ db h0 assms(8)] by (metis Inl_Inr_False)
  note two = demo_phases12 [OF _ db h0 assms(8)]
  have three: "\<not> phase3 W d3 r1 ls (Inl err)" if "holds_log (tables d3) []" for d3 r1 ls err
    using phase3_outcome [OF _ db that assms(9-11)] by (metis Inl_Inr_False)
  from assms(1) show thesis
  proof cases
    case (success cfg' d0' ls1 d1 r1 ls2 d2 d3 ls3 d4 r4)
    with assms(2,3) started have run: "phase1 W d0 r ls1 (Inr (d1, r1))" "phase2 W d1 ls2 (Inr d2)"
      "truncateTables (pg W) d2 = Returns d3" "phase3 W d3 r1 ls3 (Inr (d4, r4))" by simp_all
    from two [OF run(1)] run(2,3) obtain sent1 where "ls1 = told1 sent1" "ls2 = told2" "holds_log (tables d3) []" by fastforce
    with run(4) success(1,2) that show thesis by blast
  next
    case (phase1_throws cfg' d0' ls1 err)
    with assms(2,3) started one show thesis by simp
  next
    case (phase2_throws cfg' d0' ls1 d1 r1 ls2 err)
    with assms(2,3) started have "phase1 W d0 r ls1 (Inr (d1, r1))" "phase2 W d1 ls2 (Inl err)" by simp_all
    from two [OF this(1)] this(2) show thesis by blast
  next
    case (truncate_throws cfg' d0' ls1 d1 r1 ls2 d2 err d3)
    with assms(2,3) started have "phase1 W d0 r ls1 (Inr (d1, r1))" "phase2 W d1 ls2 (Inr d2)"
      "truncateTables (pg W) d2 = Throws err d3" by simp_all
    from two [OF this(1)] this(2,3) show thesis by fastforce
  next
    case (phase3_throws cfg' d0' ls1 d1 r1 ls2 d2 d3 ls3 err)
    with assms(2,3) started have "phase1 W d0 r ls1 (Inr (d1, r1))" "phase2 W d1 ls2 (Inr d2)"
      "truncateTables (pg W) d2 = Returns d3" and p3: "phase3 W d3 r1 ls3 (Inl err)" by simp_all
    from two [OF this(1)] this(2,3) have "holds_log (tables d3) []" by fastforce
    with three p3 show thesis by blast
  qed (use assms(2,3) started in simp_all)
qed

section \<open>Properties\<close>



text \<open>C33: the first run fails. On a database that is up but in which one of the tables does not exist yet, \<open>main\<close>
  prints that it could not connect and ends with exit code 1, and can do nothing else, because it truncates
  the tables before a \<open>PostgresJournal\<close> has created them; constructing one would succeed on a healthy
  database.\<close>

theorem demo_needs_tables:
  assumes "database_laws (pg (world cfg)) tables" and "PgDatabase.healthy (pg (world cfg)) tables"
    and "events_table (tables d) = None \<or> trades_table (tables d) = None" and "demo_configuration getenv = Inr cfg"
  shows "(demo_main getenv world d r lines ending \<longleftrightarrow> lines = [CannotConnect] \<and> ending = ExitCode 1) \<and>
    (\<exists>j. new_PostgresJournal (pg (world cfg)) d = Inr j)"
proof -
  let ?D = "pg (world cfg)"
  from assms(3) have "sql_txn [truncate_events, truncate_trades] (tables d) = None" by auto
  then have "\<nexists>d'. truncateTables ?D d = Returns d'"
    using assms(1) unfolding database_laws_def truncateTables_def by (metis option.distinct(1))
  then have exits: "demo_begin ?D d = Inl 1" by (auto simp: demo_begin_def split: outcome.splits)
  have "lines = [CannotConnect] \<and> ending = ExitCode 1" if "demo_main getenv world d r lines ending"
    using that by cases (use assms(4) exits in simp_all)
  with demo_main.no_tables [of getenv cfg world, OF assms(4) exits]
  have "demo_main getenv world d r lines ending \<longleftrightarrow> lines = [CannotConnect] \<and> ending = ExitCode 1" by blast
  moreover obtain d' where "db_txn ?D [create_events, create_trades] d = Returns d'"
    by (rule healthyE [OF assms(2,1) sql_schema])
  then have "\<exists>j. new_PostgresJournal ?D d = Inr j" by (simp add: new_PostgresJournal_def ensureSchema_def)
  ultimately show ?thesis by blast
qed

theorem demo_needs_tables_witness:
  "demo_main (\<lambda>_. None) (\<lambda>_. sample_world) \<lparr>events_table = None, trades_table = None\<rparr> Map.empty [CannotConnect] (ExitCode 1)"
proof -
  obtain cfg where c: "demo_configuration (\<lambda>_. None) = Inr cfg" by (rule default_configuration)
  have w: "database_laws (pg sample_world) (\<lambda>d. d)" "PgDatabase.healthy (pg sample_world) (\<lambda>d. d)"
    using good_db_laws by (simp_all add: sample_world_def)
  from demo_needs_tables [of "\<lambda>_. sample_world", OF w _ c] show ?thesis by simp
qed

end
