(* ===== verification/ConcurrencyDemo.thy ===== *)
theory ConcurrencyDemo
  imports EngineInvariants "HOL-Library.Multiset"
begin

text \<open>
  \<open>concurrentEngineDemo\<close> of \<open>demos/concurrency_demo.cpp\<close>: several trader threads submit random limit orders
  to one engine; main waits for them and stops the engine. What it prints, and the \<open>main\<close> of the file, are in
  \<open>ConcurrencyMain\<close>; \<open>benchmarkQueue\<close> is in \<open>Handoff\<close>.

  What the random generators return is an argument, restricted only by the ranges of the distributions.
  The numbers of threads and of orders per thread, 4 and 500 in the program, are arguments as well.
  The threads run in any interleaving.
\<close>

section \<open>The trader threads\<close>

record draw =
  d_side :: side
  d_qty :: int
  d_price :: rat

definition draw_ok :: "draw \<Rightarrow> bool" where
  "draw_ok d \<longleftrightarrow> 1 \<le> d_qty d \<and> d_qty d \<le> 20 \<and> 98 \<le> d_price d \<and> d_price d \<le> 102"

definition traderOrderId :: "nat \<Rightarrow> nat \<Rightarrow> order_id" where
  "traderOrderId t i = word_of_nat t * 1000000 + word_of_nat i"

definition traderOrder :: "(nat \<Rightarrow> nat \<Rightarrow> timestamp) \<Rightarrow> (nat \<Rightarrow> nat \<Rightarrow> draw) \<Rightarrow> nat \<Rightarrow> nat \<Rightarrow> order result" where
  "traderOrder now draws t i =
     createOrder (now t i) LIMIT (traderOrderId t i) (word_of_nat t) (d_side (draws t i)) (d_qty (draws t i))
       (Finite (d_price (draws t i)))"

text \<open>The orders trader thread \<open>t\<close> submits, in this order.\<close>

definition traderThread ::
  "(nat \<Rightarrow> nat \<Rightarrow> timestamp) \<Rightarrow> (nat \<Rightarrow> nat \<Rightarrow> draw) \<Rightarrow> nat \<Rightarrow> nat \<Rightarrow> order list result" where
  "traderThread now draws kOrdersPerThread t = mapE (traderOrder now draws t) [0..<kOrdersPerThread]"

section \<open>The run\<close>

text \<open>\<open>tradeCount++\<close> on an \<open>atomic<int>\<close>, which wraps around.\<close>

definition countTrade :: "trade \<Rightarrow> 32 word \<Rightarrow> 32 word" where
  "countTrade t c = c + 1"

definition demo_engine :: "('j, 's, 32 word) engine" where
  "demo_engine = setOnTrade (Some countTrade) (new_Engine 0)"

text \<open>An interleaving of lists.\<close>

inductive merge_of :: "'a list list \<Rightarrow> 'a list \<Rightarrow> bool" where
  nothing: "\<forall>xs \<in> set xss. xs = [] \<Longrightarrow> merge_of xss []"
| one: "i < length xss \<Longrightarrow> xss ! i = x # xs \<Longrightarrow> merge_of (xss[i := xs]) ys \<Longrightarrow> merge_of xss (x # ys)"

text \<open>The program up to where \<open>stop()\<close> has returned: the engine is started, the traders' submissions are
  interleaved, all of them are joined, and then the engine is stopped.\<close>

definition concurrentEngineDemo ::
  "(nat \<Rightarrow> nat \<Rightarrow> timestamp) \<Rightarrow> (nat \<Rightarrow> nat \<Rightarrow> draw) \<Rightarrow> nat \<Rightarrow> nat \<Rightarrow> sys_label list \<Rightarrow>
     ('j, 's, 32 word) system \<Rightarrow> bool" where
  "concurrentEngineDemo now draws kTraderThreads kOrdersPerThread tr s \<longleftrightarrow>
     (\<exists>streams ords. mapE (traderThread now draws kOrdersPerThread) [0..<kTraderThreads] = Inr streams \<and>
        merge_of streams ords \<and> callers tr = Start # map (\<lambda>ord. Submit (Some ord)) ords @ [StopSignal] \<and>
        system_run (idle demo_engine) (tr @ [StopJoin]) s)"

section \<open>Lemmas\<close>

lemma demo_engine_plugged: "demo_engine = plugged_engine None (Some countTrade) None 0"
  by (simp add: demo_engine_def plugged_engine_defs)

lemma mset_concat_update:
  "i < length xss \<Longrightarrow> xss ! i = x # xs \<Longrightarrow> mset (concat xss) = add_mset x (mset (concat (xss[i := xs])))"
proof (induction xss arbitrary: i)
  case (Cons a xss)
  then show ?case by (cases i) simp_all
qed simp

lemma merge_of_mset: "merge_of xss ys \<Longrightarrow> mset ys = mset (concat xss)"
proof (induction rule: merge_of.induct)
  case (nothing xss)
  then have "concat xss = []" by simp
  then show ?case by simp
qed (simp add: mset_concat_update)

lemma traderOrderId_inj:
  assumes "i < 1000000" "i' < 1000000" "t < 2 ^ 40" "t' < 2 ^ 40" "traderOrderId t i = traderOrderId t' i'"
  shows "t = t' \<and> i = i'"
proof -
  have small: "unat (traderOrderId a b) = a * 1000000 + b" if "a < 2 ^ 40" "b < 1000000" for a b
  proof -
    have "traderOrderId a b = word_of_nat (a * 1000000 + b)" by (simp add: traderOrderId_def)
    moreover have "unat (word_of_nat (a * 1000000 + b) :: 64 word) = (a * 1000000 + b) mod 2 ^ LENGTH(64)"
      by (rule unat_of_nat)
    moreover have "a * 1000000 + b < 2 ^ LENGTH(64)" using that by simp
    ultimately show ?thesis by (simp only: mod_less)
  qed
  have e: "t * 1000000 + i = t' * 1000000 + i'"
    using small [OF assms(3,1)] small [OF assms(4,2)] assms(5) by simp
  have "(a * 1000000 + b) div 1000000 = a" "(a * 1000000 + b) mod 1000000 = b" if "b < 1000000" for a b :: nat
    using that by simp_all
  from this [OF assms(1), of t] this [OF assms(2), of t'] e show ?thesis by simp
qed

definition limit_of :: "(nat \<Rightarrow> nat \<Rightarrow> timestamp) \<Rightarrow> (nat \<Rightarrow> nat \<Rightarrow> draw) \<Rightarrow> nat \<Rightarrow> nat \<Rightarrow> order" where
  "limit_of now draws t i =
     \<lparr>getId = traderOrderId t i, getTraderId = word_of_nat t, getSide = d_side (draws t i),
      getQuantity = d_qty (draws t i), getRemainingQuantity = d_qty (draws t i), getTimestamp = now t i,
      getStatus = NEW, dynType = LimitOrder (Finite (d_price (draws t i)))\<rparr>"

lemma limit_of_ok: "draw_ok (draws t i) \<Longrightarrow> order_ok (limit_of now draws t i)"
  by (simp add: draw_ok_def limit_of_def order_ok_def price_ok_def int32_def)

lemma threads_streams:
  assumes "\<forall>t < T. \<forall>i < n. draw_ok (draws t i)"
  shows "mapE (traderThread now draws n) [0..<T] = Inr (map (\<lambda>t. map (limit_of now draws t) [0..<n]) [0..<T])"
proof (rule mapE_Inr)
  fix t
  assume t: "t \<in> set [0..<T]"
  show "traderThread now draws n t = Inr (map (limit_of now draws t) [0..<n])"
    unfolding traderThread_def
  proof (rule mapE_Inr)
    fix i
    assume "i \<in> set [0..<n]"
    with t assms have "draw_ok (draws t i)" by simp
    then show "traderOrder now draws t i = Inr (limit_of now draws t i)"
      by (simp add: traderOrder_def createOrder_Inr limit_of_def draw_ok_def)
  qed
qed

lemma stream_ids_distinct:
  assumes "n \<le> 1000000" and "T \<le> 2 ^ 40"
  shows "distinct (map getId (concat (map (\<lambda>t. map (limit_of now draws t) [0..<n]) [0..<T])))"
proof -
  have "map getId (concat (map (\<lambda>t. map (limit_of now draws t) [0..<n]) [0..<T])) =
      map (\<lambda>(t, i). traderOrderId t i) (List.product [0..<T] [0..<n])"
    by (simp add: product_concat_map map_concat comp_def limit_of_def)
  moreover have "inj_on (\<lambda>(t, i). traderOrderId t i) (set (List.product [0..<T] [0..<n]))"
  proof (rule inj_onI, clarsimp)
    fix t i t' i'
    assume a: "t < T" "i < n" "t' < T" "i' < n" and e: "traderOrderId t i = traderOrderId t' i'"
    have "i < 1000000" "i' < 1000000" "t < 2 ^ 40" "t' < 2 ^ 40"
      by (rule less_le_trans [OF a(2) assms(1)], rule less_le_trans [OF a(4) assms(1)],
          rule less_le_trans [OF a(1) assms(2)], rule less_le_trans [OF a(3) assms(2)])
    from traderOrderId_inj [OF this e] show "t = t' \<and> i = i'" .
  qed
  ultimately show ?thesis by (simp add: distinct_map distinct_product)
qed

lemma submitted_ids_orders: "submitted_ids (map (\<lambda>ord. Command_submit (Some ord)) ords) = map getId ords"
  by (induction ords) (simp_all add: Command_submit_def)

lemma fold_countTrade: "fold countTrade ts c = c + word_of_nat (length ts)"
  by (induction ts arbitrary: c) (simp_all add: countTrade_def)

text \<open>Two traders with one order each, which trade.\<close>

definition sample_draws :: "nat \<Rightarrow> nat \<Rightarrow> draw" where
  "sample_draws t i = \<lparr>d_side = (if t = 0 then SELL else BUY), d_qty = 5, d_price = 100\<rparr>"

definition sample_demo :: "sys_label list" where
  "sample_demo =
     [Start, Submit (Some (limit_of (\<lambda>_ _. 0) sample_draws 1 0)), Round at_zero,
      Submit (Some (limit_of (\<lambda>_ _. 0) sample_draws 0 0)), StopSignal, Round at_zero, Round at_zero]"

lemma sample_draws_ok: "\<forall>t < 2. \<forall>i < 1. draw_ok (sample_draws t i)"
  by (simp add: draw_ok_def sample_draws_def)

section \<open>The run of the threads\<close>

text \<open>The concurrent demo handles every order exactly once. For all draws in the ranges of the distributions and every
  interleaving of the trader threads with the matching thread: the process is not terminated, when \<open>stop()\<close>
  has returned no order waits, the book and the trade log are those of applying all submitted orders one
  after the other in the order of their pushes, and the callback's counter is the size of the trade log
  (modulo 2^32).\<close>

lemma concurrent_demo_consistent:
  assumes "concurrentEngineDemo now draws T n tr s" and "\<forall>t < T. \<forall>i < n. draw_ok (draws t i)"
    and "n \<le> 1000000" and "T \<le> 2 ^ 40"
  shows "terminated s = None \<and> waiting s = [] \<and> length (pushed tr) = T * n \<and>
    applyCommands (pushed tr) blank = Inr (untimed_state (eng s)) \<and>
    user_state (eng s) = word_of_nat (length (getTradeLog (eng s))) \<and>
    (\<forall>cmd \<in> set (pushed tr). well_formed_order cmd)"
proof -
  let ?streams = "map (\<lambda>t. map (limit_of now draws t) [0..<n]) [0..<T]"
  from assms(1) threads_streams [OF assms(2), of now] obtain ords where
    o: "merge_of ?streams ords" "callers tr = Start # map (\<lambda>ord. Submit (Some ord)) ords @ [StopSignal]"
    "system_run (idle demo_engine) (tr @ [StopJoin]) s"
    by (auto simp: concurrentEngineDemo_def)
  note m = merge_of_mset [OF o(1)]
  have "pushed (map (\<lambda>ord. Submit (Some ord)) ords) = map (\<lambda>ord. Command_submit (Some ord)) ords"
    by (induction ords) simp_all
  then have p: "pushed tr = map (\<lambda>ord. Command_submit (Some ord)) ords"
    using callers_facts(1) [of tr] o(2) by simp
  have "mset (map getId ords) = mset (map getId (concat ?streams))" using m by simp
  then have "distinct (map getId ords)"
    using stream_ids_distinct [OF assms(3,4), of now draws] mset_eq_imp_distinct_iff by blast
  then have d: "distinct (submitted_ids (pushed tr))" unfolding p submitted_ids_orders .
  have "set ords = set (concat ?streams)" using m by (rule mset_eq_setD)
  then have "\<forall>ord \<in> set ords. order_ok ord" using assms(2) by (auto intro: limit_of_ok)
  then have ok: "\<forall>cmd \<in> set (pushed tr). command_ok cmd" "\<forall>cmd \<in> set (pushed tr). well_formed_order cmd"
    unfolding p by (simp_all add: command_ok_def well_formed_order_def Command_submit_def)
  note run = o(3) [unfolded demo_engine_plugged]
  have t: "terminated s = None" using run_safe [OF run safe_start] d ok(1) by (simp add: safe_for_def)
  have "quiet_after_stop (Start # map (\<lambda>ord. Submit (Some ord)) ords @ [StopSignal])"
    by (induction ords) simp_all
  then have "quiet_after_stop (tr @ [StopJoin])" "has_stop (tr @ [StopJoin])"
    using callers_quiet [of tr] callers_facts(2) [of tr] o(2) by (simp_all add: quiet_append)
  from run_quiet [OF run control_start this] have q: "matchingThread (eng s) = executing \<or> waiting s = []"
    by (simp add: stop_quiet_def)
  from run have "matchingThread (eng s) = not_joinable"
    by (cases rule: system_run.cases)
      (auto simp: sys_next_def stop_join_def join_def split: if_splits thread_state.splits)
  with q have w: "waiting s = []" by simp
  have a: "applyCommands (pushed tr) blank = Inr (untimed_state (eng s))"
    using run_applied [OF run applied_start] t w by (simp add: applied_prefix_def)
  have "callback_inv countTrade 0 (eng s)"
    by (rule run_callback [OF run]) (simp add: callback_inv_def plugged_engine_defs)
  then have "user_state (eng s) = word_of_nat (length (getTradeLog (eng s)))"
    by (simp add: callback_inv_def fold_countTrade getTradeLog_def)
  moreover have "length ords = length (concat ?streams)" using m by (metis size_mset)
  then have "length (pushed tr) = T * n" unfolding p by (simp add: length_concat comp_def sum_list_triv)
  ultimately show ?thesis using t w a ok(2) by blast
qed

text \<open>A run of two traders.\<close>

lemma sample_demo_run:
  obtains s :: "(unit, unit, 32 word) system" where "concurrentEngineDemo (\<lambda>_ _. 0) sample_draws 2 1 sample_demo s"
proof -
  have "exec_labels (sample_demo @ [StopJoin]) (idle demo_engine) \<noteq> (None :: (unit, unit, 32 word) system option)"
    by code_simp
  then obtain s :: "(unit, unit, 32 word) system" where s: "system_run (idle demo_engine) (sample_demo @ [StopJoin]) s"
    by (auto simp: system_run_iff)
  let ?o = "\<lambda>t. limit_of (\<lambda>_ _. 0) sample_draws t 0"
  have "merge_of [[?o 0], [?o 1]] [?o 1, ?o 0]"
    by (intro merge_of.one [of 1] merge_of.one [of 0] merge_of.nothing) simp_all
  moreover have "mapE (traderThread (\<lambda>_ _. 0) sample_draws 1) [0..<2] = Inr [[?o 0], [?o 1]]"
    using threads_streams [OF sample_draws_ok] by (simp add: numeral_2_eq_2)
  moreover have "callers sample_demo = Start # map (\<lambda>ord. Submit (Some ord)) [?o 1, ?o 0] @ [StopSignal]"
    by (simp add: sample_demo_def)
  ultimately have "concurrentEngineDemo (\<lambda>_ _. 0) sample_draws 2 1 sample_demo s"
    using s unfolding concurrentEngineDemo_def by blast
  with that show thesis .
qed

end
