(* ===== verification/LockFreeSPSCQueue.thy ===== *)
theory LockFreeSPSCQueue
  imports FifoSpec
begin

unbundle bit_operations_syntax

text \<open>
  \<open>include/LockFreeSPSCQueue.h\<close>: the lock-free ring buffer between one producer and one consumer.

  The calls are modelled twice. \<open>spsc_push\<close> and \<open>spsc_pop\<close> are whole calls, as a thread sees its own.
  \<open>spsc_next\<close> splits each call at its accesses to shared memory, so that the two threads interleave
  between the test of the other side's index, the access to the cell and the publication of the own
  index. The interleaving is sequentially consistent: the release store of an index and the acquire load
  that reads it order the cell accesses on either side, which is what the orderings in the code are for.

  The template argument \<open>Capacity\<close> is a \<open>size_t\<close> that two static assertions make a power of two of at
  least 2. Indexing the vector out of range is undefined behaviour. A moved-from cell keeps its value
  here; no call reads it again before it is overwritten.
\<close>

section \<open>Whole calls\<close>

record 'a spsc =
  buffer :: "'a list"
  head :: "64 word"
  tail :: "64 word"

definition capacity_ok :: "64 word \<Rightarrow> bool" where
  "capacity_ok cap \<longleftrightarrow> 2 \<le> cap \<and> cap AND (cap - 1) = 0"

definition new_spsc :: "64 word \<Rightarrow> 'a \<Rightarrow> 'a spsc" where
  "new_spsc cap dflt = \<lparr>buffer = replicate (unat cap) dflt, head = 0, tail = 0\<rparr>"

definition advance :: "64 word \<Rightarrow> 64 word \<Rightarrow> 64 word" where
  "advance cap i = (i + 1) AND (cap - 1)"

definition cell_read :: "'a list \<Rightarrow> 64 word \<Rightarrow> 'a result" where
  "cell_read buf i = (if unat i < length buf then Inr (buf ! unat i) else Inl undefined_behaviour)"

definition cell_write :: "'a list \<Rightarrow> 64 word \<Rightarrow> 'a \<Rightarrow> 'a list result" where
  "cell_write buf i x = (if unat i < length buf then Inr (buf[unat i := x]) else Inl undefined_behaviour)"

definition spsc_push :: "64 word \<Rightarrow> 'a \<Rightarrow> 'a spsc \<Rightarrow> (bool \<times> 'a spsc) result" where
  "spsc_push cap item q =
     (let nextHead = advance cap (head q) in
      if nextHead = tail q then Inr (False, q)
      else bindE (cell_write (buffer q) (head q) item) (\<lambda>buf.
        Inr (True, q\<lparr>buffer := buf, head := nextHead\<rparr>)))"

definition spsc_pop :: "64 word \<Rightarrow> 'a spsc \<Rightarrow> ('a option \<times> 'a spsc) result" where
  "spsc_pop cap q =
     (if tail q = head q then Inr (None, q)
      else bindE (cell_read (buffer q) (tail q)) (\<lambda>item.
        Inr (Some item, q\<lparr>tail := advance cap (tail q)\<rparr>)))"

section \<open>The ring\<close>

text \<open>The cells from \<open>t\<close> up to but not including \<open>h\<close>, around a ring of \<open>c\<close> cells.\<close>

definition ring_count :: "nat \<Rightarrow> nat \<Rightarrow> nat \<Rightarrow> nat" where
  "ring_count c t h = (if t \<le> h then h - t else h + c - t)"

definition ring_items :: "nat \<Rightarrow> 'a list \<Rightarrow> nat \<Rightarrow> nat \<Rightarrow> 'a list" where
  "ring_items c buf t h = map (\<lambda>i. buf ! ((t + i) mod c)) [0..<ring_count c t h]"

definition spsc_items :: "'a spsc \<Rightarrow> 'a list" where
  "spsc_items q = ring_items (length (buffer q)) (buffer q) (unat (tail q)) (unat (head q))"

definition spsc_inv :: "64 word \<Rightarrow> 'a spsc \<Rightarrow> bool" where
  "spsc_inv cap q \<longleftrightarrow> capacity_ok cap \<and> length (buffer q) = unat cap \<and> head q < cap \<and> tail q < cap"

lemma ring_empty: "t < c \<Longrightarrow> h < c \<Longrightarrow> ring_items c buf t h = [] \<longleftrightarrow> t = h"
  by (auto simp: ring_items_def ring_count_def)

lemma ring_write:
  assumes "t < c" and "h < c" and "length buf = c"
  shows "ring_items c (buf[h := x]) t h = ring_items c buf t h"
proof -
  have "(t + i) mod c \<noteq> h" if "i < ring_count c t h" for i
  proof (cases "t + i < c")
    case True
    with that assms show ?thesis by (auto simp: ring_count_def split: if_splits)
  next
    case False
    then have "(t + i) mod c = (t + i - c) mod c" by (simp add: le_mod_geq)
    with False that assms show ?thesis by (auto simp: ring_count_def split: if_splits)
  qed
  then show ?thesis by (auto simp: ring_items_def) (metis nth_list_update_neq)
qed

lemma ring_snoc:
  assumes "t < c" and "h < c" and "(h + 1) mod c \<noteq> t"
  shows "ring_items c buf t ((h + 1) mod c) = ring_items c buf t h @ [buf ! h]"
proof -
  have "ring_count c t ((h + 1) mod c) = Suc (ring_count c t h)" "(t + ring_count c t h) mod c = h"
    using assms by (auto simp: ring_count_def mod_if split: if_splits)
  then show ?thesis by (simp add: ring_items_def)
qed

lemma ring_Cons:
  assumes "t < c" and "h < c" and "t \<noteq> h"
  shows "ring_items c buf t h = buf ! t # ring_items c buf ((t + 1) mod c) h"
proof -
  have n: "ring_count c t h = Suc (ring_count c ((t + 1) mod c) h)"
    using assms by (auto simp: ring_count_def mod_if split: if_splits)
  have "((t + 1) mod c + i) mod c = (t + Suc i) mod c" for i by (simp add: mod_add_left_eq)
  then show ?thesis
    using assms(1) by (simp add: ring_items_def n upt_conv_Cons map_Suc_upt [symmetric] del: upt_Suc)
qed

section \<open>Indices\<close>

lemma power_of_two_nat: "0 < n \<Longrightarrow> n AND (n - 1) = 0 \<Longrightarrow> \<exists>k. n = (2::nat) ^ k"
proof (induction n rule: less_induct)
  case (less n)
  show ?case
  proof (cases "even n")
    case True
    then obtain m where m: "n = 2 * m" by blast
    with less.prems have "0 < m" by simp
    then have "(n - 1) div 2 = m - 1" "n div 2 = m" using m by auto
    moreover have "n AND (n - 1) = of_bool (odd n \<and> odd (n - 1)) + 2 * (n div 2 AND (n - 1) div 2)"
      by (rule and_nat_rec)
    ultimately have "m AND (m - 1) = 0" using less.prems by simp
    with less.IH [of m] m \<open>0 < m\<close> obtain k where "m = 2 ^ k" by auto
    with m show ?thesis by (intro exI [of _ "Suc k"]) simp
  next
    case False
    then obtain m where m: "n = 2 * m + 1" by (blast elim: oddE)
    moreover have "n AND (n - 1) = of_bool (odd n \<and> odd (n - 1)) + 2 * (n div 2 AND (n - 1) div 2)"
      by (rule and_nat_rec)
    ultimately have "m = 0" using less.prems by simp
    with m show ?thesis by (intro exI [of _ 0]) simp
  qed
qed

lemma capacity_power:
  assumes "capacity_ok cap"
  obtains k where "unat cap = 2 ^ k" "k < 64" "0 < k" "cap = 2 ^ k"
proof -
  from assms have c: "2 \<le> cap" "cap AND (cap - 1) = 0" by (simp_all add: capacity_ok_def)
  from c(1) have two: "2 \<le> unat cap" by (simp add: word_le_nat_alt)
  then have "cap \<noteq> 0" by auto
  have "unat cap AND (unat cap - 1) = unat (cap AND (cap - 1))"
    by (simp add: unsigned_and_eq unat_minus_one [OF \<open>cap \<noteq> 0\<close>])
  with c(2) two obtain k where k: "unat cap = 2 ^ k" using power_of_two_nat [of "unat cap"] by auto
  have "(2::nat) ^ k < 2 ^ 64" using unat64_less [of cap] k by simp
  then have "k < 64" using power_less_imp_less_exp [of "2::nat" k 64] by simp
  moreover have "0 < k" using two k by (cases k) auto
  moreover have "cap = word_of_nat (unat cap)" by simp
  then have "cap = 2 ^ k" unfolding k by simp
  ultimately show thesis using k that by blast
qed

lemma advance_mod:
  assumes "capacity_ok cap" and "i < cap"
  shows "unat (advance cap i) = (unat i + 1) mod unat cap" "advance cap i < cap"
proof -
  obtain k where k: "unat cap = 2 ^ k" "k < 64" "0 < k" "cap = 2 ^ k" by (rule capacity_power [OF assms(1)])
  have "advance cap i = take_bit k (i + 1)"
    using k(4) by (simp add: advance_def take_bit_eq_mask mask_eq_exp_minus_1)
  then have "unat (advance cap i) = take_bit k (unat (i + 1))" by (simp only: unsigned_take_bit_eq)
  then have "unat (advance cap i) = unat (i + 1) mod 2 ^ k" by (simp add: take_bit_eq_mod)
  moreover have "unat (i + 1) = unat i + 1"
  proof -
    have "unat i < unat cap" using assms(2) by (simp add: word_less_nat_alt)
    then have "unat i + 1 < 2 ^ 64" using unat64_less [of cap] by simp
    then show ?thesis by (simp add: unat_word_ariths)
  qed
  ultimately show "unat (advance cap i) = (unat i + 1) mod unat cap" using k(1) by simp
  then show "advance cap i < cap" using k(1) by (simp add: word_less_nat_alt)
qed

lemma spsc_invD:
  assumes "spsc_inv cap q"
  shows "capacity_ok cap" "length (buffer q) = unat cap" "unat (head q) < unat cap" "unat (tail q) < unat cap"
    "head q < cap" "tail q < cap"
  using assms by (auto simp: spsc_inv_def word_less_nat_alt)

lemma spsc_new: "capacity_ok cap \<Longrightarrow> spsc_inv cap (new_spsc cap d) \<and> spsc_items (new_spsc cap d) = []"
proof -
  assume "capacity_ok cap"
  moreover from this have "0 < cap" by (auto simp: capacity_ok_def word_less_nat_alt word_le_nat_alt)
  ultimately show ?thesis
    by (simp add: spsc_inv_def new_spsc_def spsc_items_def ring_empty word_less_nat_alt)
qed

text \<open>The three atomic changes of the shared state, in terms of the items.\<close>

lemma spsc_write:
  assumes "spsc_inv cap q"
  shows "cell_write (buffer q) (head q) x = Inr ((buffer q)[unat (head q) := x])"
    "spsc_items (q\<lparr>buffer := (buffer q)[unat (head q) := x]\<rparr>) = spsc_items q"
    "spsc_inv cap (q\<lparr>buffer := (buffer q)[unat (head q) := x]\<rparr>)"
  using spsc_invD [OF assms] assms
  by (simp_all add: cell_write_def spsc_items_def ring_write) (simp add: spsc_inv_def)

lemma spsc_publish_head:
  assumes "spsc_inv cap q" and "advance cap (head q) \<noteq> tail q"
  shows "spsc_items (q\<lparr>head := advance cap (head q)\<rparr>) = spsc_items q @ [buffer q ! unat (head q)]"
    "spsc_inv cap (q\<lparr>head := advance cap (head q)\<rparr>)"
proof -
  note q = spsc_invD [OF assms(1)]
  note adv = advance_mod [OF q(1,5)]
  have "(unat (head q) + 1) mod unat cap \<noteq> unat (tail q)" using assms(2) adv(1) by (metis unsigned_word_eqI)
  with q adv show "spsc_items (q\<lparr>head := advance cap (head q)\<rparr>) = spsc_items q @ [buffer q ! unat (head q)]"
    by (simp add: spsc_items_def ring_snoc [simplified])
  from adv assms(1) show "spsc_inv cap (q\<lparr>head := advance cap (head q)\<rparr>)" by (simp add: spsc_inv_def)
qed

lemma spsc_publish_tail:
  assumes "spsc_inv cap q" and "tail q \<noteq> head q"
  shows "spsc_items q = buffer q ! unat (tail q) # spsc_items (q\<lparr>tail := advance cap (tail q)\<rparr>)"
    "spsc_inv cap (q\<lparr>tail := advance cap (tail q)\<rparr>)"
proof -
  note q = spsc_invD [OF assms(1)]
  note adv = advance_mod [OF q(1,6)]
  have "unat (tail q) \<noteq> unat (head q)" using assms(2) by (simp add: word_unat_eq_iff)
  with q adv show "spsc_items q = buffer q ! unat (tail q) # spsc_items (q\<lparr>tail := advance cap (tail q)\<rparr>)"
    by (simp add: spsc_items_def ring_Cons [simplified])
  from adv assms(1) show "spsc_inv cap (q\<lparr>tail := advance cap (tail q)\<rparr>)" by (simp add: spsc_inv_def)
qed

lemma spsc_empty: "spsc_inv cap q \<Longrightarrow> spsc_items q = [] \<longleftrightarrow> tail q = head q"
  using spsc_invD [of cap q] by (simp add: spsc_items_def ring_empty word_unat_eq_iff)

lemma spsc_push_cases:
  assumes "spsc_inv cap q"
  shows "spsc_push cap x q =
    (if advance cap (head q) = tail q then Inr (False, q)
     else Inr (True, q\<lparr>buffer := (buffer q)[unat (head q) := x], head := advance cap (head q)\<rparr>))"
  by (simp add: spsc_push_def spsc_write [OF assms])

lemma spsc_push_items:
  assumes "spsc_inv cap q" and "advance cap (head q) \<noteq> tail q"
  shows "spsc_items (q\<lparr>buffer := (buffer q)[unat (head q) := x], head := advance cap (head q)\<rparr>) = spsc_items q @ [x]"
    "spsc_inv cap (q\<lparr>buffer := (buffer q)[unat (head q) := x], head := advance cap (head q)\<rparr>)"
  using spsc_publish_head [OF spsc_write(3) [OF assms(1)], of x] spsc_write(2) [OF assms(1), of x]
    spsc_invD [OF assms(1)] assms(2) by simp_all

lemma spsc_pop_cases:
  assumes "spsc_inv cap q"
  shows "spsc_pop cap q =
    (if tail q = head q then Inr (None, q)
     else Inr (Some (buffer q ! unat (tail q)), q\<lparr>tail := advance cap (tail q)\<rparr>))"
  using spsc_invD [OF assms] by (simp add: spsc_pop_def cell_read_def)

lemma spsc_full:
  assumes "spsc_inv cap q"
  shows "advance cap (head q) = tail q \<longleftrightarrow> \<not> length (spsc_items q) < unat cap - 1"
proof -
  note q = spsc_invD [OF assms]
  have "advance cap (head q) = tail q \<longleftrightarrow> (unat (head q) + 1) mod unat cap = unat (tail q)"
    using advance_mod(1) [OF q(1,5)] by (simp add: word_unat_eq_iff)
  also have "\<dots> \<longleftrightarrow> \<not> length (spsc_items q) < unat cap - 1"
    using q by (auto simp: spsc_items_def ring_items_def ring_count_def mod_if split: if_splits)
  finally show ?thesis .
qed

text \<open>The calls as the contract of a queue sees them.\<close>

definition spsc_put :: "64 word \<Rightarrow> 'a \<Rightarrow> 'a spsc \<Rightarrow> bool \<times> 'a spsc" where
  "spsc_put cap x q = (case spsc_push cap x q of Inr r \<Rightarrow> r | Inl _ \<Rightarrow> (False, q))"

definition spsc_get :: "64 word \<Rightarrow> 'a spsc \<Rightarrow> ('a option \<times> 'a spsc) option" where
  "spsc_get cap q = (case spsc_pop cap q of Inr r \<Rightarrow> Some r | Inl _ \<Rightarrow> None)"

interpretation ring: fifo "spsc_put cap" "spsc_get cap" spsc_items "spsc_inv cap" for cap
  by unfold_locales
    (auto simp: spsc_put_def spsc_get_def spsc_push_cases spsc_pop_cases spsc_push_items spsc_empty
      spsc_publish_tail split: if_splits)

section \<open>Interleaved calls\<close>

text \<open>Where the two threads are in their calls, and the items whose push has returned \<open>true\<close> and whose pop
  has returned. \<open>PWrite\<close> is between the test for a full queue and the write, \<open>PStore\<close> between the write
  and the store of the head; \<open>CRead\<close> and \<open>CStore\<close> likewise for the consumer.\<close>

datatype 'a producer_pc = PIdle | PWrite 'a "64 word" "64 word" | PStore 'a "64 word"

datatype 'a consumer_pc = CIdle | CRead "64 word" | CStore "64 word" 'a

record 'a spsc_sys =
  shared :: "'a spsc"
  producer :: "'a producer_pc"
  consumer :: "'a consumer_pc"
  pushed_items :: "'a list"
  popped_items :: "'a list"

datatype 'a spsc_label = PushCheck 'a | PushWrite | PushStore | PopCheck | PopRead | PopStore

definition push_step :: "64 word \<Rightarrow> 'a spsc_label \<Rightarrow> 'a spsc_sys \<Rightarrow> 'a spsc_sys result option" where
  "push_step cap l s =
     (let q = shared s in
      case (l, producer s) of
        (PushCheck item, PIdle) \<Rightarrow>
          let h = head q; nextHead = advance cap h
          in Some (Inr (if nextHead = tail q then s else s\<lparr>producer := PWrite item h nextHead\<rparr>))
      | (PushWrite, PWrite item h nextHead) \<Rightarrow>
          Some (bindE (cell_write (buffer q) h item) (\<lambda>buf.
            Inr (s\<lparr>shared := q\<lparr>buffer := buf\<rparr>, producer := PStore item nextHead\<rparr>)))
      | (PushStore, PStore item nextHead) \<Rightarrow>
          Some (Inr (s\<lparr>shared := q\<lparr>head := nextHead\<rparr>, producer := PIdle,
            pushed_items := pushed_items s @ [item]\<rparr>))
      | _ \<Rightarrow> None)"

definition pop_step :: "64 word \<Rightarrow> 'a spsc_label \<Rightarrow> 'a spsc_sys \<Rightarrow> 'a spsc_sys result option" where
  "pop_step cap l s =
     (let q = shared s in
      case (l, consumer s) of
        (PopCheck, CIdle) \<Rightarrow> Some (Inr (if tail q = head q then s else s\<lparr>consumer := CRead (tail q)\<rparr>))
      | (PopRead, CRead t) \<Rightarrow>
          Some (bindE (cell_read (buffer q) t) (\<lambda>item. Inr (s\<lparr>consumer := CStore t item\<rparr>)))
      | (PopStore, CStore t item) \<Rightarrow>
          Some (Inr (s\<lparr>shared := q\<lparr>tail := advance cap t\<rparr>, consumer := CIdle,
            popped_items := popped_items s @ [item]\<rparr>))
      | _ \<Rightarrow> None)"

definition spsc_next :: "64 word \<Rightarrow> 'a spsc_label \<Rightarrow> 'a spsc_sys \<Rightarrow> 'a spsc_sys result option" where
  "spsc_next cap l s = (case push_step cap l s of None \<Rightarrow> pop_step cap l s | Some r \<Rightarrow> Some r)"

definition spsc_init :: "64 word \<Rightarrow> 'a \<Rightarrow> 'a spsc_sys" where
  "spsc_init cap d =
     \<lparr>shared = new_spsc cap d, producer = PIdle, consumer = CIdle, pushed_items = [], popped_items = []\<rparr>"

inductive spsc_reachable :: "64 word \<Rightarrow> 'a \<Rightarrow> 'a spsc_sys \<Rightarrow> bool" for cap d where
  init: "spsc_reachable cap d (spsc_init cap d)"
| step: "spsc_reachable cap d s \<Longrightarrow> spsc_next cap l s = Some (Inr s') \<Longrightarrow> spsc_reachable cap d s'"

fun spsc_exec :: "64 word \<Rightarrow> 'a spsc_label list \<Rightarrow> 'a spsc_sys \<Rightarrow> 'a spsc_sys option" where
  "spsc_exec cap [] s = Some s"
| "spsc_exec cap (l # ls) s =
     (case spsc_next cap l s of Some (Inr s') \<Rightarrow> spsc_exec cap ls s' | _ \<Rightarrow> None)"

definition producer_inv :: "64 word \<Rightarrow> 'a spsc_sys \<Rightarrow> bool" where
  "producer_inv cap s =
     (let q = shared s in
      case producer s of
        PIdle \<Rightarrow> True
      | PWrite x h n \<Rightarrow> h = head q \<and> n = advance cap (head q) \<and> n \<noteq> tail q
      | PStore x n \<Rightarrow> n = advance cap (head q) \<and> n \<noteq> tail q \<and> buffer q ! unat (head q) = x)"

definition consumer_inv :: "64 word \<Rightarrow> 'a spsc_sys \<Rightarrow> bool" where
  "consumer_inv cap s =
     (let q = shared s in
      case consumer s of
        CIdle \<Rightarrow> True
      | CRead t \<Rightarrow> t = tail q \<and> t \<noteq> head q
      | CStore t x \<Rightarrow> t = tail q \<and> t \<noteq> head q \<and> buffer q ! unat t = x)"

definition spsc_sys_inv :: "64 word \<Rightarrow> 'a spsc_sys \<Rightarrow> bool" where
  "spsc_sys_inv cap s \<longleftrightarrow> spsc_inv cap (shared s) \<and> producer_inv cap s \<and> consumer_inv cap s \<and>
     pushed_items s = popped_items s @ spsc_items (shared s)"

lemma producer_inv_frame [simp]:
  "producer_inv cap (s\<lparr>consumer := c\<rparr>) = producer_inv cap s"
  "producer_inv cap (s\<lparr>popped_items := xs\<rparr>) = producer_inv cap s"
  by (cases "producer s"; simp add: producer_inv_def)+

lemma consumer_inv_frame [simp]:
  "consumer_inv cap (s\<lparr>producer := p\<rparr>) = consumer_inv cap s"
  "consumer_inv cap (s\<lparr>pushed_items := xs\<rparr>) = consumer_inv cap s"
  by (cases "consumer s"; simp add: consumer_inv_def)+

lemma advance_inj:
  assumes "capacity_ok cap" and "i < cap" and "j < cap" and "advance cap i = advance cap j"
  shows "i = j"
proof -
  from assms have "(unat i + 1) mod unat cap = (unat j + 1) mod unat cap"
    by (metis advance_mod(1))
  moreover have "unat i < unat cap" "unat j < unat cap" using assms by (simp_all add: word_less_nat_alt)
  ultimately have "unat i = unat j" by (auto simp: mod_if split: if_splits)
  then show ?thesis by (simp add: word_unat_eq_iff)
qed

lemma cell_write_other:
  assumes "spsc_inv cap q" and "tail q \<noteq> head q"
  shows "(buffer q)[unat (head q) := x] ! unat (tail q) = buffer q ! unat (tail q)"
  using assms(2) by (simp add: word_unat_eq_iff nth_list_update_neq)

lemma push_step_inv:
  assumes "spsc_sys_inv cap s" and "push_step cap l s = Some r"
  shows "\<exists>s'. r = Inr s' \<and> spsc_sys_inv cap s'"
proof -
  let ?q = "shared s"
  from assms(1) have inv: "spsc_inv cap ?q" "producer_inv cap s" "consumer_inv cap s"
    "pushed_items s = popped_items s @ spsc_items ?q" by (simp_all add: spsc_sys_inv_def)
  note q = spsc_invD [OF inv(1)]
  from assms(2) consider (check) x where "l = PushCheck x" "producer s = PIdle"
    | (fill) x h n where "l = PushWrite" "producer s = PWrite x h n"
    | (publish) x n where "l = PushStore" "producer s = PStore x n"
    by (auto simp: push_step_def Let_def split: spsc_label.splits producer_pc.splits)
  then show ?thesis
  proof cases
    case check
    with assms inv show ?thesis
      by (auto simp: push_step_def Let_def spsc_sys_inv_def)
        (auto simp: producer_inv_def Let_def)
  next
    case fill
    with inv(2) have w: "h = head ?q" "n = advance cap (head ?q)" "n \<noteq> tail ?q"
      by (auto simp: producer_inv_def Let_def)
    let ?s = "s\<lparr>shared := ?q\<lparr>buffer := (buffer ?q)[unat (head ?q) := x]\<rparr>, producer := PStore x n\<rparr>"
    have "r = Inr ?s" using assms(2) fill w spsc_write(1) [OF inv(1)] by (simp add: push_step_def Let_def)
    moreover have "consumer_inv cap ?s"
      using inv(3) cell_write_other [OF inv(1)]
      by (cases "consumer s") (auto simp: consumer_inv_def Let_def)
    ultimately show ?thesis
      using inv w q spsc_write(2,3) [OF inv(1), of x]
      by (simp add: spsc_sys_inv_def producer_inv_def Let_def)
  next
    case publish
    with inv(2) have w: "n = advance cap (head ?q)" "n \<noteq> tail ?q" "buffer ?q ! unat (head ?q) = x"
      by (auto simp: producer_inv_def Let_def)
    let ?s = "s\<lparr>shared := ?q\<lparr>head := n\<rparr>, producer := PIdle, pushed_items := pushed_items s @ [x]\<rparr>"
    have "r = Inr ?s" using assms(2) publish by (simp add: push_step_def)
    moreover have "consumer_inv cap ?s"
      using inv(3) w(2) by (cases "consumer s") (auto simp: consumer_inv_def Let_def)
    ultimately show ?thesis
      using inv w spsc_publish_head [OF inv(1)]
      by (simp add: spsc_sys_inv_def producer_inv_def Let_def)
  qed
qed

lemma pop_step_inv:
  assumes "spsc_sys_inv cap s" and "pop_step cap l s = Some r"
  shows "\<exists>s'. r = Inr s' \<and> spsc_sys_inv cap s'"
proof -
  let ?q = "shared s"
  from assms(1) have inv: "spsc_inv cap ?q" "producer_inv cap s" "consumer_inv cap s"
    "pushed_items s = popped_items s @ spsc_items ?q" by (simp_all add: spsc_sys_inv_def)
  note q = spsc_invD [OF inv(1)]
  from assms(2) consider (check) "l = PopCheck" "consumer s = CIdle"
    | (read) t where "l = PopRead" "consumer s = CRead t"
    | (publish) t x where "l = PopStore" "consumer s = CStore t x"
    by (auto simp: pop_step_def Let_def split: spsc_label.splits consumer_pc.splits)
  then show ?thesis
  proof cases
    case check
    with assms inv show ?thesis
      by (auto simp: pop_step_def Let_def spsc_sys_inv_def)
        (auto simp: consumer_inv_def Let_def)
  next
    case read
    with inv(3) have w: "t = tail ?q" "t \<noteq> head ?q" by (auto simp: consumer_inv_def Let_def)
    with read assms(2) q have "r = Inr (s\<lparr>consumer := CStore t (buffer ?q ! unat t)\<rparr>)"
      by (simp add: pop_step_def cell_read_def Let_def)
    with inv w show ?thesis by (simp add: spsc_sys_inv_def) (simp add: consumer_inv_def Let_def)
  next
    case publish
    with inv(3) have w: "t = tail ?q" "t \<noteq> head ?q" "buffer ?q ! unat t = x"
      by (auto simp: consumer_inv_def Let_def)
    let ?s = "s\<lparr>shared := ?q\<lparr>tail := advance cap t\<rparr>, consumer := CIdle, popped_items := popped_items s @ [x]\<rparr>"
    have "r = Inr ?s" using assms(2) publish by (simp add: pop_step_def)
    moreover have "advance cap (head ?q) \<noteq> advance cap t"
      using advance_inj [OF q(1,5,6)] w by auto
    then have "producer_inv cap ?s"
      using inv(2) by (cases "producer s") (auto simp: producer_inv_def Let_def)
    ultimately show ?thesis
      using inv w spsc_publish_tail [OF inv(1)]
      by (simp add: spsc_sys_inv_def consumer_inv_def Let_def)
  qed
qed

lemma spsc_next_inv:
  assumes "spsc_sys_inv cap s" and "spsc_next cap l s = Some r"
  shows "\<exists>s'. r = Inr s' \<and> spsc_sys_inv cap s'"
  using assms push_step_inv [OF assms(1)] pop_step_inv [OF assms(1)]
  by (auto simp: spsc_next_def split: option.splits)

lemma spsc_reachable_inv: "spsc_reachable cap d s \<Longrightarrow> capacity_ok cap \<Longrightarrow> spsc_sys_inv cap s"
proof (induction rule: spsc_reachable.induct)
  case init
  then show ?case
    using spsc_new [of cap d] by (simp add: spsc_sys_inv_def spsc_init_def producer_inv_def consumer_inv_def)
next
  case (step s l s')
  then show ?case using spsc_next_inv by fastforce
qed

lemma spsc_exec_reachable:
  "spsc_reachable cap d s \<Longrightarrow> spsc_exec cap ls s = Some s' \<Longrightarrow> spsc_reachable cap d s'"
  by (induction ls arbitrary: s) (auto split: option.splits sum.splits intro: spsc_reachable.step)

text \<open>A run in which the consumer looks between the producer's write and its store of the head.\<close>

definition spsc_sample :: "nat spsc_label list" where
  "spsc_sample = [PushCheck 7, PushWrite, PopCheck, PushStore, PopCheck, PushCheck 8, PopRead, PushWrite]"

lemma spsc_sample_run:
  obtains s where "spsc_reachable 4 (0::nat) s" "capacity_ok 4" "consumer s = CStore 0 7" "popped_items s = []"
proof -
  have "case spsc_exec 4 spsc_sample (spsc_init 4 0) of
      None \<Rightarrow> False | Some s \<Rightarrow> consumer s = CStore 0 7 \<and> popped_items s = []"
    by code_simp
  then obtain s where s: "spsc_exec 4 spsc_sample (spsc_init 4 0) = Some s" "consumer s = CStore 0 7" "popped_items s = []"
    by (auto split: option.splits)
  show thesis
  proof (rule that)
    show "spsc_reachable 4 0 s" by (rule spsc_exec_reachable [OF spsc_reachable.init s(1)])
    show "capacity_ok 4" by code_simp
  qed (rule s(2,3))+
qed

section \<open>Properties\<close>

text \<open>C28: the lock-free queue is first-in first-out under every interleaving of one producer and one
  consumer, each split at its accesses to shared memory: the items popped are the items pushed, in
  order, and the rest is in the ring, which never holds more than \<open>Capacity - 1\<close> items. No access is out
  of range.\<close>

theorem spsc_interleaving_fifo:
  assumes "spsc_reachable cap d s" and "capacity_ok cap"
  shows "pushed_items s = popped_items s @ spsc_items (shared s) \<and>
    length (spsc_items (shared s)) < unat cap \<and> spsc_next cap l s \<noteq> Some (Inl err)"
proof -
  from spsc_reachable_inv [OF assms] have inv: "spsc_sys_inv cap s" .
  note q = spsc_invD [of cap "shared s"]
  from inv have "length (spsc_items (shared s)) < unat cap"
    using q by (auto simp: spsc_sys_inv_def spsc_items_def ring_items_def ring_count_def)
  with inv spsc_next_inv [OF inv] show ?thesis by (auto simp: spsc_sys_inv_def)
qed

theorem spsc_interleaving_fifo_witness:
  "\<exists>s. spsc_reachable 4 (0::nat) s \<and> consumer s = CStore 0 7 \<and> pushed_items s = spsc_items (shared s) \<and>
     length (spsc_items (shared s)) < 4"
proof -
  obtain s where s: "spsc_reachable 4 (0::nat) s" "capacity_ok 4" "consumer s = CStore 0 7" "popped_items s = []"
    by (rule spsc_sample_run)
  from spsc_interleaving_fifo [OF s(1,2)] s show ?thesis by (intro exI [of _ s]) auto
qed

text \<open>C34: the two threads never touch the same cell at the same time: whenever the producer is about to
  write a cell and the consumer is about to read one, these are different cells, and the value the
  consumer takes away is still in the cell when it frees it.\<close>

theorem spsc_no_data_race:
  assumes "spsc_reachable cap d s" and "capacity_ok cap"
  shows "(producer s = PWrite x h n \<longrightarrow> consumer s = CRead t \<longrightarrow> h \<noteq> t) \<and>
    (consumer s = CStore t y \<longrightarrow> spsc_items (shared s) \<noteq> [] \<and> hd (spsc_items (shared s)) = y)"
proof -
  from spsc_reachable_inv [OF assms] have inv: "spsc_inv cap (shared s)" "producer_inv cap s" "consumer_inv cap s"
    by (simp_all add: spsc_sys_inv_def)
  then show ?thesis
    using spsc_publish_tail(1) [OF inv(1)] by (auto simp: producer_inv_def consumer_inv_def Let_def)
qed

theorem spsc_no_data_race_witness:
  "\<exists>s. spsc_reachable 4 (0::nat) s \<and> consumer s = CStore 0 7 \<and> hd (spsc_items (shared s)) = 7"
proof -
  obtain s where s: "spsc_reachable 4 (0::nat) s" "capacity_ok 4" "consumer s = CStore 0 7" "popped_items s = []"
    by (rule spsc_sample_run)
  from spsc_no_data_race [OF s(1,2)] s show ?thesis by blast
qed

text \<open>One call at a time the ring is a bounded queue: a push is refused exactly when \<open>Capacity - 1\<close>
  items are in it and otherwise adds at the end, a pop is empty exactly when there is no item and
  otherwise takes the oldest, no access is out of range and the invariant is kept.\<close>

lemma spsc_calls_refine:
  assumes "spsc_inv cap q"
  shows "(\<exists>ok q'. spsc_push cap x q = Inr (ok, q') \<and> spsc_inv cap q' \<and>
      (ok \<longleftrightarrow> length (spsc_items q) < unat cap - 1) \<and>
      spsc_items q' = (if ok then spsc_items q @ [x] else spsc_items q)) \<and>
    (\<exists>r q'. spsc_pop cap q = Inr (r, q') \<and> spsc_inv cap q' \<and>
      (case spsc_items q of [] \<Rightarrow> r = None \<and> q' = q | y # ys \<Rightarrow> r = Some y \<and> spsc_items q' = ys))"
proof
  note full = spsc_full [OF assms]
  show "\<exists>ok q'. spsc_push cap x q = Inr (ok, q') \<and> spsc_inv cap q' \<and>
      (ok \<longleftrightarrow> length (spsc_items q) < unat cap - 1) \<and>
      spsc_items q' = (if ok then spsc_items q @ [x] else spsc_items q)"
    using full spsc_push_cases [OF assms, of x] spsc_push_items [OF assms, of x] assms by auto
  show "\<exists>r q'. spsc_pop cap q = Inr (r, q') \<and> spsc_inv cap q' \<and>
      (case spsc_items q of [] \<Rightarrow> r = None \<and> q' = q | y # ys \<Rightarrow> r = Some y \<and> spsc_items q' = ys)"
    using spsc_pop_cases [OF assms] spsc_empty [OF assms] spsc_publish_tail [OF assms] assms
    by (auto split: list.splits)
qed

end
