(* ===== verification/Handoff.thy ===== *)
theory Handoff
  imports ThreadSafeQueue LockFreeSPSCQueue
begin

text \<open>
  \<open>benchmarkQueue\<close> and \<open>queueBenchmark\<close> of \<open>demos/concurrency_demo.cpp\<close>: a producer thread hands the numbers
  from 0 on to a consumer thread through a queue, once through \<open>ThreadSafeQueue\<close> and once through
  \<open>LockFreeSPSCQueue\<close>.

  The calls of a queue are the atomic steps here; how the calls of the lock-free queue interleave is in
  \<open>LockFreeSPSCQueue\<close>. The producer of the lock-free queue spins: a push that finds the queue full is a
  step that does not advance its loop. A pop that blocks is a step that is not enabled. \<open>popped\<close> is a ghost:
  the program only counts what it receives.
\<close>

section \<open>The two threads\<close>

record 'q handoff =
  h_queue :: 'q
  next_item :: nat
  received :: nat
  popped :: "nat list"

definition new_handoff :: "'q \<Rightarrow> 'q handoff" where
  "new_handoff q = \<lparr>h_queue = q, next_item = 0, received = 0, popped = []\<rparr>"

definition producer_step :: "(nat \<Rightarrow> 'q \<Rightarrow> bool \<times> 'q) \<Rightarrow> nat \<Rightarrow> 'q handoff \<Rightarrow> 'q handoff option" where
  "producer_step put itemCount h =
     (if next_item h < itemCount then
        let (ok, q) = put (next_item h) (h_queue h)
        in Some (h\<lparr>h_queue := q, next_item := (if ok then next_item h + 1 else next_item h)\<rparr>)
      else None)"

definition consumer_step :: "('q \<Rightarrow> (nat option \<times> 'q) option) \<Rightarrow> nat \<Rightarrow> 'q handoff \<Rightarrow> 'q handoff option" where
  "consumer_step get itemCount h =
     (if received h < itemCount then
        (case get (h_queue h) of
           None \<Rightarrow> None
         | Some (None, q) \<Rightarrow> Some (h\<lparr>h_queue := q\<rparr>)
         | Some (Some x, q) \<Rightarrow> Some (h\<lparr>h_queue := q, received := received h + 1, popped := popped h @ [x]\<rparr>))
      else None)"

datatype handoff_label = Produce | Consume

definition handoff_next ::
  "(nat \<Rightarrow> 'q \<Rightarrow> bool \<times> 'q) \<Rightarrow> ('q \<Rightarrow> (nat option \<times> 'q) option) \<Rightarrow> nat \<Rightarrow> handoff_label \<Rightarrow> 'q handoff \<Rightarrow>
     'q handoff option" where
  "handoff_next put get itemCount l h =
     (case l of Produce \<Rightarrow> producer_step put itemCount h | Consume \<Rightarrow> consumer_step get itemCount h)"

fun benchmarkQueue ::
  "(nat \<Rightarrow> 'q \<Rightarrow> bool \<times> 'q) \<Rightarrow> ('q \<Rightarrow> (nat option \<times> 'q) option) \<Rightarrow> nat \<Rightarrow> handoff_label list \<Rightarrow> 'q handoff \<Rightarrow>
     'q handoff option" where
  "benchmarkQueue put get itemCount [] h = Some h"
| "benchmarkQueue put get itemCount (l # ls) h =
     (case handoff_next put get itemCount l h of None \<Rightarrow> None | Some h' \<Rightarrow> benchmarkQueue put get itemCount ls h')"

text \<open>Both threads have left their loops, so both joins return.\<close>

definition both_done :: "nat \<Rightarrow> 'q handoff \<Rightarrow> bool" where
  "both_done itemCount h \<longleftrightarrow> itemCount \<le> next_item h \<and> itemCount \<le> received h"

text \<open>The two queues of \<open>queueBenchmark\<close>.\<close>

definition mutex_handoff :: "nat \<Rightarrow> handoff_label list \<Rightarrow> nat ts_queue handoff option" where
  "mutex_handoff itemCount ls = benchmarkQueue (\<lambda>x q. (True, push x q)) pop itemCount ls (new_handoff new_queue)"

definition spsc_handoff :: "64 word \<Rightarrow> nat \<Rightarrow> handoff_label list \<Rightarrow> nat spsc handoff option" where
  "spsc_handoff cap itemCount ls =
     benchmarkQueue (spsc_put cap) (spsc_get cap) itemCount ls (new_handoff (new_spsc cap 0))"

section \<open>What the threads rely on\<close>

text \<open>Beside the contract of a queue: an empty queue accepts an item.\<close>

locale handoff_queue = fifo put get items inv
  for put :: "nat \<Rightarrow> 'q \<Rightarrow> bool \<times> 'q"
    and get :: "'q \<Rightarrow> (nat option \<times> 'q) option"
    and items :: "'q \<Rightarrow> nat list"
    and inv :: "'q \<Rightarrow> bool" +
  assumes put_empty: "inv q \<Longrightarrow> items q = [] \<Longrightarrow> fst (put x q)"
begin

definition handoff_inv :: "nat \<Rightarrow> 'q handoff \<Rightarrow> bool" where
  "handoff_inv n h \<longleftrightarrow> inv (h_queue h) \<and> popped h @ items (h_queue h) = [0..<next_item h] \<and>
     received h = length (popped h) \<and> next_item h \<le> n"

lemma inv_received: "handoff_inv n h \<Longrightarrow> received h + length (items (h_queue h)) = next_item h"
  by (auto simp: handoff_inv_def dest: arg_cong [of _ _ length])

lemma handoff_next_inv:
  assumes "handoff_inv n h" and "handoff_next put get n l h = Some h'"
  shows "handoff_inv n h'"
proof (cases l)
  case Produce
  with assms(2) obtain ok q where p: "put (next_item h) (h_queue h) = (ok, q)" "next_item h < n"
    "h' = h\<lparr>h_queue := q, next_item := (if ok then next_item h + 1 else next_item h)\<rparr>"
    by (auto simp: handoff_next_def producer_step_def Let_def split: if_splits prod.splits)
  from assms(1) have i: "inv (h_queue h)" by (simp add: handoff_inv_def)
  with put_inv [OF i p(1)] put_items [OF i p(1)] assms(1) p(2,3) show ?thesis
    by (auto simp: handoff_inv_def)
next
  case Consume
  with assms(2) obtain r q where g: "get (h_queue h) = Some (r, q)"
    "h' = (case r of None \<Rightarrow> h\<lparr>h_queue := q\<rparr>
       | Some x \<Rightarrow> h\<lparr>h_queue := q, received := received h + 1, popped := popped h @ [x]\<rparr>)"
    by (auto simp: handoff_next_def consumer_step_def split: if_splits option.splits)
  from assms(1) have i: "inv (h_queue h)" by (simp add: handoff_inv_def)
  note get_inv [OF i g(1)]
  with g get_Some [OF i] get_None [OF i] assms(1) show ?thesis
    by (cases r) (auto simp: handoff_inv_def)
qed

lemma benchmarkQueue_inv: "benchmarkQueue put get n ls h = Some h' \<Longrightarrow> handoff_inv n h \<Longrightarrow> handoff_inv n h'"
  by (induction ls arbitrary: h) (auto split: option.splits dest: handoff_next_inv)

lemma both_done_popped:
  assumes "handoff_inv n h" and "both_done n h"
  shows "popped h = [0..<n] \<and> items (h_queue h) = []"
proof -
  from assms have n: "next_item h = n" "n \<le> received h" by (auto simp: handoff_inv_def both_done_def)
  with inv_received [OF assms(1)] have "length (items (h_queue h)) = 0" by linarith
  with assms(1) n(1) show ?thesis by (simp add: handoff_inv_def)
qed

text \<open>As long as the threads are not done, one of them advances: the consumer when something is queued,
  otherwise the producer.\<close>

lemma handoff_progress:
  assumes "handoff_inv n h" and "\<not> both_done n h"
  obtains l h' where "handoff_next put get n l h = Some h'" "next_item h' + received h' = Suc (next_item h + received h)"
proof (cases "items (h_queue h)")
  case Nil
  from assms(1) have i: "inv (h_queue h)" by (simp add: handoff_inv_def)
  obtain ok q where p: "put (next_item h) (h_queue h) = (ok, q)" by (cases "put (next_item h) (h_queue h)")
  with put_empty [OF i Nil, of "next_item h"] have "ok" by simp
  moreover have "received h = next_item h" using Nil inv_received [OF assms(1)] by simp
  then have "next_item h < n" using assms(2) by (auto simp: both_done_def)
  ultimately show thesis
    using that [of Produce "h\<lparr>h_queue := q, next_item := next_item h + 1\<rparr>"] p
    by (simp add: handoff_next_def producer_step_def Let_def)
next
  case (Cons x xs)
  from assms(1) have i: "inv (h_queue h)" by (simp add: handoff_inv_def)
  obtain q where "get (h_queue h) = Some (Some x, q)" by (rule get_nonempty [OF i Cons])
  moreover have "received h < next_item h" "next_item h \<le> n"
    using Cons inv_received [OF assms(1)] assms(1) by (simp_all add: handoff_inv_def)
  ultimately show thesis
    using that [of Consume "h\<lparr>h_queue := q, received := received h + 1, popped := popped h @ [x]\<rparr>"]
    by (simp add: handoff_next_def consumer_step_def)
qed

lemma handoff_completes:
  assumes "handoff_inv n h"
  shows "\<exists>ls h'. benchmarkQueue put get n ls h = Some h' \<and> both_done n h' \<and>
    length ls + (next_item h + received h) = 2 * n"
  using assms
proof (induction "2 * n - (next_item h + received h)" arbitrary: h rule: less_induct)
  case less
  have "next_item h \<le> n" using less.prems by (simp add: handoff_inv_def)
  then have b: "next_item h \<le> n" "received h \<le> n" using inv_received [OF less.prems] by linarith+
  show ?case
  proof (cases "both_done n h")
    case True
    with b show ?thesis by (intro exI [of _ "[]"] exI [of _ h]) (auto simp: both_done_def)
  next
    case False
    then obtain l h' where l: "handoff_next put get n l h = Some h'"
      "next_item h' + received h' = Suc (next_item h + received h)"
      by (rule handoff_progress [OF less.prems])
    have "2 * n - (next_item h' + received h') < 2 * n - (next_item h + received h)"
      using l(2) b False by (auto simp: both_done_def)
    from less.hyps [OF this handoff_next_inv [OF less.prems l(1)]] obtain ls h'' where
      "benchmarkQueue put get n ls h' = Some h''" "both_done n h''" "length ls + (next_item h' + received h') = 2 * n"
      by blast
    with l show ?thesis by (intro exI [of _ "l # ls"] exI [of _ h'']) simp
  qed
qed

lemma handoff_summary:
  assumes "inv q" and "items q = []" and "benchmarkQueue put get n ls (new_handoff q) = Some h"
  shows "popped h @ items (h_queue h) = [0..<next_item h] \<and>
      (both_done n h \<longrightarrow> popped h = [0..<n] \<and> items (h_queue h) = []) \<and>
      (\<exists>more h'. benchmarkQueue put get n more h = Some h' \<and> both_done n h' \<and>
         length more + (next_item h + received h) = 2 * n)"
proof -
  have "handoff_inv n (new_handoff q)" using assms(1,2) by (simp add: handoff_inv_def new_handoff_def)
  then have h: "handoff_inv n h" by (rule benchmarkQueue_inv [OF assms(3)])
  then have "popped h @ items (h_queue h) = [0..<next_item h]" by (simp add: handoff_inv_def)
  with both_done_popped [OF h] handoff_completes [OF h] show ?thesis by blast
qed

end

interpretation mutex: handoff_queue "\<lambda>x q. (True, push x q)" pop queue "\<lambda>_. True"
  by unfold_locales simp

lemma spsc_put_empty:
  assumes "spsc_inv cap q" and "spsc_items q = []"
  shows "fst (spsc_put cap x q)"
proof -
  from assms(1) have "2 \<le> unat cap" by (simp add: spsc_inv_def capacity_ok_def word_le_nat_alt)
  with spsc_full [OF assms(1)] assms(2) have "advance cap (head q) \<noteq> tail q" by simp
  with spsc_push_cases [OF assms(1), of x] show ?thesis by (simp add: spsc_put_def)
qed

interpretation lockfree: handoff_queue "spsc_put cap" "spsc_get cap" spsc_items "spsc_inv cap" for cap
  by unfold_locales (rule spsc_put_empty)

section \<open>Properties\<close>

text \<open>C35: the hand-off delivers everything in order through both queues. Whatever the two threads have done so
  far, in any interleaving, the consumer has received the numbers from 0 on in order, and no deadlock
  and no loss is possible: the threads can always finish, in exactly as many further steps that advance
  as are left of the two loops, and when they have finished the consumer has received all numbers and
  the queue is empty.\<close>

theorem handoff_delivers:
  assumes "mutex_handoff n ls = Some h" and "spsc_handoff 65536 n ls' = Some g"
  shows "popped h @ queue (h_queue h) = [0..<next_item h] \<and>
      (both_done n h \<longrightarrow> popped h = [0..<n] \<and> queue (h_queue h) = []) \<and>
      (\<exists>more h'. benchmarkQueue (\<lambda>x q. (True, push x q)) pop n more h = Some h' \<and> both_done n h' \<and>
         length more + (next_item h + received h) = 2 * n) \<and>
    popped g @ spsc_items (h_queue g) = [0..<next_item g] \<and>
      (both_done n g \<longrightarrow> popped g = [0..<n] \<and> spsc_items (h_queue g) = []) \<and>
      (\<exists>more g'. benchmarkQueue (spsc_put 65536) (spsc_get 65536) n more g = Some g' \<and> both_done n g' \<and>
         length more + (next_item g + received g) = 2 * n)"
proof -
  have "capacity_ok 65536" by code_simp
  then have n: "spsc_inv 65536 (new_spsc 65536 0 :: nat spsc)" "spsc_items (new_spsc 65536 0 :: nat spsc) = []"
    using spsc_new [of 65536 "0 :: nat"] by blast+
  note lockfree.handoff_summary [OF n assms(2) [unfolded spsc_handoff_def]]
  with mutex.handoff_summary [OF TrueI _ assms(1) [unfolded mutex_handoff_def]] queue_simps(7) show ?thesis by blast
qed

theorem handoff_delivers_witness:
  "\<exists>h g. mutex_handoff 2 [Produce, Produce, Consume] = Some h \<and> popped h @ queue (h_queue h) = [0..<2] \<and>
     spsc_handoff 65536 2 [] = Some g \<and> popped g @ spsc_items (h_queue g) = []"
proof -
  let ?h = "\<lparr>h_queue = \<lparr>queue = [1 :: nat], stopping = False\<rparr>, next_item = 2, received = 1, popped = [0]\<rparr>"
    and ?g = "new_handoff (new_spsc 65536 0) :: nat spsc handoff"
  have h: "mutex_handoff 2 [Produce, Produce, Consume] = Some ?h" by code_simp
  have g: "spsc_handoff 65536 2 [] = Some ?g" by (simp add: spsc_handoff_def)
  note t = handoff_delivers [OF h g]
  have "popped ?h @ queue (h_queue ?h) = [0..<next_item ?h]" using t by blast
  then have h2: "popped ?h @ queue (h_queue ?h) = [0..<2]" by simp
  have "popped ?g @ spsc_items (h_queue ?g) = [0..<next_item ?g]" using t by blast
  moreover have "next_item ?g = 0" by (simp add: new_handoff_def)
  ultimately have "popped ?g @ spsc_items (h_queue ?g) = []" by (simp only: upt_0)
  with h g h2 show ?thesis by (intro exI conjI)
qed

end
