(* ===== verification/ConcurrencyMain.thy ===== *)
theory ConcurrencyMain
  imports ConcurrencyDemo Handoff TradeBound Vwap
begin

text \<open>
  The \<open>main\<close> of \<open>demos/concurrency_demo.cpp\<close>: what the two parts, \<open>concurrentEngineDemo\<close> and \<open>queueBenchmark\<close>, print. The
  interleavings, the measured milliseconds and the rounding of doubles are arguments, as are the sizes, which in
  the program are 4 threads, 500 orders for each, and 200000 items.
\<close>

section \<open>The program\<close>

datatype concurrency_line =
    TextLine string
  | SubmittedOrders nat nat
  | TradesExecuted int
  | TradeLogSize nat
  | QueueTime string nat rat double

text \<open>\<open>tradeCount\<close> is an \<open>atomic<int>\<close>.\<close>

definition engineDemo_output :: "nat \<Rightarrow> nat \<Rightarrow> ('j, 's, 32 word) system \<Rightarrow> concurrency_line list" where
  "engineDemo_output kTraderThreads kOrdersPerThread s =
     [TextLine ''=== Part 1: concurrent order submission ==='',
      SubmittedOrders (kTraderThreads * kOrdersPerThread) kTraderThreads,
      TradesExecuted (sint (user_state (eng s))),
      TradeLogSize (length (getTradeLog (eng s)))]"

definition benchmarkQueue_output :: "rounding \<Rightarrow> string \<Rightarrow> nat \<Rightarrow> rat \<Rightarrow> concurrency_line" where
  "benchmarkQueue_output r label itemCount ms =
     QueueTime label itemCount ms (fdiv r (of_nat itemCount) (r (ms / 1000)))"

text \<open>Both queues are created afresh; each hand-off is over when its two threads are joined.\<close>

definition queueBenchmark ::
  "rounding \<Rightarrow> nat \<Rightarrow> rat \<Rightarrow> rat \<Rightarrow> handoff_label list \<Rightarrow> handoff_label list \<Rightarrow> concurrency_line list option" where
  "queueBenchmark r kItems ms1 ms2 ls1 ls2 =
     (case (mutex_handoff kItems ls1, spsc_handoff 65536 kItems ls2) of
        (Some h, Some g) \<Rightarrow>
          if both_done kItems h \<and> both_done kItems g then
            Some [TextLine ''=== Part 2: mutex queue vs lock-free queue throughput ==='',
                  benchmarkQueue_output r ''ThreadSafeQueue (mutex)'' kItems ms1,
                  benchmarkQueue_output r ''LockFreeSPSCQueue     '' kItems ms2,
                  TextLine ''Note: this sandbox has 1 CPU core, so both queues mostly'',
                  TextLine ''time-slice rather than run truly in parallel - run this on'',
                  TextLine ''your own multi-core machine for more representative results.'',
                  TextLine ''This benchmark measures queue handoff only, not matching correctness.'']
          else None
      | _ \<Rightarrow> None)"

text \<open>The run with the interleaving \<open>tr\<close> of the first part that ends in \<open>s\<close>, and those of the second part, prints \<open>lines\<close> and
  returns \<open>code\<close>.\<close>

definition concurrency_main ::
  "rounding \<Rightarrow> (nat \<Rightarrow> nat \<Rightarrow> timestamp) \<Rightarrow> (nat \<Rightarrow> nat \<Rightarrow> draw) \<Rightarrow> nat \<Rightarrow> nat \<Rightarrow> nat \<Rightarrow> rat \<Rightarrow> rat \<Rightarrow> sys_label list \<Rightarrow>
     handoff_label list \<Rightarrow> handoff_label list \<Rightarrow> ('j, 's, 32 word) system \<Rightarrow> concurrency_line list \<Rightarrow> int \<Rightarrow> bool" where
  "concurrency_main r now draws kTraderThreads kOrdersPerThread kItems ms1 ms2 tr ls1 ls2 s lines code \<longleftrightarrow>
     concurrentEngineDemo now draws kTraderThreads kOrdersPerThread tr s \<and>
     (\<exists>part2. queueBenchmark r kItems ms1 ms2 ls1 ls2 = Some part2 \<and>
        lines = engineDemo_output kTraderThreads kOrdersPerThread s @ part2) \<and> code = 0"

section \<open>Lemmas\<close>

lemma sint_word_of_nat: "k < 2 ^ 31 \<Longrightarrow> sint (word_of_nat k :: 32 word) = int k"
  by (simp add: signed_of_nat signed_take_bit_int_eq_self)

lemma no_resting: "resting_count empty_book = 0"
  by (simp add: resting_count_def abs_of_def ids_def empty_book_def)

section \<open>Properties\<close>

text \<open>C32: the concurrency demo prints equal counts. For all draws in the ranges of the distributions and every
  interleaving of the trader threads, the matching thread and the threads of the two hand-offs: \<open>main\<close> returns
  0 and prints that all orders were submitted, and for the counter of the callback, whose type is \<open>int\<close>, and for
  the trade log the same number; it is the number of trades that the submitted orders make one after the
  other in the order of their pushes, and at most the number of orders, so that the counter never overflows.\<close>

theorem concurrency_main_counts:
  assumes "concurrency_main r now draws T n items ms1 ms2 tr ls1 ls2 s lines code"
    and "\<forall>t < T. \<forall>i < n. draw_ok (draws t i)" and "n \<le> 1000000" and "T \<le> 2 ^ 40" and "T * n < 2 ^ 31"
  shows "\<exists>ts b part2. queueBenchmark r items ms1 ms2 ls1 ls2 = Some part2 \<and> applyCommands (pushed tr) blank = Inr (ts, b) \<and> length (pushed tr) = T * n \<and> length ts \<le> T * n \<and> code = 0 \<and>
    lines = [TextLine ''=== Part 1: concurrent order submission ==='', SubmittedOrders (T * n) T,
      TradesExecuted (int (length ts)), TradeLogSize (length ts)] @ part2"
proof -
  from assms(1) obtain part2 where m: "concurrentEngineDemo now draws T n tr s" "code = 0"
    "lines = engineDemo_output T n s @ part2" "queueBenchmark r items ms1 ms2 ls1 ls2 = Some part2" by (auto simp: concurrency_main_def)
  note c = concurrent_demo_consistent [OF m(1) assms(2-4)]
  then have a: "applyCommands (pushed tr) blank = Inr (untimed_state (eng s))" by blast
  have "length (fst (untimed_state (eng s))) \<le> submits (pushed tr)"
    using applyCommands_count [OF a] c no_resting by (simp add: blank_def book_reachable.empty)
  then have bound: "length (tradeLog (eng s)) \<le> T * n"
    using c submits_le [of "pushed tr"] by (simp add: untimed_state_def)
  then have "sint (user_state (eng s)) = int (length (getTradeLog (eng s)))"
    using c assms(5) by (simp add: sint_word_of_nat getTradeLog_def)
  with a bound c m show ?thesis
    by (intro exI [of _ "map untimed_trade (tradeLog (eng s))"] exI [of _ "untimed_book (eng_book (eng s))"])
      (simp add: untimed_state_def engineDemo_output_def getTradeLog_def)
qed

theorem concurrency_main_counts_witness:
  "\<exists>(s :: (unit, unit, 32 word) system) lines. concurrency_main (\<lambda>x. x) (\<lambda>_ _. 0) sample_draws 2 1 0 1 1 sample_demo [] [] s lines 0 \<and>
     (\<exists>k. k \<le> 2 \<and> lines ! 2 = TradesExecuted (int k) \<and> lines ! 3 = TradeLogSize k)"
proof -
  obtain s :: "(unit, unit, 32 word) system" where s: "concurrentEngineDemo (\<lambda>_ _. 0) sample_draws 2 1 sample_demo s"
    by (rule sample_demo_run)
  obtain part2 where p: "queueBenchmark (\<lambda>x. x) 0 1 1 [] [] = Some part2"
    by (simp add: queueBenchmark_def mutex_handoff_def spsc_handoff_def both_done_def)
  have m: "concurrency_main (\<lambda>x. x) (\<lambda>_ _. 0) sample_draws 2 1 0 1 1 sample_demo [] [] s
      (engineDemo_output 2 1 s @ part2) 0"
    unfolding concurrency_main_def using s p by blast
  have n: "(1::nat) \<le> 1000000" "(2::nat) \<le> 2 ^ 40" "(2::nat) * 1 < 2 ^ 31" by simp_all
  from concurrency_main_counts [OF m sample_draws_ok n] obtain ts :: "trade list" where "length ts \<le> 2"
    "TradesExecuted (sint (user_state (eng s))) = TradesExecuted (int (length ts))" "length (getTradeLog (eng s)) = length ts"
    by (auto simp: engineDemo_output_def)
  with m show ?thesis
    by (intro exI [of _ s] exI [of _ "engineDemo_output 2 1 s @ part2"] conjI exI [of _ "length ts"])
      (simp_all add: engineDemo_output_def)
qed

end
