(* ===== verification/Trader.thy ===== *)
theory Trader
  imports Orders
begin

text \<open>
  \<open>include/Trader.h\<close>, \<open>src/Trader.cpp\<close>, \<open>include/Stock.h\<close> and \<open>src/Stock.cpp\<close>: a trader with the shares
  held of each stock, and a stock with its price. The hash map of holdings is a partial function;
  \<open>operator[]\<close> inserts 0 for a missing key. Holdings are of type \<open>int\<close>, and leaving its range is
  undefined behaviour.
\<close>

section \<open>Trader\<close>

record trader =
  trader_id_field :: trader_id
  getName :: string
  holdings :: "string \<Rightarrow> int option"

definition new_Trader :: "trader_id \<Rightarrow> string \<Rightarrow> trader" where
  "new_Trader i name = \<lparr>trader_id_field = i, getName = name, holdings = Map.empty\<rparr>"

definition getHolding :: "trader \<Rightarrow> string \<Rightarrow> int" where
  "getHolding t stockName = (case holdings t stockName of Some n \<Rightarrow> n | None \<Rightarrow> 0)"

definition addHolding :: "trader \<Rightarrow> string \<Rightarrow> int \<Rightarrow> trader result" where
  "addHolding t stockName qty =
     (let old = (case holdings t stockName of Some n \<Rightarrow> n | None \<Rightarrow> 0) in
      bindE (int_add old qty) (\<lambda>new.
        Inr (t\<lparr>holdings := (holdings t)(stockName \<mapsto> new)\<rparr>)))"

definition removeHolding :: "trader \<Rightarrow> string \<Rightarrow> int \<Rightarrow> (bool \<times> trader) result" where
  "removeHolding t stockName qty =
     (case holdings t stockName of
        None \<Rightarrow> Inr (False, t)
      | Some n \<Rightarrow>
          if n < qty then Inr (False, t)
          else bindE (int_sub n qty) (\<lambda>new.
            Inr (True, t\<lparr>holdings := (holdings t)(stockName \<mapsto> new)\<rparr>)))"

section \<open>Stock\<close>

record stock =
  stock_name :: string
  stock_price :: double

definition new_Stock :: "string \<Rightarrow> double \<Rightarrow> stock" where
  "new_Stock name p = \<lparr>stock_name = name, stock_price = p\<rparr>"

definition setPrice :: "stock \<Rightarrow> double \<Rightarrow> stock" where
  "setPrice s p = s\<lparr>stock_price := p\<rparr>"

section \<open>Well-formed holdings\<close>

definition trader_ok :: "trader \<Rightarrow> bool" where
  "trader_ok t \<longleftrightarrow> (\<forall>s n. holdings t s = Some n \<longrightarrow> 0 \<le> n \<and> int32 n)"

definition same_elsewhere :: "string \<Rightarrow> trader \<Rightarrow> trader \<Rightarrow> bool" where
  "same_elsewhere s t t' \<longleftrightarrow>
     (\<forall>s'. s' = s \<or> getHolding t' s' = getHolding t s') \<and>
     trader_id_field t' = trader_id_field t \<and> getName t' = getName t"

lemma trader_ok_new: "trader_ok (new_Trader i name)"
  by (simp add: trader_ok_def new_Trader_def)

lemma getHolding_range: "trader_ok t \<Longrightarrow> 0 \<le> getHolding t s \<and> int32 (getHolding t s)"
  by (auto simp: trader_ok_def getHolding_def int32_def split: option.splits)

section \<open>Properties\<close>

text \<open>Shares are never oversold. With holdings that are not negative and a quantity in the range of
  \<open>int\<close> that is not negative, \<open>removeHolding\<close> never overflows, it succeeds exactly when the quantity is
  held (a stock never held cannot even have 0 shares removed), it then lowers the holding by the
  quantity, otherwise it changes nothing, and no holding is ever negative.\<close>

lemma removeHolding_never_oversells:
  assumes "trader_ok t" and "0 \<le> q" and "int32 q"
  shows "\<exists>ok t'. removeHolding t s q = Inr (ok, t') \<and> trader_ok t' \<and> same_elsewhere s t t' \<and>
    (ok \<longleftrightarrow> holdings t s \<noteq> None \<and> q \<le> getHolding t s) \<and>
    getHolding t' s = (if ok then getHolding t s - q else getHolding t s)"
proof (cases "holdings t s")
  case None
  with assms(1) show ?thesis by (auto simp: removeHolding_def same_elsewhere_def)
next
  case (Some n)
  with assms(1) have n: "0 \<le> n" "int32 n" by (auto simp: trader_ok_def)
  show ?thesis
  proof (cases "n < q")
    case True
    with Some assms(1) show ?thesis by (auto simp: removeHolding_def same_elsewhere_def getHolding_def)
  next
    case False
    with n assms have s: "int_sub n q = Inr (n - q)" by (simp add: int_sub_nonneg)
    let ?t = "t\<lparr>holdings := (holdings t)(s \<mapsto> n - q)\<rparr>"
    have "int32 (n - q)" using n False assms(2) by (auto simp: int32_def)
    then have "trader_ok ?t" using assms(1) False by (auto simp: trader_ok_def)
    with Some False s show ?thesis
      by (auto simp: removeHolding_def same_elsewhere_def getHolding_def)
  qed
qed

text \<open>What is added can be read and removed again. Adding a quantity that keeps the holding in the
  range of \<open>int\<close> is defined and raises exactly that holding by it, and removing the same quantity
  succeeds and restores the holding; a sum outside the range is undefined behaviour.\<close>

lemma addHolding_roundtrip:
  assumes "trader_ok t" and "0 \<le> q"
  shows "(if int32 (getHolding t s + q)
     then (\<exists>t' t''. addHolding t s q = Inr t' \<and> trader_ok t' \<and> same_elsewhere s t t' \<and>
             getHolding t' s = getHolding t s + q \<and>
             removeHolding t' s q = Inr (True, t'') \<and> getHolding t'' s = getHolding t s)
     else addHolding t s q = Inl undefined_behaviour)"
proof -
  note h = getHolding_range [OF assms(1), of s]
  have old: "(case holdings t s of None \<Rightarrow> 0 | Some n \<Rightarrow> n) = getHolding t s" by (simp add: getHolding_def)
  let ?n = "getHolding t s + q"
  let ?t = "t\<lparr>holdings := (holdings t)(s \<mapsto> ?n)\<rparr>"
  show ?thesis
  proof (cases "int32 ?n")
    case True
    have "addHolding t s q = Inr ?t" using True by (simp add: addHolding_def old int_add_def)
    moreover have "trader_ok ?t" using assms True h by (auto simp: trader_ok_def)
    moreover have "same_elsewhere s t ?t" "getHolding ?t s = ?n" by (auto simp: same_elsewhere_def getHolding_def)
    moreover have "removeHolding ?t s q = Inr (True, ?t\<lparr>holdings := (holdings ?t)(s \<mapsto> getHolding t s)\<rparr>)"
      using h by (simp add: removeHolding_def int_sub_def)
    ultimately show ?thesis using True by (auto simp: getHolding_def)
  next
    case False
    then show ?thesis by (simp add: addHolding_def old int_add_def)
  qed
qed

end
