(* ===== verification/VwapError.thy ===== *)
theory VwapError
  imports Vwap
begin

text \<open>
  The \<open>main\<close> of \<open>demos/simd_demo.cpp\<close>: both averages over the same random trades, and whether they agree to
  within 1e-6. The two routines add in different orders and round differently; this theory bounds the
  difference for the ranges and the size the program uses.

  The rounding is any function that satisfies what IEEE 754 promises for round-to-nearest doubles in the
  range of the computation: a relative error of at most 2^-53 from 1 on, an absolute one below 1, and
  nothing changed at 0. A computed sum of positive terms is compared with the exact sum: \<open>close_to k s a\<close>
  says that \<open>a\<close> is \<open>s\<close> up to \<open>k\<close> such errors, in either direction.
\<close>

section \<open>The program\<close>

text \<open>The vectors of prices and quantities: the \<open>i\<close>th round of the loop stores what the two distributions return.\<close>

definition random_trades :: "(nat \<Rightarrow> rat \<times> rat) \<Rightarrow> nat \<Rightarrow> rat list \<times> rat list" where
  "random_trades draws N = (map (fst \<circ> draws) [0..<N], map (snd \<circ> draws) [0..<N])"

datatype simd_line = OverTrades nat | Timed string double rat | Speedup double | ResultsMatch bool

definition doubles_agree :: "rounding \<Rightarrow> double \<Rightarrow> double \<Rightarrow> bool" where
  "doubles_agree r a b =
     (case a of
        Finite x \<Rightarrow> (case b of Finite y \<Rightarrow> \<bar>r (x - y)\<bar> < r (1 / 1000000) | _ \<Rightarrow> False)
      | _ \<Rightarrow> False)"

text \<open>The printed lines and the exit code. The two durations, in milliseconds, are measured; \<open>N\<close> is 20000000 in the program.\<close>

definition simd_main ::
  "rounding \<Rightarrow> (nat \<Rightarrow> rat \<times> rat) \<Rightarrow> rat \<Rightarrow> rat \<Rightarrow> nat \<Rightarrow> (simd_line list \<times> int) result" where
  "simd_main r draws scalarMs simdMs N =
     (case random_trades draws N of (prices, qtys) \<Rightarrow>
        bindE (vwapScalar r prices qtys) (\<lambda>vwap1.
        bindE (vwapSIMD r prices qtys) (\<lambda>vwap2. Inr
          ([OverTrades N, Timed ''  scalar: '' vwap1 scalarMs, Timed ''  SIMD:   '' vwap2 simdMs,
            Speedup (fdiv r scalarMs simdMs), ResultsMatch (doubles_agree r vwap1 vwap2)], 0))))"

section \<open>Rounding errors\<close>

definition rounding_laws :: "rounding \<Rightarrow> bool" where
  "rounding_laws r \<longleftrightarrow>
     (\<forall>x. 1 \<le> x \<longrightarrow> x \<le> 2 ^ 100 \<longrightarrow> \<bar>r x - x\<bar> \<le> x / 2 ^ 53) \<and>
     (\<forall>x. \<bar>x\<bar> \<le> 1 \<longrightarrow> \<bar>r x - x\<bar> \<le> 1 / 2 ^ 53) \<and> r 0 = 0"

definition shrink :: rat where
  "shrink = 1 - 1 / 2 ^ 53"

definition close_to :: "nat \<Rightarrow> rat \<Rightarrow> rat \<Rightarrow> bool" where
  "close_to k s a \<longleftrightarrow> shrink ^ k * s \<le> a \<and> shrink ^ k * a \<le> s"

lemma shrink_bounds: "0 < shrink" "shrink \<le> 1"
  by (simp_all add: shrink_def)

lemma shrink_pow: "0 < shrink ^ k" "shrink ^ k \<le> 1"
  using shrink_bounds by (simp_all add: power_le_one)

lemma shrink_pow_lower: "1 - of_nat k / 2 ^ 53 \<le> shrink ^ k"
proof (induction k)
  case (Suc k)
  have "1 - of_nat (Suc k) / 2 ^ 53 \<le> shrink * (1 - of_nat k / 2 ^ 53)" by (simp add: shrink_def field_simps)
  also have "\<dots> \<le> shrink * shrink ^ k" using Suc shrink_bounds(1) by (simp add: mult_left_mono)
  finally show ?case by simp
qed simp

lemma close_refl: "0 \<le> s \<Longrightarrow> close_to k s s"
  using shrink_pow [of k] by (simp add: close_to_def mult_left_le_one_le)

lemma close_mono:
  assumes "close_to k s a" and "k \<le> m" and "0 \<le> s" and "0 \<le> a"
  shows "close_to m s a"
proof -
  have "shrink ^ m \<le> shrink ^ k" using assms(2) shrink_bounds by (simp add: power_decreasing)
  then have "shrink ^ m * s \<le> shrink ^ k * s" "shrink ^ m * a \<le> shrink ^ k * a"
    using assms(3,4) by (simp_all add: mult_right_mono)
  with assms(1) show ?thesis unfolding close_to_def by linarith
qed

lemma close_add: "close_to k s a \<Longrightarrow> close_to k t b \<Longrightarrow> close_to k (s + t) (a + b)"
  by (simp add: close_to_def distrib_left)

lemma close_nonneg: "close_to k s a \<Longrightarrow> 0 \<le> s \<Longrightarrow> 0 \<le> a"
proof -
  assume c: "close_to k s a" and "0 \<le> s"
  then have "0 \<le> shrink ^ k * s" using shrink_pow(1) [of k] by (intro mult_nonneg_nonneg) simp_all
  with c show ?thesis unfolding close_to_def by linarith
qed

text \<open>Half a unit of \<open>k\<close> errors doubles nothing: what is close to a moderate number is moderate.\<close>

lemma close_upper:
  assumes "close_to k s a" and "of_nat k \<le> (2 ^ 52 :: rat)" and "s \<le> 2 ^ 90"
  shows "a \<le> 2 ^ 91"
proof (cases "0 \<le> a")
  case True
  have "1 / 2 \<le> 1 - of_nat k / (2 ^ 53 :: rat)" using assms(2) by (simp add: field_simps)
  with shrink_pow_lower [of k] have "1 / 2 \<le> shrink ^ k" by linarith
  with True have "1 / 2 * a \<le> shrink ^ k * a" by (intro mult_right_mono)
  with assms(1,3) have "1 / 2 * a \<le> 2 ^ 90" unfolding close_to_def by linarith
  then show ?thesis by (simp add: field_simps)
next
  case False
  then have "a \<le> 0" by simp
  also have "(0 :: rat) \<le> 2 ^ 91" by simp
  finally show ?thesis .
qed

lemma round_close:
  assumes "rounding_laws r" and "close_to k s x" and "x = 0 \<or> 1 \<le> x" and "x \<le> 2 ^ 100"
  shows "close_to (Suc k) s (r x)"
proof (cases "x = 0")
  case True
  then have "r x = 0" "s \<le> 0" "0 \<le> s"
    using assms(1,2) shrink_pow(1) [of k] by (auto simp: rounding_laws_def close_to_def mult_le_0_iff)
  then show ?thesis by (simp add: close_to_def)
next
  case False
  with assms(3) have x: "1 \<le> x" by simp
  with assms(1,4) have "\<bar>r x - x\<bar> \<le> x / 2 ^ 53" by (simp add: rounding_laws_def)
  then have "r x - x \<le> x / 2 ^ 53" "- (x / 2 ^ 53) \<le> r x - x" by (simp_all only: abs_le_iff) linarith
  moreover have "shrink * x = x - x / 2 ^ 53" by (simp add: shrink_def left_diff_distrib)
  ultimately have b: "shrink * x \<le> r x" "r x \<le> x + x / 2 ^ 53" by linarith+
  have "shrink * (x + x / 2 ^ 53) \<le> x" using x by (simp add: shrink_def field_simps)
  moreover have "shrink * r x \<le> shrink * (x + x / 2 ^ 53)" using b(2) shrink_bounds(1) by (simp add: mult_left_mono)
  ultimately have c: "shrink * r x \<le> x" by linarith
  have "shrink * (shrink ^ k * s) \<le> shrink * x" using assms(2) shrink_bounds(1) by (simp add: close_to_def mult_left_mono)
  with b(1) have "shrink ^ Suc k * s \<le> r x" by (simp add: mult.assoc)
  moreover have "shrink ^ k * (shrink * r x) \<le> shrink ^ k * x" using c shrink_pow(1) by (simp add: mult_left_mono)
  with assms(2) have "shrink ^ Suc k * r x \<le> s" by (simp add: close_to_def mult.left_commute mult.assoc)
  ultimately show ?thesis by (simp add: close_to_def)
qed

section \<open>Sums\<close>

text \<open>One more exact term added to a computed sum.\<close>

lemma add_exact:
  assumes "rounding_laws r" and "close_to k s a" and "0 \<le> s" and "1 \<le> t" and "s + t \<le> 2 ^ 90" and "of_nat k \<le> (2 ^ 52 :: rat)"
  shows "close_to (Suc k) (s + t) (r (a + t))" and "1 / 2 \<le> r (a + t)"
proof -
  have a: "0 \<le> a" using assms(2,3) by (rule close_nonneg)
  have c: "close_to k (s + t) (a + t)" using assms(2,4) by (intro close_add close_refl) simp_all
  have u: "a + t \<le> 2 ^ 91" by (rule close_upper [OF c assms(6,5)])
  then have u': "a + t \<le> 2 ^ 100" by (rule order_trans) simp
  show "close_to (Suc k) (s + t) (r (a + t))" by (rule round_close [OF assms(1) c _ u']) (use a assms(4) in simp)
  have "close_to 0 (a + t) (a + t)" using a assms(4) by (intro close_refl) simp
  then have "close_to 1 (a + t) (r (a + t))"
    using round_close [OF assms(1), of 0 "a + t" "a + t"] a assms(4) u' by simp
  then have "shrink * (a + t) \<le> r (a + t)" by (simp add: close_to_def)
  moreover have "shrink * 1 \<le> shrink * (a + t)" using a assms(4) shrink_bounds(1) by (intro mult_left_mono) simp_all
  moreover have "1 / 2 \<le> shrink" by (simp add: shrink_def)
  ultimately show "1 / 2 \<le> r (a + t)" by linarith
qed

text \<open>A rounded product added to a computed sum.\<close>

lemma add_product:
  assumes "rounding_laws r" and "close_to k s a" and "0 \<le> s" and "2 \<le> t" and "s + t \<le> 2 ^ 90" and "of_nat k \<le> (2 ^ 52 :: rat)"
    and "1 \<le> k"
  shows "close_to (Suc k) (s + t) (r (a + r t))"
proof -
  have a: "0 \<le> a" using assms(2,3) by (rule close_nonneg)
  have "t \<le> 2 ^ 100" by (rule order_trans [of _ "2 ^ 90"]) (use assms(3,5) in \<open>simp_all add: order_trans [of t "s + t"]\<close>)
  then have p: "close_to 1 t (r t)" using round_close [OF assms(1) close_refl, of t 0] assms(4) by simp
  then have "shrink * t \<le> r t" by (simp add: close_to_def)
  moreover have "shrink * 2 \<le> shrink * t" using assms(4) shrink_bounds(1) by (intro mult_left_mono) simp_all
  moreover have "1 \<le> shrink * 2" by (simp add: shrink_def)
  ultimately have rt: "1 \<le> r t" by linarith
  have c: "close_to k (s + t) (a + r t)"
    by (intro close_add [OF assms(2)] close_mono [OF p assms(7)]) (use assms(4) rt in simp_all)
  have "a + r t \<le> 2 ^ 91" by (rule close_upper [OF c assms(6,5)])
  then have "a + r t \<le> 2 ^ 100" by (rule order_trans) simp
  then show ?thesis by (rule round_close [OF assms(1) c, rotated]) (use a rt in simp)
qed

definition in_range :: "rat list \<Rightarrow> rat list \<Rightarrow> nat \<Rightarrow> bool" where
  "in_range P Q n \<longleftrightarrow> n \<le> length P \<and> n \<le> length Q \<and>
     (\<forall>j < n. 95 \<le> P ! j \<and> P ! j \<le> 105 \<and> 1 \<le> Q ! j \<and> Q ! j \<le> 100)"

lemma in_range_product: "in_range P Q n \<Longrightarrow> j < n \<Longrightarrow> 95 \<le> P ! j * Q ! j \<and> 95 * Q ! j \<le> P ! j * Q ! j \<and> P ! j * Q ! j \<le> 105 * Q ! j"
proof -
  assume "in_range P Q n" "j < n"
  then have r: "95 \<le> P ! j" "P ! j \<le> 105" "1 \<le> Q ! j" by (simp_all add: in_range_def)
  then have "95 * 1 \<le> P ! j * Q ! j" by (intro mult_mono) simp_all
  moreover have "95 * Q ! j \<le> P ! j * Q ! j" "P ! j * Q ! j \<le> 105 * Q ! j" using r by (simp_all add: mult_right_mono)
  ultimately show ?thesis by simp
qed

lemma scalarLoop_close:
  assumes "rounding_laws r" and "in_range P Q n" and "i \<le> n" and "close_to k S a" and "close_to k T b"
    and "0 \<le> S" and "0 \<le> T" and "1 \<le> k" and "of_nat (k + (n - i)) \<le> (2 ^ 52 :: rat)"
    and "S + (\<Sum>j = i..<n. P ! j * Q ! j) \<le> 2 ^ 90" and "T + (\<Sum>j = i..<n. Q ! j) \<le> 2 ^ 90"
  shows "\<exists>a' b'. scalarLoop r P Q i n a b = Inr (a', b') \<and>
    close_to (k + (n - i)) (S + (\<Sum>j = i..<n. P ! j * Q ! j)) a' \<and> close_to (k + (n - i)) (T + (\<Sum>j = i..<n. Q ! j)) b'"
  using assms(3-)
proof (induction "n - i" arbitrary: i k S T a b)
  case 0
  then show ?case by (simp add: scalarLoop.simps)
next
  case (Suc m)
  then have i: "i < n" by simp
  have split: "(\<Sum>j = i..<n. f j) = f i + (\<Sum>j = Suc i..<n. f j)" for f :: "nat \<Rightarrow> rat"
    using i by (rule sum.atLeast_Suc_lessThan)
  note p = in_range_product [OF assms(2) i]
  from assms(2) i have q: "1 \<le> Q ! i" "i < length P" "i < length Q" by (auto simp: in_range_def)
  have "0 \<le> (\<Sum>j = Suc i..<n. P ! j * Q ! j)" "0 \<le> (\<Sum>j = Suc i..<n. Q ! j)"
    using in_range_product [OF assms(2)] assms(2) by (auto intro!: sum_nonneg simp: in_range_def)
  with Suc.prems(8,9) have s: "S + P ! i * Q ! i \<le> 2 ^ 90" "T + Q ! i \<le> 2 ^ 90" unfolding split by linarith+
  have k: "of_nat k \<le> (2 ^ 52 :: rat)" using Suc.prems(7) by (simp add: of_nat_diff)
  let ?a = "r (a + r (P ! i * Q ! i))" and ?b = "r (b + Q ! i)"
  have a: "close_to (Suc k) (S + P ! i * Q ! i) ?a" using p by (intro add_product [OF assms(1) Suc.prems(2,4) _ s(1) k Suc.prems(6)]) simp
  have b: "close_to (Suc k) (T + Q ! i) ?b" by (rule add_exact(1) [OF assms(1) Suc.prems(3,5) q(1) s(2) k])
  have step: "scalarLoop r P Q i n a b = scalarLoop r P Q (Suc i) n ?a ?b"
    using i q by (subst scalarLoop.simps) (simp add: vec_at_def fadd_def fmul_def)
  have n: "Suc k + (n - Suc i) = k + (n - i)" using i by simp
  have "\<exists>a' b'. scalarLoop r P Q (Suc i) n ?a ?b = Inr (a', b') \<and>
      close_to (Suc k + (n - Suc i)) ((S + P ! i * Q ! i) + (\<Sum>j = Suc i..<n. P ! j * Q ! j)) a' \<and>
      close_to (Suc k + (n - Suc i)) ((T + Q ! i) + (\<Sum>j = Suc i..<n. Q ! j)) b'"
    using Suc.prems(7-9) p q(1) Suc.prems(4,5) unfolding split
    by (intro Suc.hyps(1) [OF _ _ a b]) (use Suc.hyps(2) i n in \<open>simp_all add: add.assoc\<close>)
  then show ?case unfolding step n split by (simp add: add.assoc)
qed

section \<open>Lanes\<close>

text \<open>The lanes of a register are close to four numbers that add up to \<open>s\<close>, and are all zero or none of them
  small.\<close>

fun lanes_close :: "nat \<Rightarrow> rat \<Rightarrow> m256d \<Rightarrow> bool" where
  "lanes_close k s (M256d a b c d) \<longleftrightarrow>
     (\<exists>sa sb sc sd. 0 \<le> sa \<and> 0 \<le> sb \<and> 0 \<le> sc \<and> 0 \<le> sd \<and> sa + sb + sc + sd = s \<and>
        close_to k sa a \<and> close_to k sb b \<and> close_to k sc c \<and> close_to k sd d) \<and>
     (a = 0 \<and> b = 0 \<and> c = 0 \<and> d = 0 \<or> 1 / 2 \<le> a \<and> 1 / 2 \<le> b \<and> 1 / 2 \<le> c \<and> 1 / 2 \<le> d)"

lemma lanes_zero: "lanes_close 0 0 mm256_setzero_pd"
  unfolding mm256_setzero_pd_def lanes_close.simps
  by (intro conjI exI [of _ 0]) (simp_all add: close_to_def)

lemma lanes_step:
  assumes "rounding_laws r" and "lanes_close k s (M256d a b c d)" and "1 \<le> ta" "1 \<le> tb" "1 \<le> tc" "1 \<le> td"
    and "s + (ta + tb + tc + td) \<le> 2 ^ 90" and "of_nat k \<le> (2 ^ 52 :: rat)"
  shows "lanes_close (Suc k) (s + (ta + tb + tc + td)) (M256d (r (a + ta)) (r (b + tb)) (r (c + tc)) (r (d + td)))"
proof -
  from assms(2) obtain sa sb sc sd where l: "0 \<le> sa" "0 \<le> sb" "0 \<le> sc" "0 \<le> sd" "sa + sb + sc + sd = s"
    "close_to k sa a" "close_to k sb b" "close_to k sc c" "close_to k sd d" by auto
  have "sa + ta \<le> 2 ^ 90" "sb + tb \<le> 2 ^ 90" "sc + tc \<le> 2 ^ 90" "sd + td \<le> 2 ^ 90"
    using l(1-5) assms(3-7) by linarith+
  note step = add_exact [OF assms(1) l(6) l(1) assms(3) this(1) assms(8)] add_exact [OF assms(1) l(7) l(2) assms(4) this(2) assms(8)]
    add_exact [OF assms(1) l(8) l(3) assms(5) this(3) assms(8)] add_exact [OF assms(1) l(9) l(4) assms(6) this(4) assms(8)]
  have "(sa + ta) + (sb + tb) + (sc + tc) + (sd + td) = s + (ta + tb + tc + td)"
    "0 \<le> sa + ta" "0 \<le> sb + tb" "0 \<le> sc + tc" "0 \<le> sd + td"
    using l(1-5) assms(3-6) by linarith+
  with step show ?thesis unfolding lanes_close.simps by blast
qed

lemma round_sum:
  assumes "rounding_laws r" and "close_to k s a" and "close_to k t b" and "0 \<le> s" and "0 \<le> t" and "s + t \<le> 2 ^ 90"
    and "of_nat k \<le> (2 ^ 52 :: rat)" and "a = 0 \<and> b = 0 \<or> 1 / 2 \<le> a \<and> 1 / 2 \<le> b"
  shows "close_to (Suc k) (s + t) (r (a + b))" and "a = 0 \<and> b = 0 \<and> r (a + b) = 0 \<or> 1 / 2 \<le> a \<and> 1 / 2 \<le> b \<and> 1 / 2 \<le> r (a + b)"
proof -
  have c: "close_to k (s + t) (a + b)" by (rule close_add [OF assms(2,3)])
  have "a + b \<le> 2 ^ 91" by (rule close_upper [OF c assms(7,6)])
  then have u: "a + b \<le> 2 ^ 100" by (rule order_trans) simp
  have z: "a + b = 0 \<or> 1 \<le> a + b" using assms(8) by linarith
  show "close_to (Suc k) (s + t) (r (a + b))" by (rule round_close [OF assms(1) c z u])
  show "a = 0 \<and> b = 0 \<and> r (a + b) = 0 \<or> 1 / 2 \<le> a \<and> 1 / 2 \<le> b \<and> 1 / 2 \<le> r (a + b)"
  proof (cases "a = 0 \<and> b = 0")
    case True
    with assms(1) show ?thesis by (simp add: rounding_laws_def)
  next
    case False
    with assms(8) have ab: "1 \<le> a + b" by linarith
    then have "close_to 1 (a + b) (r (a + b))" using round_close [OF assms(1) close_refl, of "a + b" 0] u by simp
    then have "shrink * (a + b) \<le> r (a + b)" by (simp add: close_to_def)
    moreover have "shrink * 1 \<le> shrink * (a + b)" using ab shrink_bounds(1) by (intro mult_left_mono) simp_all
    moreover have "1 / 2 \<le> shrink" by (simp add: shrink_def)
    ultimately have "1 / 2 \<le> r (a + b)" by linarith
    with False assms(8) show ?thesis by blast
  qed
qed

lemma horizontal_close:
  assumes "rounding_laws r" and "lanes_close k s v" and "s \<le> 2 ^ 90" and "of_nat (k + 3) \<le> (2 ^ 52 :: rat)"
  shows "close_to (k + 3) s (horizontal r v)"
proof (cases v)
  case (M256d a b c d)
  from assms(2) obtain sa sb sc sd where l: "0 \<le> sa" "0 \<le> sb" "0 \<le> sc" "0 \<le> sd" "sa + sb + sc + sd = s"
    "close_to k sa a" "close_to k sb b" "close_to k sc c" "close_to k sd d"
    and z: "a = 0 \<and> b = 0 \<and> c = 0 \<and> d = 0 \<or> 1 / 2 \<le> a \<and> 1 / 2 \<le> b \<and> 1 / 2 \<le> c \<and> 1 / 2 \<le> d"
    unfolding M256d by auto
  have k: "of_nat k \<le> (2 ^ 52 :: rat)" "of_nat (Suc k) \<le> (2 ^ 52 :: rat)" "of_nat (Suc (Suc k)) \<le> (2 ^ 52 :: rat)"
    using assms(4) by simp_all
  have s: "sa + sb \<le> 2 ^ 90" "sa + sb + sc \<le> 2 ^ 90" "sa + sb + sc + sd \<le> 2 ^ 90" using l(1-5) assms(3) by linarith+
  have c: "close_to (Suc k) sc c" and d: "close_to (Suc (Suc k)) sd d"
    using l close_nonneg by (auto intro: close_mono)
  have "a = 0 \<and> b = 0 \<or> 1 / 2 \<le> a \<and> 1 / 2 \<le> b" using z by blast
  note one = round_sum [OF assms(1) l(6,7,1,2) s(1) k(1) this]
  have "r (a + b) = 0 \<and> c = 0 \<or> 1 / 2 \<le> r (a + b) \<and> 1 / 2 \<le> c" using one(2) z by linarith
  note two = round_sum [OF assms(1) one(1) c _ l(3) s(2) k(2) this]
  have "r (r (a + b) + c) = 0 \<and> d = 0 \<or> 1 / 2 \<le> r (r (a + b) + c) \<and> 1 / 2 \<le> d"
    using two(2) one(2) z l(1,2) by linarith
  from round_sum(1) [OF assms(1) two(1) d _ l(4) s(3) k(3) this] show ?thesis
    using l(1-5) by (simp add: M256d fadd_def numeral_3_eq_3)
qed

lemma sum_four_rat:
  "i + 4 \<le> (n :: nat) \<Longrightarrow> (\<Sum>j = i..<n. f j) = (f i + f (i + 1) + f (i + 2) + f (i + 3)) + (\<Sum>j = i + 4..<n. (f j :: rat))"
  by (simp add: sum.atLeast_Suc_lessThan numeral_eq_Suc)

lemma lanes_fmadd:
  assumes "rounding_laws r" and "lanes_close k s v" and "1 \<le> a * a'" "1 \<le> b * b'" "1 \<le> c * c'" "1 \<le> d * d'"
    and "s + (a * a' + b * b' + c * c' + d * d') \<le> 2 ^ 90" and "of_nat k \<le> (2 ^ 52 :: rat)"
  shows "lanes_close (Suc k) (s + (a * a' + b * b' + c * c' + d * d')) (mm256_fmadd_pd r (M256d a b c d) (M256d a' b' c' d') v)"
  using lanes_step [OF assms(1) _ assms(3-8)] assms(2) by (cases v) (simp add: fmadd_def add.commute del: lanes_close.simps)

lemma lanes_add:
  assumes "rounding_laws r" and "lanes_close k s v" and "1 \<le> a" "1 \<le> b" "1 \<le> c" "1 \<le> d"
    and "s + (a + b + c + d) \<le> 2 ^ 90" and "of_nat k \<le> (2 ^ 52 :: rat)"
  shows "lanes_close (Suc k) (s + (a + b + c + d)) (mm256_add_pd r v (M256d a b c d))"
  using lanes_step [OF assms(1) _ assms(3-8)] assms(2) by (cases v) (simp add: fadd_def del: lanes_close.simps)

lemma simdLoop_close:
  assumes "rounding_laws r" and "in_range P Q n" and "i + 4 * m = e" and "e \<le> n" and "lanes_close k S A" and "lanes_close k T B"
    and "of_nat (k + m) \<le> (2 ^ 52 :: rat)"
    and "S + (\<Sum>j = i..<e. P ! j * Q ! j) \<le> 2 ^ 90" and "T + (\<Sum>j = i..<e. Q ! j) \<le> 2 ^ 90"
  shows "\<exists>A' B'. simdLoop r P Q i e A B = Inr (A', B') \<and>
    lanes_close (k + m) (S + (\<Sum>j = i..<e. P ! j * Q ! j)) A' \<and> lanes_close (k + m) (T + (\<Sum>j = i..<e. Q ! j)) B'"
  using assms(3-)
proof (induction m arbitrary: i k S T A B)
  case 0
  then show ?case by (simp add: simdLoop.simps)
next
  case (Suc m)
  from Suc.prems(1,2) have i: "i < e" "i + 4 \<le> e" "i < n" "i + 1 < n" "i + 2 < n" "i + 3 < n" by simp_all
  note four = sum_four_rat [OF i(2)]
  have q: "1 \<le> Q ! j" "1 \<le> P ! j * Q ! j" "j < length P" "j < length Q" if "j < n" for j
    using in_range_product [OF assms(2) that] assms(2) that by (auto simp: in_range_def)
  have "0 \<le> (\<Sum>j = i + 4..<e. P ! j * Q ! j)" "0 \<le> (\<Sum>j = i + 4..<e. Q ! j)"
    using q(1,2) Suc.prems(2) by (auto intro!: sum_nonneg) (meson le_trans less_le_trans order_trans zero_le_one)+
  with Suc.prems(6,7) have s: "S + (P ! i * Q ! i + P ! (i + 1) * Q ! (i + 1) + P ! (i + 2) * Q ! (i + 2) + P ! (i + 3) * Q ! (i + 3)) \<le> 2 ^ 90"
    "T + (Q ! i + Q ! (i + 1) + Q ! (i + 2) + Q ! (i + 3)) \<le> 2 ^ 90" unfolding four by linarith+
  have k: "of_nat k \<le> (2 ^ 52 :: rat)" using Suc.prems(5) by simp
  note A = lanes_fmadd [OF assms(1) Suc.prems(3) q(2) [OF i(3)] q(2) [OF i(4)] q(2) [OF i(5)] q(2) [OF i(6)] s(1) k]
  note B = lanes_add [OF assms(1) Suc.prems(4) q(1) [OF i(3)] q(1) [OF i(4)] q(1) [OF i(5)] q(1) [OF i(6)] s(2) k]
  have step: "simdLoop r P Q i e A B = simdLoop r P Q (i + 4) e
      (mm256_fmadd_pd r (M256d (P ! i) (P ! (i + 1)) (P ! (i + 2)) (P ! (i + 3)))
         (M256d (Q ! i) (Q ! (i + 1)) (Q ! (i + 2)) (Q ! (i + 3))) A)
      (mm256_add_pd r B (M256d (Q ! i) (Q ! (i + 1)) (Q ! (i + 2)) (Q ! (i + 3))))"
    using i(1) q(3,4) [OF i(3)] q(3,4) [OF i(4)] q(3,4) [OF i(5)] q(3,4) [OF i(6)]
    by (subst simdLoop.simps) (simp add: mm256_loadu_pd_def vec_at_def)
  have pre: "i + 4 + 4 * m = e" "of_nat (Suc k + m) \<le> (2 ^ 52 :: rat)" using Suc.prems(1,5) by simp_all
  have m: "Suc k + m = k + Suc m" by simp
  from Suc.IH [OF pre(1) Suc.prems(2) A B pre(2)] Suc.prems(6,7) show ?case
    unfolding step four m add.assoc by blast
qed

section \<open>Quotients\<close>

lemma close_mult_mono: "shrink ^ k * s \<le> a \<Longrightarrow> shrink ^ k * b \<le> t \<Longrightarrow> 0 \<le> s \<Longrightarrow> 0 \<le> b \<Longrightarrow> shrink ^ (k + k) * (s * b) \<le> a * t"
proof -
  assume p: "shrink ^ k * s \<le> a" "shrink ^ k * b \<le> t" "0 \<le> s" "0 \<le> b"
  have "0 \<le> shrink ^ k * s" "0 \<le> shrink ^ k * b" using p(3,4) shrink_pow(1) [of k] by simp_all
  with p(1,2) have "(shrink ^ k * s) * (shrink ^ k * b) \<le> a * t" by (intro mult_mono) linarith+
  then show ?thesis by (simp add: power_add mult.assoc mult.left_commute)
qed

lemma close_divide:
  assumes "close_to k s a" and "close_to k t b" and "0 \<le> s" and "0 < t"
  shows "close_to (k + k) (s / t) (a / b)" and "0 < b"
proof -
  have "0 < shrink ^ k * t" using assms(4) shrink_pow(1) [of k] by simp
  with assms(2) show b: "0 < b" unfolding close_to_def by linarith
  have a: "0 \<le> a" using assms(1,3) by (rule close_nonneg)
  have "shrink ^ (k + k) * (s * b) \<le> a * t" "shrink ^ (k + k) * (a * t) \<le> s * b"
    by (rule close_mult_mono; use assms a b in \<open>simp add: close_to_def\<close>)+
  then show "close_to (k + k) (s / t) (a / b)" using b assms(4) by (simp add: close_to_def field_simps)
qed

text \<open>Two roundings of the same quotient differ by little.\<close>

lemma close_between:
  assumes "close_to k v a" and "0 \<le> v" and "v \<le> 105" and "of_nat k / 2 ^ 53 \<le> (1 / 1000 :: rat)"
  shows "v - 105 * (of_nat k / 2 ^ 53) \<le> a" and "a \<le> v + 106 * (of_nat k / 2 ^ 53)"
proof -
  let ?d = "of_nat k / (2 ^ 53 :: rat)"
  have d: "0 \<le> ?d" "1 - ?d \<le> shrink ^ k" by (simp, rule shrink_pow_lower)
  have a: "0 \<le> a" using assms(1,2) by (rule close_nonneg)
  have "(1 - ?d) * v \<le> shrink ^ k * v" "(1 - ?d) * a \<le> shrink ^ k * a"
    using mult_right_mono [OF d(2)] assms(2) a by blast+
  then have b: "v - ?d * v \<le> a" "a - ?d * a \<le> v"
    using assms(1) unfolding close_to_def by (simp_all only: left_diff_distrib mult_1_left) linarith+
  have "?d * v \<le> ?d * 105" using assms(3) d(1) by (rule mult_left_mono)
  with b(1) show "v - 105 * ?d \<le> a" by linarith
  have "?d * a \<le> 1 / 1000 * a" using assms(4) a by (rule mult_right_mono)
  with b(2) assms(3) have "a \<le> 106" by linarith
  then have "?d * a \<le> ?d * 106" using d(1) by (rule mult_left_mono)
  with b(2) have "a \<le> v + ?d * 106" by linarith
  then show "a \<le> v + 106 * ?d" by (simp only: mult.commute)
qed

lemma fdiv_close:
  assumes "rounding_laws r" and "close_to k S a" and "close_to k T b" and "0 < T" and "95 * T \<le> S" and "S \<le> 105 * T"
    and "of_nat k \<le> (2 ^ 50 :: rat)"
  shows "\<exists>v. fdiv r a b = Finite v \<and> close_to (Suc (k + k)) (S / T) v"
proof -
  have "0 \<le> S" using assms(4,5) by linarith
  note q = close_divide [OF assms(2,3) this assms(4)]
  have V: "95 \<le> S / T" "S / T \<le> 105" using assms(4-6) by (simp_all add: field_simps)
  have k: "of_nat (k + k) \<le> (2 ^ 52 :: rat)" using assms(7) by simp
  have "1 / 2 \<le> 1 - of_nat (k + k) / (2 ^ 53 :: rat)" using assms(7) by (simp add: field_simps)
  with shrink_pow_lower [of "k + k"] have "1 / 2 \<le> shrink ^ (k + k)" by linarith
  then have "1 / 2 * (S / T) \<le> shrink ^ (k + k) * (S / T)" using V(1) by (intro mult_right_mono) linarith+
  then have lo: "1 \<le> a / b" using V(1) q(1) unfolding close_to_def by linarith
  have "S / T \<le> 2 ^ 90" using V(2) by (rule order_trans) simp
  from close_upper [OF q(1) k this] have "a / b \<le> 2 ^ 100" by (rule order_trans) simp
  from round_close [OF assms(1) q(1) disjI2 [OF lo] this] q(2) show ?thesis by (simp add: fdiv_def)
qed

section \<open>The two averages\<close>

lemma range_sums:
  assumes "in_range P Q n" and "n \<le> 20000000" and "S = (\<Sum>j = 0..<n. P ! j * Q ! j)" and "T = (\<Sum>j = 0..<n. Q ! j)"
  shows "95 * T \<le> S" and "S \<le> 105 * T" and "of_nat n \<le> T" and "S \<le> 2 ^ 90" and "T \<le> 2 ^ 90"
proof -
  have q: "1 \<le> Q ! j" "Q ! j \<le> 100" "95 * Q ! j \<le> P ! j * Q ! j" "P ! j * Q ! j \<le> 105 * Q ! j" if "j < n" for j
    using in_range_product [OF assms(1) that] assms(1) that by (auto simp: in_range_def)
  show lo: "95 * T \<le> S" and hi: "S \<le> 105 * T"
    unfolding assms(3,4) sum_distrib_left by (intro sum_mono; use q in simp)+
  have "(\<Sum>j = 0..<n. 1) \<le> T" "T \<le> (\<Sum>j = 0..<n. 100)" unfolding assms(4) by (intro sum_mono; use q in simp)+
  then have t: "of_nat n \<le> T" "T \<le> 100 * of_nat n" by simp_all
  show "of_nat n \<le> T" by (rule t(1))
  have "(of_nat n :: rat) \<le> of_nat 20000000" using assms(2) by (simp only: of_nat_le_iff)
  then have "T \<le> 2000000000" using t(2) by simp
  with hi show "S \<le> 2 ^ 90" and "T \<le> 2 ^ 90" by simp_all
qed

lemma close_zero_sum: "close_to k 0 0" "lanes_close 0 0 mm256_setzero_pd"
  by (rule close_refl) (simp_all add: lanes_zero)

lemma vwapScalar_close:
  assumes "rounding_laws r" and "in_range P Q (length P)" and "length P \<le> 20000000" and "P \<noteq> []"
  shows "\<exists>v. vwapScalar r P Q = Inr (Finite v) \<and>
    close_to (Suc (length P + 1 + (length P + 1))) ((\<Sum>j = 0..<length P. P ! j * Q ! j) / (\<Sum>j = 0..<length P. Q ! j)) v"
proof -
  note b = range_sums [OF assms(2,3) refl refl]
  have n: "of_nat (1 + length P) \<le> (2 ^ 50 :: rat)" "1 \<le> length P" using assms(3,4) by (simp_all add: Suc_leI)
  obtain x y where l: "scalarLoop r P Q 0 (length P) 0 0 = Inr (x, y)"
    "close_to (1 + length P) (\<Sum>j = 0..<length P. P ! j * Q ! j) x" "close_to (1 + length P) (\<Sum>j = 0..<length P. Q ! j) y"
    using scalarLoop_close [OF assms(1,2), of 0 1 0 0 0 0] close_zero_sum(1) b(4,5) n by auto
  have "0 < (\<Sum>j = 0..<length P. Q ! j)" using b(3) n(2) by linarith
  from fdiv_close [OF assms(1) l(2,3) this b(1,2) n(1)] show ?thesis by (auto simp: vwapScalar_def l(1))
qed

lemma vwapSIMD_close:
  assumes "rounding_laws r" and "in_range P Q (length P)" and "length P \<le> 20000000" and "P \<noteq> []"
  shows "\<exists>v k. vwapSIMD r P Q = Inr (Finite v) \<and> k \<le> length P + 3 \<and>
    close_to (Suc (k + k)) ((\<Sum>j = 0..<length P. P ! j * Q ! j) / (\<Sum>j = 0..<length P. Q ! j)) v"
proof -
  let ?n = "length P" and ?S = "\<lambda>i k. \<Sum>j = i..<k. P ! j * Q ! j" and ?T = "\<lambda>i k. \<Sum>j = i..<k. Q ! j"
  define m where "m = ?n - ?n mod 4"
  have m: "m \<le> ?n" "0 + 4 * (?n div 4) = m" by (simp_all add: m_def minus_mod_eq_mult_div)
  have cat: "(\<Sum>j = 0..<m. f j) + (\<Sum>j = m..<?n. f j) = (\<Sum>j = 0..<?n. f j)" for f :: "nat \<Rightarrow> rat"
    using m(1) by (simp add: sum.atLeastLessThan_concat)
  have "0 \<le> P ! j * Q ! j" "0 \<le> Q ! j" if "j < ?n" for j
    using in_range_product [OF assms(2) that] assms(2) that by (auto simp: in_range_def)
  then have nn: "0 \<le> ?S 0 m" "0 \<le> ?T 0 m" "0 \<le> ?S m ?n" "0 \<le> ?T m ?n" using m(1) by (auto intro!: sum_nonneg)
  note b = range_sums [OF assms(2,3) refl refl]
  with nn have s: "?S 0 m \<le> 2 ^ 90" "?T 0 m \<le> 2 ^ 90" using cat [of "\<lambda>j. P ! j * Q ! j"] cat [of "\<lambda>j. Q ! j"] by linarith+
  define k where "k = ?n div 4 + 3"
  have k: "k + (?n - m) \<le> ?n + 3" using m by (simp add: k_def)
  then have kr: "of_nat (k + (?n - m)) \<le> (2 ^ 50 :: rat)" "of_nat k \<le> (2 ^ 52 :: rat)" "of_nat (k + (?n - m)) \<le> (2 ^ 52 :: rat)"
    "of_nat (?n div 4) \<le> (2 ^ 52 :: rat)"
    using assms(3) by (simp_all add: k_def)
  obtain A B where v: "simdLoop r P Q 0 m mm256_setzero_pd mm256_setzero_pd = Inr (A, B)"
    "lanes_close (?n div 4) (?S 0 m) A" "lanes_close (?n div 4) (?T 0 m) B"
    using simdLoop_close [OF assms(1,2) m(2,1) close_zero_sum(2,2)] kr(4) s by auto
  have h: "close_to k (?S 0 m) (horizontal r A)" "close_to k (?T 0 m) (horizontal r B)"
    unfolding k_def by (intro horizontal_close [OF assms(1)] v s; use kr(2) in \<open>simp add: k_def\<close>)+
  obtain x y where l: "scalarLoop r P Q m ?n (horizontal r A) (horizontal r B) = Inr (x, y)"
    "close_to (k + (?n - m)) (?S 0 ?n) x" "close_to (k + (?n - m)) (?T 0 ?n) y"
    using scalarLoop_close [OF assms(1,2) m(1) h nn(1,2) _ kr(3)] b(4,5) unfolding cat by (auto simp: k_def)
  have "0 < ?T 0 ?n" using b(3) assms(4) by (simp add: less_le_trans [of 0 "of_nat ?n"])
  from fdiv_close [OF assms(1) l(2,3) this b(1,2) kr(1)] k show ?thesis
    by (auto simp: vwapSIMD_def Let_def m_def [symmetric] v(1) l(1))
qed

lemma agree_within:
  assumes "rounding_laws r" and "\<bar>x - y\<bar> \<le> 99 / 100000000"
  shows "doubles_agree r (Finite x) (Finite y)"
proof -
  have r: "\<bar>r z - z\<bar> \<le> 1 / 2 ^ 53" if "\<bar>z\<bar> \<le> 1" for z using assms(1) that by (simp add: rounding_laws_def)
  have "\<bar>r (x - y) - (x - y)\<bar> \<le> 1 / 2 ^ 53" by (rule r) (rule order_trans [OF assms(2)], simp)
  then have "\<bar>r (x - y)\<bar> \<le> 99 / 100000000 + 1 / 2 ^ 53" using assms(2) by linarith
  moreover have "\<bar>r (1 / 1000000) - 1 / 1000000\<bar> \<le> 1 / 2 ^ 53" by (rule r) simp
  then have "1 / 1000000 - 1 / 2 ^ 53 \<le> r (1 / 1000000)" by linarith
  moreover have "(99 / 100000000 + 1 / 2 ^ 53 :: rat) < 1 / 1000000 - 1 / 2 ^ 53" by simp
  ultimately show ?thesis by (simp add: doubles_agree_def)
qed

text \<open>Both averages of the lists are within half a millionth of the exact one.\<close>

lemma vwaps_close:
  assumes "rounding_laws r" and "in_range prices qtys (length prices)" and "1 \<le> length prices" and "length prices \<le> 20000000"
    and "V = (\<Sum>j = 0..<length prices. prices ! j * qtys ! j) / (\<Sum>j = 0..<length prices. qtys ! j)"
  shows "\<exists>x y. vwapScalar r prices qtys = Inr (Finite x) \<and> vwapSIMD r prices qtys = Inr (Finite y) \<and>
    \<bar>x - V\<bar> \<le> 1 / 2000000 \<and> \<bar>y - V\<bar> \<le> 1 / 2000000 \<and> doubles_agree r (Finite x) (Finite y)"
proof -
  let ?n = "length prices"
  have ne: "prices \<noteq> []" using assms(3) by auto
  note b = range_sums [OF assms(2,4) refl refl]
  have "0 < (\<Sum>j = 0..<?n. qtys ! j)" using b(3) assms(3) by (simp add: less_le_trans [of 0 "of_nat ?n"])
  with b(1,2) have V: "0 \<le> V" "V \<le> 105" unfolding assms(5) by (simp_all add: field_simps)
  obtain x where x: "vwapScalar r prices qtys = Inr (Finite x)" "close_to (Suc (?n + 1 + (?n + 1))) V x"
    using vwapScalar_close [OF assms(1,2,4) ne] unfolding assms(5) by blast
  obtain y k where y: "vwapSIMD r prices qtys = Inr (Finite y)" "k \<le> ?n + 3" "close_to (Suc (k + k)) V y"
    using vwapSIMD_close [OF assms(1,2,4) ne] unfolding assms(5) by blast
  have c: "close_to 40000007 V x" "close_to 40000007 V y"
    by (rule close_mono [OF x(2) _ V(1) close_nonneg [OF x(2) V(1)]], use assms(4) in simp)
      (rule close_mono [OF y(3) _ V(1) close_nonneg [OF y(3) V(1)]], use y(2) assms(4) in simp)
  have d: "of_nat 40000007 / 2 ^ 53 \<le> (1 / 1000 :: rat)" by simp
  note cx = close_between [OF c(1) V d] and cy = close_between [OF c(2) V d]
  have "106 * (of_nat 40000007 / 2 ^ 53) \<le> (1 / 2000000 :: rat)" "105 * (of_nat 40000007 / 2 ^ 53) \<le> (1 / 2000000 :: rat)"
    "211 * (of_nat 40000007 / 2 ^ 53) \<le> (99 / 100000000 :: rat)" by simp_all
  with cx cy have "\<bar>x - V\<bar> \<le> 1 / 2000000" "\<bar>y - V\<bar> \<le> 1 / 2000000" "\<bar>x - y\<bar> \<le> 99 / 100000000" by linarith+
  with agree_within [OF assms(1)] x(1) y(1) show ?thesis by blast
qed

section \<open>Properties\<close>

text \<open>C39: the check at the end of the program, \<open>std::abs(vwap1 - vwap2) < 1e-6\<close>, always succeeds. For any
  prices drawn from 95 to 105 and quantities from 1 to 100, any number of trades from one to the twenty
  million of the program, any measured durations and any rounding to nearest, both routines read in range,
  both printed averages are within half a millionth of the exact average of the trades, and the program
  prints that the results match and returns 0, although the two routines add in different orders.\<close>

theorem simd_results_match:
  assumes "rounding_laws r" and "1 \<le> N" and "N \<le> 20000000"
    and "\<forall>i < N. 95 \<le> fst (draws i) \<and> fst (draws i) \<le> 105 \<and> 1 \<le> snd (draws i) \<and> snd (draws i) \<le> 100"
    and "V = (\<Sum>i = 0..<N. fst (draws i) * snd (draws i)) / (\<Sum>i = 0..<N. snd (draws i))"
  shows "\<exists>x y. simd_main r draws scalarMs simdMs N = Inr
      ([OverTrades N, Timed ''  scalar: '' (Finite x) scalarMs, Timed ''  SIMD:   '' (Finite y) simdMs,
        Speedup (fdiv r scalarMs simdMs), ResultsMatch True], 0) \<and>
    \<bar>x - V\<bar> \<le> 1 / 2000000 \<and> \<bar>y - V\<bar> \<le> 1 / 2000000"
proof -
  let ?P = "map (fst \<circ> draws) [0..<N]" and ?Q = "map (snd \<circ> draws) [0..<N]"
  have r: "in_range ?P ?Q (length ?P)" using assms(4) by (simp add: in_range_def)
  have n: "1 \<le> length ?P" "length ?P \<le> 20000000" using assms(2,3) by simp_all
  have V: "V = (\<Sum>j = 0..<length ?P. ?P ! j * ?Q ! j) / (\<Sum>j = 0..<length ?P. ?Q ! j)" unfolding assms(5) by simp
  from vwaps_close [OF assms(1) r n V] show ?thesis by (auto simp: simd_main_def random_trades_def)
qed

theorem simd_results_match_witness:
  "\<exists>x y. simd_main (\<lambda>x. x) (\<lambda>i. (95 + of_nat i, 30 - of_nat i)) 12 3 5 = Inr
      ([OverTrades 5, Timed ''  scalar: '' (Finite x) 12, Timed ''  SIMD:   '' (Finite y) 3, Speedup (Finite 4), ResultsMatch True], 0) \<and>
    \<bar>x - 1357 / 14\<bar> \<le> 1 / 2000000 \<and> \<bar>y - 1357 / 14\<bar> \<le> 1 / 2000000"
proof -
  let ?d = "\<lambda>i. (95 + of_nat i, 30 - of_nat i) :: rat \<times> rat"
  have five: "{0..<5 :: nat} = {0, 1, 2, 3, 4}" by auto
  have "\<forall>i < 5. 95 \<le> fst (?d i) \<and> fst (?d i) \<le> 105 \<and> 1 \<le> snd (?d i) \<and> snd (?d i) \<le> 100" by (simp add: All_less_Suc2)
  moreover have "1357 / 14 = (\<Sum>i = 0..<5. fst (?d i) * snd (?d i)) / (\<Sum>i = 0..<5. snd (?d i))" unfolding five by simp
  moreover have "rounding_laws (\<lambda>x. x)" by (simp add: rounding_laws_def)
  moreover have "fdiv (\<lambda>x. x) 12 3 = Finite 4" by (simp add: fdiv_def)
  ultimately show ?thesis using simd_results_match [of "\<lambda>x. x" 5 ?d "1357 / 14" 12 3] by simp
qed

end
