(* ===== verification/Scenarios.thy ===== *)
theory Scenarios
  imports BookProps
begin

text \<open>
  \<open>main.cpp\<close>: the example program, as the calls it makes and what it prints (the number of trades and the
  trades of each step, the printed books and the answer of the cancel). It is evaluated on the model,
  which ties the definitions to the walkthrough of the program's comments.
\<close>

datatype main_output = TradesGenerated nat | PrintedTrade trade | PrintedBook "book_line list" | Cancelled bool

text \<open>\<open>book.addOrder(OrderFactory::createOrder(...))\<close>; the default price of a market order is 0.\<close>

definition place ::
  "order_kind \<Rightarrow> order_id \<Rightarrow> trader_id \<Rightarrow> side \<Rightarrow> int \<Rightarrow> double \<Rightarrow> book \<Rightarrow> (trade list \<times> book) result" where
  "place kind i t s q p b =
     bindE (createOrder 0 kind i t s q p) (\<lambda>ord. addOrder (\<lambda>_. 0) b (Some ord))"

definition report :: "trade list \<Rightarrow> book \<Rightarrow> main_output list" where
  "report ts b = TradesGenerated (length ts) # map PrintedTrade ts @ [PrintedBook (printBook b)]"

definition main_program :: "main_output list result" where
  "main_program =
     bindE (place LIMIT 1 1 SELL 10 (Finite 2498) empty_book) (\<lambda>(t1, b1).
     bindE (place LIMIT 2 2 BUY 10 (Finite 2500) b1) (\<lambda>(t2, b2).
     bindE (place LIMIT 3 1 SELL 20 (Finite 2497) b2) (\<lambda>(_, b3).
     bindE (place LIMIT 4 2 BUY 5 (Finite 2497) b3) (\<lambda>(t3, b4).
     bindE (place MARKET 5 2 BUY 15 dzero b4) (\<lambda>(t4, b5).
     bindE (place LIMIT 6 1 SELL 8 (Finite 2505) b5) (\<lambda>(_, b6).
     bindE (cancelOrder b6 6) (\<lambda>(cancelled, b7).
     Inr (TradesGenerated (length t1) # PrintedBook (printBook b1) # report t2 b2 @ report t3 b4 @ report t4 b5 @
       [PrintedBook (printBook b6), Cancelled cancelled, PrintedBook (printBook b7)]))))))))"

text \<open>The lines of a book with the given ask and bid levels.\<close>

definition ladder :: "(rat \<times> nat) list \<Rightarrow> (rat \<times> nat) list \<Rightarrow> book_line list" where
  "ladder as bs =
     Rule ''----- ASKS (best at bottom) -----'' # map (\<lambda>(p, n). Level (Finite p) n) as @
     Rule ''----------------------------------'' # map (\<lambda>(p, n). Level (Finite p) n) bs @
     [Rule ''----- BIDS (best at top) -----'']"

definition fill_at :: "order_id \<Rightarrow> order_id \<Rightarrow> rat \<Rightarrow> int \<Rightarrow> trade" where
  "fill_at b s p q = \<lparr>buyOrderId = b, sellOrderId = s, price = Finite p, quantity = q, trade_time = 0\<rparr>"

section \<open>Properties\<close>

text \<open>The example program does what its comments say: order 1 rests, order 2 takes all of it at its
  price 2498, order 4 takes 5 of the 20 of order 3, the market order takes the other 15, and the cancel
  of order 6 succeeds and leaves the book empty.\<close>

lemma main_program_output:
  "main_program = Inr
     [TradesGenerated 0, PrintedBook (ladder [(2498, 1)] []),
      TradesGenerated 1, PrintedTrade (fill_at 2 1 2498 10), PrintedBook (ladder [] []),
      TradesGenerated 1, PrintedTrade (fill_at 4 3 2497 5), PrintedBook (ladder [(2497, 1)] []),
      TradesGenerated 1, PrintedTrade (fill_at 5 3 2497 15), PrintedBook (ladder [] []),
      PrintedBook (ladder [(2505, 1)] []), Cancelled True, PrintedBook (ladder [] [])]"
  by code_simp

end
