(* ===== verification/TestSuite.thy ===== *)
theory TestSuite
  imports EngineSession Scenarios
begin

text \<open>
  \<open>tests/TestFramework.h\<close> and \<open>tests/tests.cpp\<close>: the test runner and the eighteen tests, as programs over the
  model. What a test depends on besides the code, the clocks and the interleaving of its threads, is a
  \<open>test_env\<close>; the tests are proved to pass in every one.
\<close>

section \<open>TestFramework.h\<close>

text \<open>What a test may throw. The message of a \<open>TestFailure\<close> quotes the condition and its place; the line stands
  for it.\<close>

datatype test_exception = TestFailure nat | StdException cpp_error

text \<open>A call made by a test: \<open>None\<close> when it has not returned, otherwise an exception or a result.\<close>

type_synonym 'a test = "(test_exception + 'a) option"

record test_case =
  test_name :: string
  fn :: "unit test"

definition lib :: "'a result \<Rightarrow> 'a test" where
  "lib r = Some (case r of Inl err \<Rightarrow> Inl (StdException err) | Inr a \<Rightarrow> Inr a)"

text \<open>A sequence of \<open>CHECK\<close>s and \<open>CHECK_EQ\<close>s, each with its line.\<close>

fun checks :: "(nat \<times> bool) list \<Rightarrow> unit test" where
  "checks [] = Some (Inr ())"
| "checks ((line, cond) # cs) = (if \<not> cond then Some (Inl (TestFailure line)) else checks cs)"

text \<open>\<open>==\<close> on doubles.\<close>

definition deq :: "double \<Rightarrow> double \<Rightarrow> bool" where
  "deq a b \<longleftrightarrow> a = b \<and> a \<noteq> NaN"

text \<open>\<open>try { ... } catch (const std::invalid_argument&)\<close>, and whether it was caught.\<close>

definition rejected :: "'a result \<Rightarrow> bool test" where
  "rejected r = (case r of
       Inl (invalid_argument _) \<Rightarrow> Some (Inr True)
     | Inl err \<Rightarrow> Some (Inl (StdException err))
     | Inr _ \<Rightarrow> Some (Inr False))"

datatype test_line = PASS string | FAIL string test_exception | Totals int int

fun runTests :: "test_case list \<Rightarrow> int \<Rightarrow> int \<Rightarrow> (test_line list \<times> int) option" where
  "runTests [] passed failed = Some ([Totals passed failed], if failed = 0 then 0 else 1)"
| "runTests (t # ts) passed failed =
     (case fn t of
        None \<Rightarrow> None
      | Some (Inr _) \<Rightarrow> map_option (\<lambda>(out, code). (PASS (test_name t) # out, code)) (runTests ts (passed + 1) failed)
      | Some (Inl x) \<Rightarrow> map_option (\<lambda>(out, code). (FAIL (test_name t) x # out, code)) (runTests ts passed (failed + 1)))"

definition runAllTests :: "test_case list \<Rightarrow> (test_line list \<times> int) option" where
  "runAllTests registry = runTests registry 0 0"

section \<open>What a test meets\<close>

text \<open>Readings of the steady clock when the \<open>n\<close>th order of a book is created and for the trades it makes; for each
  session of an engine the readings when its orders are created and the interleaving; the readings during
  each recovery.\<close>

record test_env =
  order_clock :: "nat \<Rightarrow> timestamp"
  trade_clock :: "nat \<Rightarrow> nat \<Rightarrow> timestamp"
  session_clock :: "nat \<Rightarrow> nat \<Rightarrow> timestamp"
  interleaving :: "nat \<Rightarrow> sys_label list"
  recovery_clock :: "nat \<Rightarrow> nat \<Rightarrow> reading"

text \<open>\<open>book.addOrder(OrderFactory::createOrder(...))\<close>, the \<open>n\<close>th of the test.\<close>

definition add ::
  "test_env \<Rightarrow> nat \<Rightarrow> order_kind \<Rightarrow> order_id \<Rightarrow> trader_id \<Rightarrow> side \<Rightarrow> int \<Rightarrow> double \<Rightarrow> book \<Rightarrow> (trade list \<times> book) result" where
  "add env n kind i t s q p b =
     bindE (createOrder (order_clock env n) kind i t s q p) (\<lambda>ord. addOrder (trade_clock env n) b (Some ord))"

text \<open>The calls of a session: \<open>submitOrder(OrderFactory::createOrder(...))\<close> and \<open>cancelOrder(id)\<close>.\<close>

datatype call = New order_kind order_id trader_id side int double | CancelId order_id

fun makeCalls :: "(nat \<Rightarrow> timestamp) \<Rightarrow> call list \<Rightarrow> sys_label list result" where
  "makeCalls now [] = Inr []"
| "makeCalls now (New kind i t s q p # cs) =
     bindE (createOrder (now 0) kind i t s q p) (\<lambda>ord.
     bindE (makeCalls (\<lambda>n. now (Suc n)) cs) (\<lambda>ls. Inr (Submit (Some ord) # ls)))"
| "makeCalls now (CancelId i # cs) = bindE (makeCalls now cs) (\<lambda>ls. Inr (Cancel i # ls))"

text \<open>The \<open>n\<close>th session of the test: \<open>start()\<close>, the calls, \<open>stop()\<close>.\<close>

definition run_session :: "test_env \<Rightarrow> nat \<Rightarrow> call list \<Rightarrow> ('j, 's, 'u) engine \<Rightarrow> ('j, 's, 'u) engine test" where
  "run_session env n cs e =
     bindT (lib (makeCalls (session_clock env n) cs)) (\<lambda>calls.
       map_option Inr (engine_session calls (interleaving env n) e))"

type_synonym plain_engine = "(unit, unit, unit) engine"
type_synonym mem_engine = "(journal_event list, unit, unit) engine"

definition recovers :: "test_env \<Rightarrow> nat \<Rightarrow> mem_engine \<Rightarrow> mem_engine test" where
  "recovers env n e = Some (case recover (recovery_clock env n) e of
       Throws err _ \<Rightarrow> Inl (StdException err) | Returns e' \<Rightarrow> Inr e')"

section \<open>Tests of the book\<close>

definition no_match_when_resting_alone :: "test_env \<Rightarrow> unit test" where
  "no_match_when_resting_alone env =
     bindT (lib (add env 0 LIMIT 1 1 SELL 10 (Finite 100) empty_book)) (\<lambda>(trades, book).
     checks [(11, length trades = 0), (14, getBestAsk book \<noteq> None), (15, deq (the (getBestAsk book)) (Finite 100))])"

definition exact_match_fully_fills_both_sides :: "test_env \<Rightarrow> unit test" where
  "exact_match_fully_fills_both_sides env =
     bindT (lib (add env 0 LIMIT 1 1 SELL 10 (Finite 100) empty_book)) (\<lambda>(_, b1).
     bindT (lib (add env 1 LIMIT 2 2 BUY 10 (Finite 100) b1)) (\<lambda>(trades, book).
     checks [(23, length trades = 1), (24, quantity (trades ! 0) = 10), (25, deq (price (trades ! 0)) (Finite 100)),
       (28, getBestAsk book = None), (29, getBestBid book = None)]))"

definition partial_fill_leaves_remainder_resting :: "test_env \<Rightarrow> unit test" where
  "partial_fill_leaves_remainder_resting env =
     bindT (lib (add env 0 LIMIT 1 1 SELL 20 (Finite 100) empty_book)) (\<lambda>(_, b1).
     bindT (lib (add env 1 LIMIT 2 2 BUY 5 (Finite 100) b1)) (\<lambda>(trades, book).
     checks [(37, length trades = 1), (38, quantity (trades ! 0) = 5), (41, getBestAsk book \<noteq> None),
       (42, deq (the (getBestAsk book)) (Finite 100))]))"

definition price_time_priority_fifo_within_a_price_level :: "test_env \<Rightarrow> unit test" where
  "price_time_priority_fifo_within_a_price_level env =
     bindT (lib (add env 0 LIMIT 1 10 SELL 5 (Finite 100) empty_book)) (\<lambda>(_, b1).
     bindT (lib (add env 1 LIMIT 2 20 SELL 5 (Finite 100) b1)) (\<lambda>(_, b2).
     bindT (lib (add env 2 LIMIT 3 30 BUY 5 (Finite 100) b2)) (\<lambda>(trades, _).
     checks [(54, length trades = 1), (55, sellOrderId (trades ! 0) = 1)])))"

definition no_price_cross_means_no_match :: "test_env \<Rightarrow> unit test" where
  "no_price_cross_means_no_match env =
     bindT (lib (add env 0 LIMIT 1 1 SELL 10 (Finite 105) empty_book)) (\<lambda>(_, b1).
     bindT (lib (add env 1 LIMIT 2 2 BUY 10 (Finite 100) b1)) (\<lambda>(trades, book).
     checks [(64, length trades = 0), (66, getBestBid book \<noteq> None), (67, getBestAsk book \<noteq> None),
       (68, deq (the (getBestBid book)) (Finite 100)), (69, deq (the (getBestAsk book)) (Finite 105))]))"

definition market_order_sweeps_available_liquidity :: "test_env \<Rightarrow> unit test" where
  "market_order_sweeps_available_liquidity env =
     bindT (lib (add env 0 LIMIT 1 1 SELL 10 (Finite 100) empty_book)) (\<lambda>(_, b1).
     bindT (lib (add env 1 MARKET 2 2 BUY 10 dzero b1)) (\<lambda>(trades, _).
     checks [(77, length trades = 1), (78, quantity (trades ! 0) = 10)]))"

definition market_order_with_no_liquidity_is_dropped_not_left_resting :: "test_env \<Rightarrow> unit test" where
  "market_order_with_no_liquidity_is_dropped_not_left_resting env =
     bindT (lib (add env 0 MARKET 1 1 BUY 10 dzero empty_book)) (\<lambda>(trades, book).
     checks [(85, length trades = 0), (87, getBestBid book = None)])"

definition cancel_removes_order_and_updates_best_price :: "test_env \<Rightarrow> unit test" where
  "cancel_removes_order_and_updates_best_price env =
     bindT (lib (add env 0 LIMIT 1 1 SELL 10 (Finite 100) empty_book)) (\<lambda>(_, b1).
     bindT (lib (add env 1 LIMIT 2 1 SELL 10 (Finite 101) b1)) (\<lambda>(_, b2).
     bindT (lib (cancelOrder b2 1)) (\<lambda>(cancelled, book).
     checks [(96, cancelled), (99, getBestAsk book \<noteq> None), (100, deq (the (getBestAsk book)) (Finite 101))])))"

definition cancel_on_unknown_id_returns_false :: "test_env \<Rightarrow> unit test" where
  "cancel_on_unknown_id_returns_false env =
     bindT (lib (cancelOrder empty_book 9999)) (\<lambda>(cancelled, _). checks [(105, \<not> cancelled)])"

definition invalid_orders_are_rejected :: "test_env \<Rightarrow> unit test" where
  "invalid_orders_are_rejected env =
     bindT (rejected (createOrder (order_clock env 0) MARKET 1 1 BUY 0 dzero)) (\<lambda>quantityRejected.
     bindT (checks [(144, quantityRejected)]) (\<lambda>_.
     bindT (rejected (createOrder (order_clock env 1) LIMIT 2 1 SELL 1 (Finite (- 1)))) (\<lambda>priceRejected.
     checks [(152, priceRejected)])))"

definition duplicate_active_order_ids_are_rejected :: "test_env \<Rightarrow> unit test" where
  "duplicate_active_order_ids_are_rejected env =
     bindT (lib (add env 0 LIMIT 1 1 SELL 1 (Finite 100) empty_book)) (\<lambda>(_, b1).
     bindT (rejected (add env 1 LIMIT 1 2 BUY 1 (Finite 100) b1)) (\<lambda>was_rejected. checks [(167, was_rejected)]))"

section \<open>Tests of the engine\<close>

definition engine_stop_drains_submitted_orders :: "test_env \<Rightarrow> unit test" where
  "engine_stop_drains_submitted_orders env =
     bindT (run_session env 0 [New LIMIT 1 1 SELL 10 (Finite 100), New LIMIT 2 2 BUY 10 (Finite 100)]
              (new_Engine () :: plain_engine)) (\<lambda>engine.
     checks [(118, length (getTradeLog engine) = 1), (119, quantity (getTradeLog engine ! 0) = 10)])"

definition engine_can_restart_after_stop :: "test_env \<Rightarrow> unit test" where
  "engine_can_restart_after_stop env =
     bindT (run_session env 0 [] (new_Engine () :: plain_engine)) (\<lambda>e1.
     bindT (run_session env 1 [New LIMIT 1 1 SELL 3 (Finite 100), New LIMIT 2 2 BUY 3 (Finite 100)] e1) (\<lambda>engine.
     checks [(134, length (getTradeLog engine) = 1)]))"

definition recovery_rebuilds_resting_orders_trades_and_cancels :: "test_env \<Rightarrow> unit test" where
  "recovery_rebuilds_resting_orders_trades_and_cancels env =
     bindT (run_session env 0
              [New LIMIT 1 1 SELL 10 (Finite 100), New LIMIT 2 2 BUY 4 (Finite 100), New LIMIT 3 1 SELL 5 (Finite 101),
               CancelId 3] (with_journal [])) (\<lambda>engine.
     let beforeCrash = getTradeLog engine; journal = events_of engine in
     bindT (checks [(194, length beforeCrash = 1), (195, quantity (beforeCrash ! 0) = 4), (196, journal_size journal = 4)]) (\<lambda>_.
     bindT (recovers env 0 (with_journal journal)) (\<lambda>recovered.
     let afterRecover = getTradeLog recovered in
     bindT (checks
       [(205, length afterRecover = length beforeCrash),
        (206, buyOrderId (afterRecover ! 0) = buyOrderId (beforeCrash ! 0)),
        (207, sellOrderId (afterRecover ! 0) = sellOrderId (beforeCrash ! 0)),
        (208, quantity (afterRecover ! 0) = quantity (beforeCrash ! 0)),
        (209, deq (price (afterRecover ! 0)) (price (beforeCrash ! 0)))]) (\<lambda>_.
     bindT (run_session env 1 [New LIMIT 4 3 BUY 6 (Finite 100), New LIMIT 5 3 BUY 5 (Finite 101)] recovered) (\<lambda>engine'.
     let finalLog = getTradeLog engine' in
     checks
       [(219, length finalLog = 2), (220, buyOrderId (finalLog ! 1) = 4), (221, sellOrderId (finalLog ! 1) = 1),
        (222, quantity (finalLog ! 1) = 6), (223, deq (price (finalLog ! 1)) (Finite 100))])))))"

definition recovery_from_empty_journal_is_a_noop :: "test_env \<Rightarrow> unit test" where
  "recovery_from_empty_journal_is_a_noop env =
     bindT (recovers env 0 (with_journal [])) (\<lambda>engine.
     bindT (checks [(231, length (getTradeLog engine) = 0)]) (\<lambda>_.
     bindT (run_session env 0 [New LIMIT 1 1 SELL 5 (Finite 100), New LIMIT 2 2 BUY 5 (Finite 100)] engine) (\<lambda>engine'.
     checks [(238, length (getTradeLog engine') = 1)])))"

definition journal_records_commands_in_seq_order_with_correct_fields :: "test_env \<Rightarrow> unit test" where
  "journal_records_commands_in_seq_order_with_correct_fields env =
     bindT (run_session env 0 [New LIMIT 100 7 SELL 12 (Finite (199 / 2)), CancelId 100] (with_journal [])) (\<lambda>engine.
     bindT (lib (loadAll_op InMemoryJournal (events_of engine))) (\<lambda>log.
     checks
       [(255, length log = 2), (258, ev_seq (log ! 0) = 1), (259, ev_type (log ! 0) = SUBMIT), (260, ev_kind (log ! 0) = LIMIT),
        (261, ev_side (log ! 0) = SELL), (262, ev_orderId (log ! 0) = 100), (263, ev_traderId (log ! 0) = 7),
        (264, ev_quantity (log ! 0) = 12), (265, deq (ev_price (log ! 0)) (Finite (199 / 2))), (268, ev_seq (log ! 1) = 2),
        (269, ev_type (log ! 1) = CANCEL), (270, ev_orderId (log ! 1) = 100)]))"

text \<open>The loop that compares the two trade logs.\<close>

fun same_trades :: "trade list \<Rightarrow> trade list \<Rightarrow> unit test" where
  "same_trades (t # la) (t' # lb) =
     bindT (checks [(297, buyOrderId t = buyOrderId t'), (298, sellOrderId t = sellOrderId t'),
       (299, quantity t = quantity t'), (300, deq (price t) (price t'))]) (\<lambda>_. same_trades la lb)"
| "same_trades _ _ = Some (Inr ())"

definition recovery_is_deterministic_across_engines :: "test_env \<Rightarrow> unit test" where
  "recovery_is_deterministic_across_engines env =
     bindT (run_session env 0
              [New LIMIT 1 1 SELL 10 (Finite 100), New LIMIT 2 2 SELL 5 (Finite 101), New LIMIT 3 3 BUY 12 (Finite 101)]
              (with_journal [])) (\<lambda>engine.
     bindT (recovers env 0 (with_journal (events_of engine))) (\<lambda>a.
     bindT (recovers env 1 (with_journal (events_of engine))) (\<lambda>b.
     bindT (checks [(295, length (getTradeLog a) = length (getTradeLog b))]) (\<lambda>_.
     bindT (same_trades (getTradeLog a) (getTradeLog b)) (\<lambda>_.
     checks [(303, length (getTradeLog a) = 2)])))))"

definition recovery_replays_market_orders :: "test_env \<Rightarrow> unit test" where
  "recovery_replays_market_orders env =
     bindT (run_session env 0 [New LIMIT 1 1 SELL 10 (Finite 100), New MARKET 2 2 BUY 6 dzero] (with_journal [])) (\<lambda>engine.
     bindT (lib (loadAll_op InMemoryJournal (events_of engine))) (\<lambda>log.
     bindT (checks [(319, ev_kind (log ! 1) = MARKET), (320, deq (ev_price (log ! 1)) dzero)]) (\<lambda>_.
     bindT (recovers env 0 (with_journal (events_of engine))) (\<lambda>recovered.
     let trades = getTradeLog recovered in
     checks
       [(327, length trades = 1), (328, buyOrderId (trades ! 0) = 2), (329, sellOrderId (trades ! 0) = 1),
        (330, quantity (trades ! 0) = 6), (331, deq (price (trades ! 0)) (Finite 100))]))))"

section \<open>The registry and main\<close>

definition registry :: "(nat \<Rightarrow> test_env) \<Rightarrow> test_case list" where
  "registry envs =
     [\<lparr>test_name = ''no_match_when_resting_alone'', fn = no_match_when_resting_alone (envs 0)\<rparr>,
      \<lparr>test_name = ''exact_match_fully_fills_both_sides'', fn = exact_match_fully_fills_both_sides (envs 1)\<rparr>,
      \<lparr>test_name = ''partial_fill_leaves_remainder_resting'', fn = partial_fill_leaves_remainder_resting (envs 2)\<rparr>,
      \<lparr>test_name = ''price_time_priority_fifo_within_a_price_level'',
       fn = price_time_priority_fifo_within_a_price_level (envs 3)\<rparr>,
      \<lparr>test_name = ''no_price_cross_means_no_match'', fn = no_price_cross_means_no_match (envs 4)\<rparr>,
      \<lparr>test_name = ''market_order_sweeps_available_liquidity'', fn = market_order_sweeps_available_liquidity (envs 5)\<rparr>,
      \<lparr>test_name = ''market_order_with_no_liquidity_is_dropped_not_left_resting'',
       fn = market_order_with_no_liquidity_is_dropped_not_left_resting (envs 6)\<rparr>,
      \<lparr>test_name = ''cancel_removes_order_and_updates_best_price'',
       fn = cancel_removes_order_and_updates_best_price (envs 7)\<rparr>,
      \<lparr>test_name = ''cancel_on_unknown_id_returns_false'', fn = cancel_on_unknown_id_returns_false (envs 8)\<rparr>,
      \<lparr>test_name = ''engine_stop_drains_submitted_orders'', fn = engine_stop_drains_submitted_orders (envs 9)\<rparr>,
      \<lparr>test_name = ''engine_can_restart_after_stop'', fn = engine_can_restart_after_stop (envs 10)\<rparr>,
      \<lparr>test_name = ''invalid_orders_are_rejected'', fn = invalid_orders_are_rejected (envs 11)\<rparr>,
      \<lparr>test_name = ''duplicate_active_order_ids_are_rejected'', fn = duplicate_active_order_ids_are_rejected (envs 12)\<rparr>,
      \<lparr>test_name = ''recovery_rebuilds_resting_orders_trades_and_cancels'',
       fn = recovery_rebuilds_resting_orders_trades_and_cancels (envs 13)\<rparr>,
      \<lparr>test_name = ''recovery_from_empty_journal_is_a_noop'', fn = recovery_from_empty_journal_is_a_noop (envs 14)\<rparr>,
      \<lparr>test_name = ''journal_records_commands_in_seq_order_with_correct_fields'',
       fn = journal_records_commands_in_seq_order_with_correct_fields (envs 15)\<rparr>,
      \<lparr>test_name = ''recovery_is_deterministic_across_engines'',
       fn = recovery_is_deterministic_across_engines (envs 16)\<rparr>,
      \<lparr>test_name = ''recovery_replays_market_orders'', fn = recovery_replays_market_orders (envs 17)\<rparr>]"

section \<open>Lemmas\<close>

lemma book_tests:
  "no_match_when_resting_alone env = Some (Inr ())"
  "exact_match_fully_fills_both_sides env = Some (Inr ())"
  "partial_fill_leaves_remainder_resting env = Some (Inr ())"
  "price_time_priority_fifo_within_a_price_level env = Some (Inr ())"
  "no_price_cross_means_no_match env = Some (Inr ())"
  "market_order_sweeps_available_liquidity env = Some (Inr ())"
  "market_order_with_no_liquidity_is_dropped_not_left_resting env = Some (Inr ())"
  "cancel_removes_order_and_updates_best_price env = Some (Inr ())"
  "cancel_on_unknown_id_returns_false env = Some (Inr ())"
  "invalid_orders_are_rejected env = Some (Inr ())"
  "duplicate_active_order_ids_are_rejected env = Some (Inr ())"
  by code_simp+


text \<open>The calls of a script do not throw when its orders are valid, and their commands are known up to time stamps.\<close>

fun call_ok :: "call \<Rightarrow> bool" where
  "call_ok (New kind i t s q p) \<longleftrightarrow> 0 < q \<and> q < 2 ^ 31 \<and> (kind = LIMIT \<longrightarrow> isfinite p \<and> dzero < p)"
| "call_ok (CancelId i) = True"

fun call_command :: "call \<Rightarrow> command" where
  "call_command (New kind i t s q p) =
     Command_submit (Some \<lparr>getId = i, getTraderId = t, getSide = s, getQuantity = q, getRemainingQuantity = q,
       getTimestamp = 0, getStatus = NEW, dynType = (case kind of MARKET \<Rightarrow> MarketOrder | LIMIT \<Rightarrow> LimitOrder p)\<rparr>)"
| "call_command (CancelId i) = Command_cancel i"

lemma makeCalls_ok:
  "\<forall>c \<in> set cs. call_ok c \<Longrightarrow> \<exists>calls. makeCalls now cs = Inr calls \<and> only_commands calls \<and>
     map untimed_command (pushed calls) = map call_command cs"
proof (induction cs arbitrary: now)
  case (Cons c cs)
  show ?case
  proof (cases c)
    case (New kind i t s q p)
    let ?ord = "\<lparr>getId = i, getTraderId = t, getSide = s, getQuantity = q, getRemainingQuantity = q, getTimestamp = now 0,
       getStatus = NEW, dynType = (case kind of MARKET \<Rightarrow> MarketOrder | LIMIT \<Rightarrow> LimitOrder p)\<rparr>"
    have "createOrder (now 0) kind i t s q p = Inr ?ord" using Cons.prems New by (auto simp: createOrder_Inr)
    moreover have "untimed_command (Command_submit (Some ?ord)) = call_command c"
      using New by (simp add: untimed_command_def untimed_def Command_submit_def)
    moreover obtain calls where "makeCalls (\<lambda>n. now (Suc n)) cs = Inr calls" "only_commands calls"
      "map untimed_command (pushed calls) = map call_command cs" using Cons.IH [of "\<lambda>n. now (Suc n)"] Cons.prems by auto
    ultimately show ?thesis using New by simp
  next
    case (CancelId i)
    with Cons.IH [of now] Cons.prems show ?thesis by auto
  qed
qed simp

lemmas factory_defs = from_factory_def Command_submit_def Command_cancel_def fresh_order_def order_ok_def price_ok_def int32_def

lemma run_session_cases:
  assumes "run_session env n cs e = Some r" and "\<forall>c \<in> set cs. call_ok c"
  obtains calls e' where "r = Inr e'" "only_commands calls" "map untimed_command (pushed calls) = map call_command cs"
    "engine_session calls (interleaving env n) e = Some e'"
proof -
  obtain calls where "makeCalls (session_clock env n) cs = Inr calls" "only_commands calls"
    "map untimed_command (pushed calls) = map call_command cs" using makeCalls_ok [OF assms(2)] by blast
  with assms(1) that show thesis by (auto simp: run_session_def lib_def)
qed

text \<open>An engine with any plug-ins after a session: all commands of the script applied.\<close>

lemma run_session_applied:
  assumes "run_session env n cs e = Some r" and "list_all call_ok cs" and "stopped e"
    and "applyCommands h blank = Inr (untimed_state e)"
  shows "\<exists>e'. r = Inr e' \<and> stopped e' \<and> applyCommands (h @ map call_command cs) blank = Inr (untimed_state e')"
proof -
  from assms(2) have "\<forall>c \<in> set cs. call_ok c" by (simp add: list_all_iff)
  from run_session_cases [OF assms(1) this] obtain calls e' where c: "r = Inr e'" "only_commands calls"
    "map untimed_command (pushed calls) = map call_command cs" "engine_session calls (interleaving env n) e = Some e'" .
  note s = session_applied [OF c(4) assms(3) c(2) assms(4)]
  have "applyCommands (h @ map call_command cs) blank = Inr (untimed_state e')"
    using s(2) applyCommands_untimed [of "pushed calls" "untimed_state e"] assms(4) unfolding applyCommands_append c(3) by simp
  with c(1) s(1) show ?thesis by blast
qed

text \<open>With an in-memory journal, also the log.\<close>

lemma journaled_untimed: "journaled k (map untimed_command cmds) evs = journaled k cmds evs"
proof (induction cmds arbitrary: k evs)
  case (Cons cmd cmds)
  have "commandEvent now (untimed_command cmd) s = commandEvent now cmd s" for now s
    by (auto simp: commandEvent_def untimed_command_def untimed_def makeSubmitEvent_Inr split: option.splits)
  with Cons show ?case by (simp split: list.splits)
qed simp

lemma engine_sound_untimed: "engine_sound J log_of (map untimed_command cmds) e = engine_sound J log_of cmds e"
  by (simp add: engine_sound_def applyCommands_untimed journaled_untimed)

lemma run_session_sound:
  assumes "run_session env n cs e = Some r" and "list_all call_ok cs" and "stopped e"
    and "engine_sound InMemoryJournal (\<lambda>evs. evs) h e"
  shows "\<exists>e'. r = Inr e' \<and> stopped e' \<and> engine_sound InMemoryJournal (\<lambda>evs. evs) (h @ map call_command cs) e'"
proof -
  from assms(2) have "\<forall>c \<in> set cs. call_ok c" by (simp add: list_all_iff)
  from run_session_cases [OF assms(1) this] obtain calls e' where c: "r = Inr e'" "only_commands calls"
    "map untimed_command (pushed calls) = map call_command cs" "engine_session calls (interleaving env n) e = Some e'" .
  note s = session_mem_sound [OF c(4) assms(3) c(2) assms(4)]
  have "engine_sound InMemoryJournal (\<lambda>evs. evs) (map untimed_command (h @ pushed calls)) e'"
    using s(2) by (simp only: engine_sound_untimed)
  then have "engine_sound InMemoryJournal (\<lambda>evs. evs) (map untimed_command h @ map untimed_command (map call_command cs)) e'"
    unfolding c(3) [symmetric] by (simp add: comp_def)
  then have "engine_sound InMemoryJournal (\<lambda>evs. evs) (map untimed_command (h @ map call_command cs)) e'" by simp
  with c(1) s(1) show ?thesis by (auto simp only: engine_sound_untimed)
qed

lemma submit_event_fields:
  "commandEvent now (Command_submit (Some ord)) n = Inr ev \<Longrightarrow>
     ev_seq ev = n \<and> ev_type ev = SUBMIT \<and> ev_kind ev = getOrderKind ord \<and> ev_side ev = getSide ord \<and>
     ev_orderId ev = getId ord \<and> ev_traderId ev = getTraderId ord \<and> ev_quantity ev = getQuantity ord \<and>
     ev_price ev = (case dynType ord of LimitOrder p \<Rightarrow> p | MarketOrder \<Rightarrow> dzero)"
  by (auto simp: commandEvent_def Command_submit_def makeSubmitEvent_Inr)

lemma cancel_event_fields:
  "commandEvent now (Command_cancel i) n = Inr ev \<Longrightarrow> ev_seq ev = n \<and> ev_type ev = CANCEL \<and> ev_orderId ev = i"
  by (auto simp: commandEvent_def Command_cancel_def)

lemma new_Engine_plain: "stopped (new_Engine () :: plain_engine)"
  "applyCommands [] blank = Inr (untimed_state (new_Engine () :: plain_engine))"
  using plugged_stopped [of None None None "()"] applyCommands_blank [where j = None and f = None and k = None and u = "()"]
  by (simp_all add: plugged_engine_defs)

lemma recovers_sound:
  assumes "engine_sound InMemoryJournal (\<lambda>evs. evs) h e" and "list_all from_factory h" and "length h < 2 ^ 64"
  shows "\<exists>e'. recovers env n (with_journal (events_of e)) = Some (Inr e') \<and> stopped e' \<and>
    engine_sound InMemoryJournal (\<lambda>evs. evs) h e'"
  using recover_with_journal [OF assms(1) _ assms(3), of "recovery_clock env n"] assms(2)
  by (auto simp: recovers_def list_all_iff)

text \<open>The trade log of an engine that has applied a script.\<close>

lemma sound_fills:
  "applyCommands h blank = Inr (untimed_state e) \<Longrightarrow> trades_of (applyCommands h blank) = Some (fills xs) \<Longrightarrow>
     map untimed_trade (getTradeLog e) = fills xs"
  by (simp add: trades_of_def untimed_state_def getTradeLog_def)

lemma engine_sound_fills:
  "engine_sound J log_of h e \<Longrightarrow> trades_of (applyCommands h blank) = Some (fills xs) \<Longrightarrow>
     map untimed_trade (getTradeLog e) = fills xs"
  by (rule sound_fills [of h]) (simp_all add: engine_sound_def)

lemma fills_fields:
  assumes "map untimed_trade ts = fills xs"
  shows "length ts = length xs"
    and "i < length xs \<Longrightarrow> buyOrderId (ts ! i) = fst (xs ! i) \<and> sellOrderId (ts ! i) = fst (snd (xs ! i)) \<and>
      quantity (ts ! i) = fst (snd (snd (xs ! i))) \<and> price (ts ! i) = Finite (snd (snd (snd (xs ! i))))"
proof -
  show l: "length ts = length xs" using arg_cong [OF assms, of length] by (simp add: fills_def)
  assume i: "i < length xs"
  have "untimed_trade (ts ! i) = fills xs ! i" using assms i l by (metis nth_map)
  also have "\<dots> = fills [xs ! i] ! 0" using i by (simp add: fills_def)
  finally show "buyOrderId (ts ! i) = fst (xs ! i) \<and> sellOrderId (ts ! i) = fst (snd (xs ! i)) \<and>
      quantity (ts ! i) = fst (snd (snd (xs ! i))) \<and> price (ts ! i) = Finite (snd (snd (snd (xs ! i))))"
    by (cases "ts ! i") (auto simp: untimed_trade_def fills_def split: prod.splits)
qed

text \<open>The next step of a test that has returned.\<close>

lemma checks_pass: "bindT (checks cs) f = Some r \<Longrightarrow> list_all snd cs \<Longrightarrow> f () = Some r"
  by (induction cs) auto

lemma session_then:
  assumes "bindT (run_session env n cs e) f = Some r" and "list_all call_ok cs" and "stopped e"
    and "applyCommands h blank = Inr (untimed_state e)"
  obtains (returned) e' where "f e' = Some r" "stopped e'" "applyCommands (h @ map call_command cs) blank = Inr (untimed_state e')"
proof (cases "run_session env n cs e")
  case (Some x)
  from run_session_applied [OF Some assms(2-4)] assms(1) Some that show thesis by auto
qed (use assms(1) in simp)

lemma mem_session_then:
  assumes "bindT (run_session env n cs e) f = Some r" and "list_all call_ok cs" and "stopped e"
    and "engine_sound InMemoryJournal (\<lambda>evs. evs) h e"
  obtains (returned) e' where "f e' = Some r" "stopped e'" "engine_sound InMemoryJournal (\<lambda>evs. evs) (h @ map call_command cs) e'"
proof (cases "run_session env n cs e")
  case (Some x)
  from run_session_sound [OF Some assms(2-4)] assms(1) Some that show thesis by auto
qed (use assms(1) in simp)

lemma recovers_then:
  assumes "bindT (recovers env n (with_journal (events_of e))) f = Some r"
    and "engine_sound InMemoryJournal (\<lambda>evs. evs) h e" and "list_all from_factory h" and "length h < 2 ^ 64"
  obtains (returned) e' where "f e' = Some r" "stopped e'" "engine_sound InMemoryJournal (\<lambda>evs. evs) h e'"
  using recovers_sound [OF assms(2-4), of env n] assms(1) that by auto

text \<open>The trades of the scripts, by the sequential specification.\<close>

abbreviation script :: "call list \<Rightarrow> command list" where
  "script cs \<equiv> [] @ map call_command cs"

lemma script_fills:
  "trades_of (applyCommands (script [New LIMIT 1 1 SELL 10 (Finite 100), New LIMIT 2 2 BUY 10 (Finite 100)]) blank) =
     Some (fills [(2, 1, 10, 100)])"
  "trades_of (applyCommands (script [] @ map call_command [New LIMIT 1 1 SELL 3 (Finite 100), New LIMIT 2 2 BUY 3 (Finite 100)])
     blank) = Some (fills [(2, 1, 3, 100)])"
  "trades_of (applyCommands (script [New LIMIT 1 1 SELL 10 (Finite 100), New LIMIT 2 2 BUY 4 (Finite 100),
     New LIMIT 3 1 SELL 5 (Finite 101), CancelId 3]) blank) = Some (fills [(2, 1, 4, 100)])"
  "trades_of (applyCommands (script [New LIMIT 1 1 SELL 10 (Finite 100), New LIMIT 2 2 BUY 4 (Finite 100),
     New LIMIT 3 1 SELL 5 (Finite 101), CancelId 3] @ map call_command [New LIMIT 4 3 BUY 6 (Finite 100),
     New LIMIT 5 3 BUY 5 (Finite 101)]) blank) = Some (fills [(2, 1, 4, 100), (4, 1, 6, 100)])"
  "trades_of (applyCommands (script [New LIMIT 1 1 SELL 5 (Finite 100), New LIMIT 2 2 BUY 5 (Finite 100)]) blank) =
     Some (fills [(2, 1, 5, 100)])"
  "trades_of (applyCommands (script [New LIMIT 1 1 SELL 10 (Finite 100), New LIMIT 2 2 SELL 5 (Finite 101),
     New LIMIT 3 3 BUY 12 (Finite 101)]) blank) = Some (fills [(3, 1, 10, 100), (3, 2, 2, 101)])"
  "trades_of (applyCommands (script [New LIMIT 1 1 SELL 10 (Finite 100), New MARKET 2 2 BUY 6 dzero]) blank) =
     Some (fills [(2, 1, 6, 100)])"
  by code_simp+

lemma engine_stop_drains_submitted_orders_passes:
  assumes "engine_stop_drains_submitted_orders env = Some r"
  shows "r = Inr ()"
proof (cases rule: session_then [OF assms [unfolded engine_stop_drains_submitted_orders_def] _ new_Engine_plain, case_names ok ses])
  case (ses e)
  note f = fills_fields [OF sound_fills [OF ses(3) script_fills(1)]]
  from ses(1) f(1) f(2) [of 0] show ?thesis by simp
qed simp

lemma engine_can_restart_after_stop_passes:
  assumes "engine_can_restart_after_stop env = Some r"
  shows "r = Inr ()"
proof (cases rule: session_then [OF assms [unfolded engine_can_restart_after_stop_def] _ new_Engine_plain, case_names ok ses])
  case (ses e1)
  show ?thesis
  proof (cases rule: session_then [OF ses(1) _ ses(2,3), case_names ok ses])
    case (ses e)
    from ses(1) fills_fields(1) [OF sound_fills [OF ses(3) script_fills(2)]] show ?thesis by simp
  qed simp
qed simp

lemma recovery_rebuilds_passes:
  assumes "recovery_rebuilds_resting_orders_trades_and_cancels env = Some r"
  shows "r = Inr ()"
proof (cases rule: mem_session_then [OF assms [unfolded recovery_rebuilds_resting_orders_trades_and_cancels_def Let_def]
      _ with_journal_new, case_names ok ses])
  case (ses e)
  note f = fills_fields [OF engine_sound_fills [OF ses(3) script_fills(3)]]
  note l = journaled_length [OF sound_journal [OF ses(3)]]
  show ?thesis
  proof (cases rule: recovers_then [OF checks_pass [OF ses(1)] ses(3), case_names checks factory len rec])
    case checks
    with f(1) f(2) [of 0] l show ?case by (simp add: journal_size_def)
  next
    case (rec e2)
    note f2 = fills_fields [OF engine_sound_fills [OF rec(3) script_fills(3)]]
    show ?thesis
    proof (cases rule: mem_session_then [OF checks_pass [OF rec(1)] _ rec(2,3), case_names checks ok ses])
      case checks
      with f(1) f(2) [of 0] f2(1) f2(2) [of 0] show ?case by (simp add: deq_def)
    next
      case (ses e3)
      note f3 = fills_fields [OF engine_sound_fills [OF ses(3) script_fills(4)]]
      from ses(1) f3(1) f3(2) [of 1] show ?thesis by (simp add: deq_def)
    qed simp
  qed (simp_all add: factory_defs)
qed simp

lemma recovery_from_empty_journal_passes:
  assumes "recovery_from_empty_journal_is_a_noop env = Some r"
  shows "r = Inr ()"
proof -
  have "bindT (recovers env 0 (with_journal (events_of (with_journal [])))) (\<lambda>engine.
     bindT (checks [(231, length (getTradeLog engine) = 0)]) (\<lambda>_.
     bindT (run_session env 0 [New LIMIT 1 1 SELL 5 (Finite 100), New LIMIT 2 2 BUY 5 (Finite 100)] engine) (\<lambda>engine'.
     checks [(238, length (getTradeLog engine') = 1)]))) = Some r"
    using assms by (simp add: recovery_from_empty_journal_is_a_noop_def with_journal_def setJournal_def)
  then show ?thesis
  proof (cases rule: recovers_then [OF _ with_journal_new(2), consumes 1, case_names factory len rec])
    case (rec e)
    have "trades_of (applyCommands [] blank) = Some (fills [])" by (simp add: trades_of_def blank_def fills_def)
    note f = fills_fields(1) [OF engine_sound_fills [OF rec(3) this]]
    show ?thesis
    proof (cases rule: mem_session_then [OF checks_pass [OF rec(1)] _ rec(2,3), case_names checks ok ses])
      case (ses e2)
      from ses(1) fills_fields(1) [OF engine_sound_fills [OF ses(3) script_fills(5)]] show ?thesis by simp
    qed (simp_all add: f)
  qed simp_all
qed

lemma journal_records_commands_passes:
  assumes "journal_records_commands_in_seq_order_with_correct_fields env = Some r"
  shows "r = Inr ()"
proof (cases rule: mem_session_then [OF assms [unfolded journal_records_commands_in_seq_order_with_correct_fields_def]
      _ with_journal_new, case_names ok ses])
  case (ses e)
  have "seq_no 0 = 1" "seq_no (Suc 0) = 2" by (simp_all add: seq_no_def)
  with sound_journal [OF ses(3)] obtain ev ev' where "events_of e = [ev, ev']"
    "ev_seq ev = 1" "ev_type ev = SUBMIT" "ev_kind ev = LIMIT" "ev_side ev = SELL" "ev_orderId ev = 100" "ev_traderId ev = 7"
    "ev_quantity ev = 12" "ev_price ev = Finite (199 / 2)" "ev_seq ev' = 2" "ev_type ev' = CANCEL" "ev_orderId ev' = 100"
    by (auto dest!: submit_event_fields cancel_event_fields split: list.splits)
  with ses(1) show ?thesis by (simp add: lib_def mem.log_loadAll deq_def)
qed simp

lemma same_trades_passes:
  "map untimed_trade la = map untimed_trade lb \<Longrightarrow> \<forall>t \<in> set la. price t \<noteq> NaN \<Longrightarrow> same_trades la lb = Some (Inr ())"
proof (induction la lb rule: same_trades.induct)
  case (1 t la t' lb)
  then show ?case by (cases t; cases t') (simp add: untimed_trade_def deq_def)
qed auto

lemma recovery_is_deterministic_passes:
  assumes "recovery_is_deterministic_across_engines env = Some r"
  shows "r = Inr ()"
proof (cases rule: mem_session_then [OF assms [unfolded recovery_is_deterministic_across_engines_def] _ with_journal_new,
      case_names ok ses])
  case (ses e)
  show ?thesis
  proof (cases rule: recovers_then [OF ses(1,3), case_names factory len rec])
    case (rec a)
    note fa = engine_sound_fills [OF rec(3) script_fills(6)]
    show ?thesis
    proof (cases rule: recovers_then [OF rec(1) ses(3), case_names factory len rec])
      case (rec b)
      note fb = engine_sound_fills [OF rec(3) script_fills(6)]
      have "price t \<noteq> NaN" if "t \<in> set (getTradeLog a)" for t
        using that fills_fields [OF fa] by (metis double.distinct(5) in_set_conv_nth)
      then have "same_trades (getTradeLog a) (getTradeLog b) = Some (Inr ())"
        by (intro same_trades_passes) (simp_all add: fa fb)
      with rec(1) fills_fields(1) [OF fa] fills_fields(1) [OF fb] show ?thesis by simp
    qed (simp_all add: factory_defs)
  qed (simp_all add: factory_defs)
qed simp

lemma recovery_replays_market_orders_passes:
  assumes "recovery_replays_market_orders env = Some r"
  shows "r = Inr ()"
proof (cases rule: mem_session_then [OF assms [unfolded recovery_replays_market_orders_def Let_def] _ with_journal_new,
      case_names ok ses])
  case (ses e)
  from sound_journal [OF ses(3)] obtain ev ev' where j: "events_of e = [ev, ev']" "ev_kind ev' = MARKET" "ev_price ev' = dzero"
    by (auto dest!: submit_event_fields split: list.splits)
  have rec: "bindT (recovers env 0 (with_journal (events_of e))) (\<lambda>recovered.
      checks [(327, length (getTradeLog recovered) = 1), (328, buyOrderId (getTradeLog recovered ! 0) = 2),
        (329, sellOrderId (getTradeLog recovered ! 0) = 1), (330, quantity (getTradeLog recovered ! 0) = 6),
        (331, deq (price (getTradeLog recovered ! 0)) (Finite 100))]) = Some r"
    using ses(1) j by (simp add: lib_def mem.log_loadAll deq_def)
  show ?thesis
  proof (cases rule: recovers_then [OF rec ses(3), case_names factory len rec])
    case (rec e2)
    note f = fills_fields [OF engine_sound_fills [OF rec(3) script_fills(7)]]
    from rec(1) f(1) f(2) [of 0] show ?thesis by (simp add: deq_def)
  qed (simp_all add: factory_defs)
qed simp

lemmas engine_tests = engine_stop_drains_submitted_orders_passes engine_can_restart_after_stop_passes recovery_rebuilds_passes
  recovery_from_empty_journal_passes journal_records_commands_passes recovery_is_deterministic_passes
  recovery_replays_market_orders_passes

text \<open>What the runner computes.\<close>

definition test_fails :: "test_case \<Rightarrow> bool" where
  "test_fails t = (case fn t of Some (Inl _) \<Rightarrow> True | _ \<Rightarrow> False)"

definition result_line :: "test_case \<Rightarrow> test_line" where
  "result_line t = (case fn t of Some (Inl x) \<Rightarrow> FAIL (test_name t) x | _ \<Rightarrow> PASS (test_name t))"

lemma runTests_eq:
  "runTests ts p f =
     (if \<exists>t \<in> set ts. fn t = None then None
      else let f' = f + int (length (filter test_fails ts)) in
        Some (map result_line ts @ [Totals (p + int (length (filter (\<lambda>t. \<not> test_fails t) ts))) f'], if f' = 0 then 0 else 1))"
proof (induction ts arbitrary: p f)
  case (Cons t ts)
  show ?case
  proof (cases "fn t")
    case (Some r)
    then have "test_fails t = (case r of Inl _ \<Rightarrow> True | Inr _ \<Rightarrow> False)"
      "result_line t = (case r of Inl x \<Rightarrow> FAIL (test_name t) x | Inr _ \<Rightarrow> PASS (test_name t))"
      by (simp_all add: test_fails_def result_line_def)
    with Some show ?thesis by (cases r) (simp_all add: Cons.IH Let_def)
  qed simp
qed simp

text \<open>A test that has returned has passed; the sessions of the tests can be finished in every interleaving by
  \<open>session_completes\<close>.\<close>

lemma registry_passes:
  assumes "t \<in> set (registry envs)" and "fn t = Some r"
  shows "r = Inr ()"
  using assms unfolding registry_def by (auto simp: book_tests dest: engine_tests)

section \<open>A run of the tests\<close>

text \<open>The matching thread handles each order of a session right away, or all of them at the end.\<close>

definition eager :: "sys_label list \<Rightarrow> sys_label list" where
  "eager calls = Start # concat (map (\<lambda>l. [l, Round at_zero]) calls) @ [StopSignal, Round at_zero]"

definition lazy :: "sys_label list \<Rightarrow> sys_label list" where
  "lazy calls = Start # calls @ StopSignal # replicate (length calls + 1) (Round at_zero)"

definition calls_at_zero :: "call list \<Rightarrow> sys_label list" where
  "calls_at_zero cs = (case makeCalls (\<lambda>_. 0) cs of Inr calls \<Rightarrow> calls | Inl _ \<Rightarrow> [])"

definition env_of :: "(call list \<times> bool) list \<Rightarrow> test_env" where
  "env_of sessions =
     \<lparr>order_clock = (\<lambda>_. 0), trade_clock = (\<lambda>_ _. 0), session_clock = (\<lambda>_ _. 0),
      interleaving = (\<lambda>n. if n < length sessions then (if snd (sessions ! n) then eager else lazy) (calls_at_zero (fst (sessions ! n)))
        else []),
      recovery_clock = (\<lambda>_ _. at_zero)\<rparr>"

definition sample_envs :: "nat \<Rightarrow> test_env" where
  "sample_envs k = env_of
     (if k = 9 then [([New LIMIT 1 1 SELL 10 (Finite 100), New LIMIT 2 2 BUY 10 (Finite 100)], True)]
      else if k = 10 then [([], True), ([New LIMIT 1 1 SELL 3 (Finite 100), New LIMIT 2 2 BUY 3 (Finite 100)], False)]
      else if k = 13 then
        [([New LIMIT 1 1 SELL 10 (Finite 100), New LIMIT 2 2 BUY 4 (Finite 100), New LIMIT 3 1 SELL 5 (Finite 101), CancelId 3], False),
         ([New LIMIT 4 3 BUY 6 (Finite 100), New LIMIT 5 3 BUY 5 (Finite 101)], True)]
      else if k = 14 then [([New LIMIT 1 1 SELL 5 (Finite 100), New LIMIT 2 2 BUY 5 (Finite 100)], False)]
      else if k = 15 then [([New LIMIT 100 7 SELL 12 (Finite (199 / 2)), CancelId 100], True)]
      else if k = 16 then
        [([New LIMIT 1 1 SELL 10 (Finite 100), New LIMIT 2 2 SELL 5 (Finite 101), New LIMIT 3 3 BUY 12 (Finite 101)], True)]
      else if k = 17 then [([New LIMIT 1 1 SELL 10 (Finite 100), New MARKET 2 2 BUY 6 dzero], False)]
      else [])"

section \<open>Properties\<close>

text \<open>C20: the test suite passes. Whatever the clocks show and however the threads of the engine tests
  interleave, when \<open>runAllTests\<close> returns it has printed a PASS for each of the eighteen tests in the order of
  the file, counts 18 passed and 0 failed, and returns the exit code 0.\<close>

theorem test_suite_passes:
  assumes "runAllTests (registry envs) = Some (out, code)"
  shows "out = map (\<lambda>t. PASS (test_name t)) (registry envs) @ [Totals 18 0] \<and> code = 0"
proof -
  have "\<not> test_fails t" "result_line t = PASS (test_name t)" if "t \<in> set (registry envs)" for t
    using registry_passes [OF that] by (auto simp: test_fails_def result_line_def split: option.splits sum.splits)
  then have "filter test_fails (registry envs) = []" "map result_line (registry envs) = map (\<lambda>t. PASS (test_name t)) (registry envs)"
    "filter (\<lambda>t. \<not> test_fails t) (registry envs) = registry envs"
    by (simp_all add: filter_empty_conv filter_id_conv)
  moreover have "length (registry envs) = 18" by (simp add: registry_def)
  ultimately show ?thesis
    using assms unfolding runAllTests_def runTests_eq by (auto split: if_splits)
qed

theorem test_suite_passes_witness:
  "\<exists>out. runAllTests (registry sample_envs) = Some (out, 0) \<and> length out = 19 \<and> last out = Totals 18 0"
proof -
  have "case runAllTests (registry sample_envs) of None \<Rightarrow> False | Some r \<Rightarrow> True" by code_simp
  then obtain out code where r: "runAllTests (registry sample_envs) = Some (out, code)" by (auto split: option.splits)
  have "length (registry sample_envs) = 18" by (simp add: registry_def)
  with test_suite_passes [OF r] r show ?thesis by auto
qed

end
