(* ===== verification/ObjectPool.thy ===== *)
theory ObjectPool
  imports Prelude
begin

text \<open>
  \<open>include/ObjectPool.h\<close>: a fixed block of slots and the list of the free ones. A pointer into the block
  is the index of its slot; a slot holds an object between its construction and its destruction.

  The constructor of \<open>T\<close> that \<open>acquire\<close> runs by placement new is not part of the pool: its outcome, the
  object or the exception it throws, is an argument. Destroying what is not a live object of the pool (a
  second \<open>release\<close> of the same pointer, a pointer from elsewhere) is undefined behaviour.
\<close>

section \<open>State and operations\<close>

record 'a pool =
  slots :: "nat \<Rightarrow> 'a option"
  freeList :: "nat list"

definition new_pool :: "nat \<Rightarrow> 'a pool" where
  "new_pool capacity = \<lparr>slots = (\<lambda>_. None), freeList = [0..<capacity]\<rparr>"

text \<open>A call of \<open>acquire\<close>: the pointer it returns or what it throws, and the pool after it.\<close>

definition acquire :: "'a result \<Rightarrow> 'a pool \<Rightarrow> nat result \<times> 'a pool" where
  "acquire built p =
     (if freeList p = [] then (Inl (runtime_error ''ObjectPool exhausted - increase capacity''), p)
      else
        let slot = last (freeList p); p1 = p\<lparr>freeList := butlast (freeList p)\<rparr> in
        case built of
          Inl err \<Rightarrow> (Inl err, p1)
        | Inr obj \<Rightarrow> (Inr slot, p1\<lparr>slots := (slots p1)(slot \<mapsto> obj)\<rparr>))"

definition release :: "nat \<Rightarrow> 'a pool \<Rightarrow> 'a pool result" where
  "release obj p =
     (case slots p obj of
        None \<Rightarrow> Inl undefined_behaviour
      | Some _ \<Rightarrow> Inr (p\<lparr>slots := (slots p)(obj := None), freeList := freeList p @ [obj]\<rparr>))"

definition available :: "'a pool \<Rightarrow> nat" where
  "available p = length (freeList p)"

section \<open>Sequences of calls\<close>

datatype 'a pool_call = Acquire "'a result" | Release nat

fun do_call :: "'a pool_call \<Rightarrow> 'a pool \<Rightarrow> 'a pool result" where
  "do_call (Acquire c) p = Inr (snd (acquire c p))"
| "do_call (Release i) p = release i p"

fun pool_calls :: "'a pool_call list \<Rightarrow> 'a pool \<Rightarrow> 'a pool result" where
  "pool_calls [] p = Inr p"
| "pool_calls (c # cs) p = bindE (do_call c p) (pool_calls cs)"

section \<open>Invariant\<close>

text \<open>Every slot is live, free, or lost to a constructor that threw, and never two of these.\<close>

definition pool_inv :: "nat \<Rightarrow> nat set \<Rightarrow> 'a pool \<Rightarrow> bool" where
  "pool_inv capacity lost p \<longleftrightarrow>
     distinct (freeList p) \<and> {..<capacity} = dom (slots p) \<union> set (freeList p) \<union> lost \<and>
     dom (slots p) \<inter> set (freeList p) = {} \<and> (dom (slots p) \<union> set (freeList p)) \<inter> lost = {}"

fun throwing :: "'a pool_call \<Rightarrow> bool" where
  "throwing (Acquire (Inl _)) = True"
| "throwing _ = False"

lemma pool_inv_new: "pool_inv capacity {} (new_pool capacity)"
  by (auto simp: pool_inv_def new_pool_def)

lemma butlast_last_split: "xs \<noteq> [] \<Longrightarrow> distinct xs \<Longrightarrow>
    distinct (butlast xs) \<and> last xs \<notin> set (butlast xs) \<and> set xs = insert (last xs) (set (butlast xs))"
  by (cases xs rule: rev_cases) auto

lemma acquire_inv:
  assumes "pool_inv capacity lost p" and "acquire c p = (r, p')"
  shows "case r of
      Inr i \<Rightarrow> pool_inv capacity lost p' \<and> i < capacity \<and> slots p i = None \<and>
        (\<exists>obj. c = Inr obj \<and> slots p' = (slots p)(i \<mapsto> obj))
    | Inl err \<Rightarrow> slots p' = slots p \<and>
        (if freeList p = [] then p' = p else c = Inl err \<and> pool_inv capacity (insert (last (freeList p)) lost) p')"
proof (cases "freeList p = []")
  case True
  with assms(2) show ?thesis by (auto simp: acquire_def)
next
  case False
  note bl = butlast_last_split [OF False]
  from assms(1) have d: "distinct (freeList p)" "last (freeList p) \<in> set (freeList p)"
    using False by (simp_all add: pool_inv_def)
  from assms d bl False show ?thesis
    by (cases c) (auto simp: acquire_def Let_def pool_inv_def split: if_splits)
qed

lemma release_inv:
  assumes "pool_inv capacity lost p" and "release i p = Inr p'"
  shows "pool_inv capacity lost p'" "freeList p' = freeList p @ [i]" "slots p' = (slots p)(i := None)"
proof -
  from assms(2) have i: "i \<in> dom (slots p)"
    and p': "p' = p\<lparr>slots := (slots p)(i := None), freeList := freeList p @ [i]\<rparr>"
    by (auto simp: release_def split: option.splits)
  from p' show "freeList p' = freeList p @ [i]" "slots p' = (slots p)(i := None)" by simp_all
  from assms(1) i p' show "pool_inv capacity lost p'" unfolding pool_inv_def by simp blast
qed

lemma pool_calls_inv:
  assumes "pool_inv capacity lost p" and "pool_calls cs p = Inr p'"
  shows "\<exists>lost'. pool_inv capacity lost' p' \<and> lost \<subseteq> lost' \<and> ((\<forall>c \<in> set cs. \<not> throwing c) \<longrightarrow> lost' = lost)"
  using assms
proof (induction cs arbitrary: p lost)
  case Nil
  then show ?case by auto
next
  case (Cons c cs)
  from Cons.prems(2) obtain p1 where p1: "do_call c p = Inr p1" "pool_calls cs p1 = Inr p'"
    by (auto simp: bindE_eq_Inr)
  have "\<exists>lost1. pool_inv capacity lost1 p1 \<and> lost \<subseteq> lost1 \<and> (\<not> throwing c \<longrightarrow> lost1 = lost)"
  proof (cases c)
    case (Acquire k)
    obtain r where a: "acquire k p = (r, p1)" using p1(1) Acquire by (metis Inr_inject do_call.simps(1) surjective_pairing)
    show ?thesis
      using acquire_inv [OF Cons.prems(1) a] Cons.prems(1) Acquire
      by (cases r; cases k) (auto split: if_splits)
  next
    case (Release i)
    with p1(1) release_inv [OF Cons.prems(1)] show ?thesis by auto
  qed
  then obtain lost1 where l: "pool_inv capacity lost1 p1" "lost \<subseteq> lost1" "\<not> throwing c \<longrightarrow> lost1 = lost" by blast
  from Cons.IH [OF l(1) p1(2)] l(2,3) show ?case by (metis list.set_intros subset_trans)
qed

lemma pool_count:
  assumes "pool_inv capacity lost p"
  shows "available p + card (dom (slots p)) + card lost = capacity"
proof -
  from assms have u: "{..<capacity} = dom (slots p) \<union> set (freeList p) \<union> lost"
    and d: "distinct (freeList p)" "dom (slots p) \<inter> set (freeList p) = {}"
      "(dom (slots p) \<union> set (freeList p)) \<inter> lost = {}" by (simp_all add: pool_inv_def)
  have fin: "finite (dom (slots p) \<union> set (freeList p) \<union> lost)" using u by (metis finite_lessThan)
  then have "card (dom (slots p) \<union> set (freeList p) \<union> lost) = card (dom (slots p)) + card (set (freeList p)) + card lost"
    using d by (simp add: card_Un_disjoint)
  with u d(1) show ?thesis by (metis add.commute add.left_commute available_def card_lessThan distinct_card)
qed

section \<open>Properties\<close>

text \<open>The pool never hands out memory in use. After any sequence of calls without undefined behaviour,
  \<open>acquire\<close> returns the address of a slot of the block that holds no live object, puts the constructed
  object there and leaves every other object alone; it throws \<open>std::runtime_error\<close> exactly when no slot
  is free, and what the constructor throws otherwise.\<close>

lemma acquire_fresh_slot:
  assumes "pool_calls cs (new_pool capacity) = Inr p" and "acquire c p = (r, p')"
  shows "case r of
      Inr i \<Rightarrow> i < capacity \<and> slots p i = None \<and> (\<exists>obj. c = Inr obj \<and> slots p' = (slots p)(i \<mapsto> obj))
    | Inl err \<Rightarrow> slots p' = slots p \<and>
        (if available p = 0 then err = runtime_error ''ObjectPool exhausted - increase capacity'' else c = Inl err)"
proof -
  obtain lost where "pool_inv capacity lost p"
    using pool_calls_inv [OF pool_inv_new assms(1)] by blast
  from acquire_inv [OF this assms(2)] assms(2) show ?thesis
    by (cases r) (auto simp: available_def acquire_def split: if_splits)
qed

text \<open>C37: every slot is accounted for. As long as no constructor throws, free slots and live objects add
  up to the capacity, and a released slot is the next one handed out. A constructor that throws loses
  its slot for good: from then on fewer slots are free or live than the block has.\<close>

theorem pool_slots_conserved:
  assumes "pool_calls cs (new_pool capacity) = Inr p"
  shows "(if \<exists>err. Acquire (Inl err) \<in> set cs then available p + card (dom (slots p)) \<le> capacity
      else available p + card (dom (slots p)) = capacity) \<and>
    (\<forall>i. slots p i \<noteq> None \<longrightarrow> (\<exists>p1 p2. release i p = Inr p1 \<and> available p1 = Suc (available p) \<and>
       acquire (Inr obj) p1 = (Inr i, p2))) \<and>
    (0 < available p \<longrightarrow> available (snd (acquire (Inl err) p)) + card (dom (slots (snd (acquire (Inl err) p)))) <
       available p + card (dom (slots p)))"
proof -
  obtain lost where l: "pool_inv capacity lost p" "(\<forall>c \<in> set cs. \<not> throwing c) \<longrightarrow> lost = {}"
    using pool_calls_inv [OF pool_inv_new assms] by blast
  have "(\<forall>c \<in> set cs. \<not> throwing c) \<longleftrightarrow> \<not> (\<exists>err. Acquire (Inl err) \<in> set cs)"
    by (metis throwing.elims(2) throwing.simps(1))
  with pool_count [OF l(1)] l(2)
  have 1: "if \<exists>err. Acquire (Inl err) \<in> set cs then available p + card (dom (slots p)) \<le> capacity
      else available p + card (dom (slots p)) = capacity" by auto
  have 2: "\<exists>p1 p2. release i p = Inr p1 \<and> available p1 = Suc (available p) \<and> acquire (Inr obj) p1 = (Inr i, p2)"
    if "slots p i \<noteq> None" for i
    by (rule exI [of _ "p\<lparr>slots := (slots p)(i := None), freeList := freeList p @ [i]\<rparr>"])
      (use that in \<open>auto simp: release_def acquire_def available_def Let_def\<close>)
  have 3: "available (snd (acquire (Inl err) p)) + card (dom (slots (snd (acquire (Inl err) p)))) <
      available p + card (dom (slots p))" if "0 < available p"
    using that by (auto simp: acquire_def available_def Let_def)
  from 1 2 3 show ?thesis by blast
qed

theorem pool_slots_conserved_witness:
  "\<exists>p. pool_calls [Acquire (Inr (5::nat))] (new_pool 2) = Inr p \<and> available p + card (dom (slots p)) = 2"
proof -
  let ?p = "snd (acquire (Inr (5::nat)) (new_pool 2))"
  have c: "pool_calls [Acquire (Inr (5::nat))] (new_pool 2) = Inr ?p" by simp
  from pool_slots_conserved [OF c] c show ?thesis by auto
qed

end
