(* ===== verification/Benchmarks.thy ===== *)
theory Benchmarks
  imports EngineSession ObjectPool Vwap
begin

text \<open>
  \<open>benchmarks/benchmark.cpp\<close>: what the timing harness computes from its measurements (the fastest trial, the
  percentiles), and the workloads it times: the pool against the heap, a book under random orders, an
  engine, the journal, and a recovery. The measured durations and what the random generators return are
  arguments; the numbers of the report are computed here, and printed in \<open>BenchmarkReport\<close>.
\<close>

section \<open>What a run meets\<close>

text \<open>The rounding of doubles; the readings of the clocks when objects and orders are created, when orders trade and
  when events are made; what the distributions return for side, quantity and price, by workload; the
  interleaving of each engine session; the readings during the recovery; and every measured duration.\<close>

record bench_env =
  fp :: rounding
  heapMs :: "nat \<Rightarrow> rat"
  poolMs :: "nat \<Rightarrow> rat"
  heapBatchNs :: "nat \<Rightarrow> rat"
  poolBatchNs :: "nat \<Rightarrow> rat"
  objectClock :: "nat \<Rightarrow> nat \<Rightarrow> timestamp"
  draws :: "nat \<Rightarrow> nat \<Rightarrow> side \<times> int \<times> rat"
  orderClock :: "nat \<Rightarrow> nat \<Rightarrow> timestamp"
  tradeClock :: "nat \<Rightarrow> nat \<Rightarrow> timestamp"
  latencyUs :: "nat \<Rightarrow> rat"
  wallMs :: rat
  session :: "nat \<Rightarrow> sys_label list"
  engineMs :: "nat \<Rightarrow> rat"
  eventClock :: "nat \<Rightarrow> nat \<Rightarrow> int"
  appendMs :: "nat \<Rightarrow> rat"
  replayClock :: "nat \<Rightarrow> reading"
  replayMs :: rat

record ResumeNumbers =
  poolSpeedup :: double
  heapAllocP50 :: double
  heapAllocP99 :: double
  heapAllocMax :: double
  poolAllocP50 :: double
  poolAllocP99 :: double
  poolAllocMax :: double
  p50 :: double
  p95 :: double
  p99 :: double
  p999 :: double
  maxUs :: double
  matchThroughput :: double
  engineThroughput :: double
  walNsPerEvent :: double
  walEventsPerSec :: double
  recoveryEventsPerSec :: double
  recoveryMs :: double
  recoveredEvents :: int

definition new_ResumeNumbers :: ResumeNumbers where
  "new_ResumeNumbers =
     \<lparr>poolSpeedup = dzero, heapAllocP50 = dzero, heapAllocP99 = dzero, heapAllocMax = dzero, poolAllocP50 = dzero,
      poolAllocP99 = dzero, poolAllocMax = dzero, p50 = dzero, p95 = dzero, p99 = dzero, p999 = dzero, maxUs = dzero,
      matchThroughput = dzero, engineThroughput = dzero, walNsPerEvent = dzero, walEventsPerSec = dzero,
      recoveryEventsPerSec = dzero, recoveryMs = dzero, recoveredEvents = 0\<rparr>"

text \<open>Division where an operand may be infinite, as after a duration of 0. (The sign of a zero is not represented.)\<close>

fun ddiv :: "rounding \<Rightarrow> double \<Rightarrow> double \<Rightarrow> double" where
  "ddiv r (Finite a) (Finite b) = fdiv r a b"
| "ddiv r (Finite a) NaN = NaN"
| "ddiv r (Finite a) _ = dzero"
| "ddiv r PosInf (Finite b) = (if 0 \<le> b then PosInf else NegInf)"
| "ddiv r NegInf (Finite b) = (if 0 \<le> b then NegInf else PosInf)"
| "ddiv r _ _ = NaN"

text \<open>A count per second, from a duration in milliseconds: \<open>n / (ms / 1000.0)\<close>.\<close>

definition per_second :: "rounding \<Rightarrow> nat \<Rightarrow> rat \<Rightarrow> double" where
  "per_second r n ms = ddiv r (Finite (r (of_nat n))) (fdiv r ms 1000)"

section \<open>The harness\<close>

text \<open>\<open>bestOfMs\<close>: the \<open>t\<close>th call of \<open>fn\<close> acts on the state it captures as \<open>fn t\<close> does and takes \<open>ms t\<close> milliseconds. \<open>std::min\<close>
  returns its first argument unless the second is smaller.\<close>

fun bestOfLoop :: "(nat \<Rightarrow> 'a \<Rightarrow> 'a result) \<Rightarrow> (nat \<Rightarrow> rat) \<Rightarrow> nat list \<Rightarrow> rat \<Rightarrow> 'a \<Rightarrow> (rat \<times> 'a) result" where
  "bestOfLoop fn ms [] best a = Inr (best, a)"
| "bestOfLoop fn ms (t # ts) best a =
     bindE (fn t a) (\<lambda>a'. bestOfLoop fn ms ts (if ms t < best then ms t else best) a')"

definition bestOfMs :: "rounding \<Rightarrow> nat \<Rightarrow> (nat \<Rightarrow> 'a \<Rightarrow> 'a result) \<Rightarrow> (nat \<Rightarrow> rat) \<Rightarrow> 'a \<Rightarrow> (rat \<times> 'a) result" where
  "bestOfMs r trials fn ms a = bestOfLoop fn ms [0..<trials] (r (10 ^ 300)) a"

text \<open>\<open>sorted.size() - 1\<close> is in 64 bits, the product is a double, and the cast to \<open>size_t\<close> cuts off the fraction.\<close>

definition pctl_index :: "rounding \<Rightarrow> nat \<Rightarrow> rat \<Rightarrow> nat" where
  "pctl_index r n p = nat \<lfloor>fmul r p (r (of_nat (unat ((word_of_nat n :: 64 word) - 1))))\<rfloor>"

definition pctl :: "rounding \<Rightarrow> rat list \<Rightarrow> rat \<Rightarrow> rat result" where
  "pctl r samples p = vec_at samples (pctl_index r (length samples) p)"

text \<open>\<open>back()\<close> of a vector.\<close>

definition vec_back :: "rat list \<Rightarrow> rat result" where
  "vec_back samples = (if samples = [] then Inl undefined_behaviour else Inr (last samples))"

text \<open>The samples sorted, the percentiles \<open>ps\<close> of them (the constants of the program are the doubles next to these
  fractions), and their last.\<close>

definition percentiles :: "rounding \<Rightarrow> rat list \<Rightarrow> rat list \<Rightarrow> rat list result" where
  "percentiles r samples ps =
     (let samples' = sort samples in
      bindE (mapE (\<lambda>p. pctl r samples' (r p)) ps) (\<lambda>xs.
      bindE (vec_back samples') (\<lambda>m. Inr (xs @ [m]))))"

section \<open>Part 1: heap and pool\<close>

text \<open>The rounds of the timed loops: \<open>new\<close> and \<open>delete\<close>, and \<open>acquire\<close> and \<open>release\<close>.\<close>

definition heapRound :: "(nat \<Rightarrow> timestamp) \<Rightarrow> nat \<Rightarrow> unit result" where
  "heapRound now i = bindE (new_LimitOrder (now i) (word_of_nat i) 1 BUY 10 (Finite 100)) (\<lambda>_. Inr ())"

fun heapLoop :: "(nat \<Rightarrow> timestamp) \<Rightarrow> nat list \<Rightarrow> unit result" where
  "heapLoop now [] = Inr ()"
| "heapLoop now (i # is) = bindE (heapRound now i) (\<lambda>_. heapLoop now is)"

definition poolRound :: "(nat \<Rightarrow> timestamp) \<Rightarrow> nat \<Rightarrow> order pool \<Rightarrow> order pool result" where
  "poolRound now i pool =
     (case acquire (new_LimitOrder (now i) (word_of_nat i) 1 BUY 10 (Finite 100)) pool of
        (Inl err, _) \<Rightarrow> Inl err
      | (Inr o', pool') \<Rightarrow> release o' pool')"

fun poolLoop :: "(nat \<Rightarrow> timestamp) \<Rightarrow> nat list \<Rightarrow> order pool \<Rightarrow> order pool result" where
  "poolLoop now [] pool = Inr pool"
| "poolLoop now (i # is) pool = bindE (poolRound now i pool) (poolLoop now is)"

text \<open>The loops over batches: a batch of \<open>B\<close> rounds, then its time per round as a sample.\<close>

fun batchLoop ::
  "rounding \<Rightarrow> (nat \<Rightarrow> 'a \<Rightarrow> 'a result) \<Rightarrow> (nat \<Rightarrow> rat) \<Rightarrow> nat \<Rightarrow> nat list \<Rightarrow> 'a \<times> rat list \<Rightarrow> ('a \<times> rat list) result" where
  "batchLoop r batch ns B [] st = Inr st"
| "batchLoop r batch ns B (b # bs) st =
     bindE (batch b (fst st)) (\<lambda>a. batchLoop r batch ns B bs (a, snd st @ [r (ns b / of_nat B)]))"

text \<open>The numbers of part 1, and the two times in milliseconds that are printed.\<close>

definition allocationBenchmark :: "bench_env \<Rightarrow> nat \<Rightarrow> nat \<Rightarrow> ResumeNumbers \<Rightarrow> (ResumeNumbers \<times> rat \<times> rat) result" where
  "allocationBenchmark env N B out =
     bindE (bestOfMs (fp env) 5 (\<lambda>t _. heapLoop (objectClock env t) [0..<N]) (heapMs env) ()) (\<lambda>(heap, _).
     bindE (bestOfMs (fp env) 5 (\<lambda>t. poolLoop (objectClock env t) [0..<N]) (poolMs env) (new_pool 1024)) (\<lambda>(pl, pool).
     let out1 = out\<lparr>poolSpeedup := fdiv (fp env) heap pl\<rparr>; batches = N div B in
     bindE (batchLoop (fp env) (\<lambda>b _. heapLoop (objectClock env b) [0..<B]) (heapBatchNs env) B [0..<batches] ((), [])) (\<lambda>(_, heapNs).
     bindE (batchLoop (fp env) (\<lambda>b. poolLoop (objectClock env b) [0..<B]) (poolBatchNs env) B [0..<batches] (pool, [])) (\<lambda>(_, poolNs).
     bindE (percentiles (fp env) heapNs [50 / 100, 99 / 100]) (\<lambda>h.
     bindE (percentiles (fp env) poolNs [50 / 100, 99 / 100]) (\<lambda>p. Inr
       (out1\<lparr>heapAllocP50 := Finite (h ! 0), heapAllocP99 := Finite (h ! 1), heapAllocMax := Finite (h ! 2),
          poolAllocP50 := Finite (p ! 0), poolAllocP99 := Finite (p ! 1), poolAllocMax := Finite (p ! 2)\<rparr>, heap, pl)))))))"

section \<open>Part 2: the book\<close>

definition benchOrder :: "(nat \<Rightarrow> timestamp) \<Rightarrow> (nat \<Rightarrow> side \<times> int \<times> rat) \<Rightarrow> nat \<Rightarrow> order result" where
  "benchOrder now dr i =
     (case dr i of (s, q, p) \<Rightarrow> createOrder (now i) LIMIT (word_of_nat i) 1 s q (Finite p))"

fun latencyLoop ::
  "(nat \<Rightarrow> timestamp) \<Rightarrow> (nat \<Rightarrow> nat \<Rightarrow> timestamp) \<Rightarrow> (nat \<Rightarrow> side \<times> int \<times> rat) \<Rightarrow> (nat \<Rightarrow> rat) \<Rightarrow> nat list \<Rightarrow>
     book \<times> rat list \<Rightarrow> (book \<times> rat list) result" where
  "latencyLoop now clk dr us [] st = Inr st"
| "latencyLoop now clk dr us (i # is) st =
     bindE (benchOrder now dr i) (\<lambda>ord.
     bindE (addOrder (clk i) (fst st) (Some ord)) (\<lambda>(_, book).
     latencyLoop now clk dr us is (book, snd st @ [us i])))"

definition latencyBenchmark :: "bench_env \<Rightarrow> nat \<Rightarrow> ResumeNumbers \<Rightarrow> ResumeNumbers result" where
  "latencyBenchmark env N out =
     bindE (latencyLoop (orderClock env 0) (tradeClock env) (draws env 0) (latencyUs env) [0..<N] (empty_book, [])) (\<lambda>(_, latenciesUs).
     bindE (percentiles (fp env) latenciesUs [50 / 100, 95 / 100, 99 / 100, 999 / 1000]) (\<lambda>xs. Inr
       (out\<lparr>p50 := Finite (xs ! 0), p95 := Finite (xs ! 1), p99 := Finite (xs ! 2), p999 := Finite (xs ! 3),
          maxUs := Finite (xs ! 4), matchThroughput := per_second (fp env) N (wallMs env)\<rparr>)))"

section \<open>Parts 3 and 4: engine, journal and recovery\<close>

definition workload :: "(nat \<Rightarrow> timestamp) \<Rightarrow> (nat \<Rightarrow> side \<times> int \<times> rat) \<Rightarrow> nat \<Rightarrow> sys_label list result" where
  "workload now dr N =
     bindE (mapE (benchOrder now dr) [0..<N]) (\<lambda>ords. Inr (map (\<lambda>ord. Submit (Some ord)) ords))"

text \<open>The \<open>t\<close>th call; \<open>None\<close> when its session has not come to its end. The draws are those of workload \<open>t + 1\<close>.\<close>

definition engineThroughputOnce :: "bench_env \<Rightarrow> nat \<Rightarrow> nat \<Rightarrow> double result option" where
  "engineThroughputOnce env t nOrders =
     bindT (Some (workload (orderClock env (t + 1)) (draws env (t + 1)) nOrders)) (\<lambda>calls.
     bindT (map_option Inr (engine_session calls (session env t) (new_Engine () :: (unit, unit, unit) engine))) (\<lambda>_.
     Some (Inr (per_second (fp env) nOrders (engineMs env t)))))"

fun throughputLoop :: "bench_env \<Rightarrow> nat \<Rightarrow> nat list \<Rightarrow> double \<Rightarrow> double result option" where
  "throughputLoop env N [] best = Some (Inr best)"
| "throughputLoop env N (t # ts) best =
     bindT (engineThroughputOnce env t N) (\<lambda>x.
     let y = ddiv (fp env) (Finite 1) x in throughputLoop env N ts (if y < best then y else best))"

text \<open>The timed loop of part 3b: \<open>M\<close> events of one order, numbered from 0, in a new journal.\<close>

fun appendLoop :: "(nat \<Rightarrow> int) \<Rightarrow> order \<Rightarrow> nat list \<Rightarrow> journal_event list \<Rightarrow> journal_event list result" where
  "appendLoop wall sample [] evs = Inr evs"
| "appendLoop wall sample (i # is) evs =
     bindE (makeSubmitEvent (wall i) sample (word_of_nat i)) (\<lambda>ev.
     appendLoop wall sample is (append_op InMemoryJournal ev evs))"

definition persistenceBenchmark :: "bench_env \<Rightarrow> nat \<Rightarrow> nat \<Rightarrow> ResumeNumbers \<Rightarrow> ResumeNumbers result option" where
  "persistenceBenchmark env N M out =
     bindT (throughputLoop env N [0..<3] (Finite (fp env (10 ^ 300)))) (\<lambda>best.
     let out1 = out\<lparr>engineThroughput := ddiv (fp env) (Finite 1) best\<rparr> in
     bindT (Some (createOrder (orderClock env 5 0) LIMIT 1 1 BUY 10 (Finite 100))) (\<lambda>sample.
     bindT (Some (bestOfMs (fp env) 5
       (\<lambda>t _. bindE (appendLoop (eventClock env t) sample [0..<M] []) (\<lambda>_. Inr ())) (appendMs env) ())) (\<lambda>(ms, _).
     Some (Inr (out1\<lparr>walNsPerEvent := fdiv (fp env) (fmul (fp env) ms 1000000) (fp env (of_nat M)),
                  walEventsPerSec := per_second (fp env) M ms\<rparr>)))))"

text \<open>The numbers of part 4, and the rebuilt trade log, whose size is printed.\<close>

definition recoveryBenchmark :: "bench_env \<Rightarrow> nat \<Rightarrow> ResumeNumbers \<Rightarrow> (ResumeNumbers \<times> trade list) result option" where
  "recoveryBenchmark env N out =
     bindT (Some (workload (orderClock env 4) (draws env 4) N)) (\<lambda>calls.
     bindT (map_option Inr (engine_session calls (session env 3) (with_journal []))) (\<lambda>engine.
     let n = journal_size (events_of engine) in
     Some (case recover (replayClock env) (with_journal (events_of engine)) of
         Throws err _ \<Rightarrow> Inl err
       | Returns recovered \<Rightarrow> Inr
           (out\<lparr>recoveredEvents := int n, recoveryMs := Finite (replayMs env),
              recoveryEventsPerSec := per_second (fp env) n (replayMs env)\<rparr>, getTradeLog recovered))))"

section \<open>The harness is right\<close>

lemma bestOfLoop_min:
  "bestOfLoop fn ms ts best a = Inr (b, a') \<Longrightarrow> b = Min (insert best (ms ` set ts))"
proof (induction ts arbitrary: best a)
  case (Cons t ts)
  then obtain a1 where "bestOfLoop fn ms ts (if ms t < best then ms t else best) a1 = Inr (b, a')"
    by (auto simp: bindE_eq_Inr)
  from Cons.IH [OF this] have "b = Min (insert (min (ms t) best) (ms ` set ts))" by (simp add: min_def split: if_splits)
  moreover have "Min (insert (min x y) A) = Min (insert y (insert x A))" if "finite A" for x y :: rat and A
    using that by (cases "A = {}") (simp_all add: min.left_commute min.assoc min.commute)
  ultimately show ?case by simp
qed simp

lemma Min_insert_above: "finite A \<Longrightarrow> a \<in> A \<Longrightarrow> a \<le> c \<Longrightarrow> Min (insert c A) = Min (A :: rat set)"
  by (metis Min_insert Min_le empty_iff min.absorb2 order_trans)

text \<open>\<open>bestOfMs\<close> returns the smallest of the measured times, when there is a trial and all are below the initial value.\<close>

lemma bestOfMs_fastest:
  assumes "bestOfMs r trials fn ms a = Inr (best, a')" and "0 < trials" and "\<forall>t < trials. ms t \<le> r (10 ^ 300)"
  shows "(\<exists>t < trials. best = ms t) \<and> (\<forall>t < trials. best \<le> ms t)"
proof -
  have b: "best = Min (insert (r (10 ^ 300)) (ms ` {0..<trials}))"
    using bestOfLoop_min assms(1) unfolding bestOfMs_def by fastforce
  have "best = Min (ms ` {0..<trials})"
    unfolding b using assms(2,3) by (intro Min_insert_above [of _ "ms 0"]) auto
  moreover have "Min (ms ` {0..<trials}) \<in> ms ` {0..<trials}" using assms(2) by (intro Min_in) auto
  ultimately show ?thesis by (auto intro: Min_le)
qed

lemma pctl_index_mono: "mono r \<Longrightarrow> 0 \<le> r 0 \<Longrightarrow> p \<le> q \<Longrightarrow> pctl_index r n p \<le> pctl_index r n q"
proof -
  assume r: "mono r" "0 \<le> r 0" "p \<le> q"
  have "0 \<le> r (of_nat (unat ((word_of_nat n :: 64 word) - 1)))" using monoD [OF r(1), of 0] r(2) by (meson of_nat_0_le_iff order_trans)
  with r(3) have "p * r (of_nat (unat ((word_of_nat n :: 64 word) - 1))) \<le> q * r (of_nat (unat ((word_of_nat n :: 64 word) - 1)))"
    by (rule mult_right_mono)
  with r(1) show ?thesis unfolding pctl_index_def fmul_def by (intro nat_mono floor_mono) (rule monoD)
qed

lemma unat_pred_size: "0 < n \<Longrightarrow> n < 2 ^ 64 \<Longrightarrow> unat ((word_of_nat n :: 64 word) - 1) = n - 1"
proof -
  assume n: "0 < n" "n < 2 ^ 64"
  then have "(word_of_nat n :: 64 word) - 1 = word_of_nat (n - 1)" by (simp add: of_nat_diff)
  moreover have "unat (word_of_nat (n - 1) :: 64 word) = (n - 1) mod 2 ^ LENGTH(64)" by (rule unat_of_nat)
  moreover have "n - 1 < 2 ^ LENGTH(64)" using n by simp
  ultimately show ?thesis by (simp only: mod_less)
qed

lemma pctl_index_one:
  assumes "exact_on_integers r" and "0 < n" and "n \<le> 2 ^ 53"
  shows "pctl_index r n 1 = n - 1" and "pctl_index r n 0 = 0"
proof -
  have u: "unat ((word_of_nat n :: 64 word) - 1) = n - 1" using assms(2,3) by (intro unat_pred_size) simp_all
  have e: "r (of_nat (n - 1)) = of_nat (n - 1)" using exactD [OF assms(1), of "int (n - 1)"] assms(2,3) by simp
  have "r 0 = 0" using exactD [OF assms(1), of 0] by simp
  with u e show "pctl_index r n 1 = n - 1" "pctl_index r n 0 = 0" by (simp_all add: pctl_index_def fmul_def)
qed

lemma pctl_in_range:
  assumes "mono r" and "exact_on_integers r" and "samples \<noteq> []" and "length samples \<le> 2 ^ 53" and "0 \<le> p" "p \<le> 1"
  shows "pctl_index r (length samples) p < length samples"
    and "pctl r samples p = Inr (samples ! pctl_index r (length samples) p)"
proof -
  have "0 \<le> r 0" using exactD [OF assms(2), of 0] by simp
  note pctl_index_mono [OF assms(1) this assms(6), of "length samples"]
  also have "pctl_index r (length samples) 1 = length samples - 1" using assms(2-4) by (intro pctl_index_one(1)) auto
  also have "length samples - 1 < length samples" using assms(3) by (cases samples) simp_all
  finally show "pctl_index r (length samples) p < length samples" .
  then show "pctl r samples p = Inr (samples ! pctl_index r (length samples) p)" by (simp add: pctl_def vec_at_def)
qed

section \<open>The workloads run\<close>

lemma bestOfLoop_runs: "(\<And>t. fn t a = Inr a) \<Longrightarrow> \<exists>best'. bestOfLoop fn ms ts best a = Inr (best', a)"
  by (induction ts arbitrary: best) simp_all

lemma bestOfMs_runs: "(\<And>t. fn t a = Inr a) \<Longrightarrow> \<exists>best. bestOfMs r trials fn ms a = Inr (best, a)"
  unfolding bestOfMs_def by (rule bestOfLoop_runs)

lemma batchLoop_runs:
  "(\<And>b. batch b a = Inr a) \<Longrightarrow> batchLoop r batch ns B bs (a, xs) = Inr (a, xs @ map (\<lambda>b. r (ns b / of_nat B)) bs)"
  by (induction bs arbitrary: xs) simp_all

lemma new_LimitOrder_bench: "\<exists>ord. new_LimitOrder now i 1 BUY 10 (Finite 100) = Inr ord"
  using createOrder_limit [of 10 100 now i 1 BUY] by (auto simp: createOrder_def)

lemma heapLoop_runs: "heapLoop now is = Inr ()"
proof (induction "is")
  case (Cons i "is")
  with new_LimitOrder_bench [of "now i" "word_of_nat i"] show ?case by (auto simp: heapRound_def)
qed simp

text \<open>The loop on the pool leaves the pool as it was: one slot suffices for any number of rounds.\<close>

lemma poolRound_same:
  assumes "pool_inv capacity lost pool" and "freeList pool \<noteq> []"
  shows "poolRound now i pool = Inr pool"
proof -
  let ?slot = "last (freeList pool)"
  obtain ord where ord: "new_LimitOrder (now i) (word_of_nat i) 1 BUY 10 (Finite 100) = Inr ord"
    using new_LimitOrder_bench by blast
  have "?slot \<in> set (freeList pool)" using assms(2) by simp
  then have "slots pool ?slot = None" using assms(1) unfolding pool_inv_def by blast
  then have "(slots pool)(?slot := None) = slots pool" by (simp add: fun_upd_idem)
  with ord assms(2) show ?thesis by (simp add: poolRound_def acquire_def release_def Let_def)
qed

lemma poolLoop_same: "pool_inv capacity lost pool \<Longrightarrow> freeList pool \<noteq> [] \<Longrightarrow> poolLoop now is pool = Inr pool"
  by (induction "is") (simp_all add: poolRound_same)

text \<open>Draws in the ranges of the distributions: quantities from 1 to 50, prices above 0.\<close>

definition draws_ok :: "(nat \<Rightarrow> side \<times> int \<times> rat) \<Rightarrow> nat \<Rightarrow> bool" where
  "draws_ok dr N \<longleftrightarrow> (\<forall>i < N. case dr i of (s, q, p) \<Rightarrow> 1 \<le> q \<and> q \<le> 50 \<and> 95 \<le> p \<and> p \<le> 105)"

definition bench_order :: "(nat \<Rightarrow> timestamp) \<Rightarrow> (nat \<Rightarrow> side \<times> int \<times> rat) \<Rightarrow> nat \<Rightarrow> order" where
  "bench_order now dr i = (case dr i of (s, q, p) \<Rightarrow> limit_at (now i) (word_of_nat i) 1 s q p)"

lemma benchOrder_Inr: "draws_ok dr N \<Longrightarrow> i < N \<Longrightarrow> benchOrder now dr i = Inr (bench_order now dr i)"
  unfolding draws_ok_def benchOrder_def bench_order_def by (auto simp: createOrder_limit split: prod.splits)

lemma bench_order_ok:
  assumes "draws_ok dr N" and "i < N"
  shows "order_ok (bench_order now dr i)" "fresh_order (bench_order now dr i)" "getId (bench_order now dr i) = word_of_nat i"
proof -
  obtain s q p where "dr i = (s, q, p)" by (metis prod_cases3)
  with assms have "1 \<le> q" "q \<le> 50" "95 \<le> p" "bench_order now dr i = limit_at (now i) (word_of_nat i) 1 s q p"
    unfolding draws_ok_def bench_order_def by auto
  then show "order_ok (bench_order now dr i)" "fresh_order (bench_order now dr i)" "getId (bench_order now dr i) = word_of_nat i"
    by (simp_all add: limit_at_def order_ok_def fresh_order_def price_ok_def int32_def)
qed

lemma word_of_nat_inj: "i < 2 ^ 64 \<Longrightarrow> j < 2 ^ 64 \<Longrightarrow> (word_of_nat i :: 64 word) = word_of_nat j \<Longrightarrow> i = j"
proof -
  assume a: "i < 2 ^ 64" "j < 2 ^ 64" "(word_of_nat i :: 64 word) = word_of_nat j"
  have "unat (word_of_nat k :: 64 word) = k" if "k < 2 ^ 64" for k :: nat
  proof -
    have "unat (word_of_nat k :: 64 word) = k mod 2 ^ LENGTH(64)" by (rule unat_of_nat)
    with that show ?thesis by simp
  qed
  with a show ?thesis by metis
qed

text \<open>The loop on the book never throws: all ids are new, whatever is still active.\<close>

lemma latencyLoop_runs:
  assumes "draws_ok dr N" and "N \<le> 2 ^ 64"
  shows "k \<le> N \<Longrightarrow> book_inv b \<Longrightarrow> dom (ownedOrders b) \<subseteq> word_of_nat ` {..<k} \<Longrightarrow>
    \<exists>b'. latencyLoop now clk dr us [k..<N] (b, ls) = Inr (b', ls @ map us [k..<N])"
proof (induction "N - k" arbitrary: k b ls)
  case (Suc d)
  then have k: "k < N" by simp
  let ?ord = "bench_order now dr k"
  note o = benchOrder_Inr [OF assms(1) k, of now] bench_order_ok [OF assms(1) k, of now]
  have "word_of_nat k \<notin> dom (ownedOrders b)"
  proof
    assume "word_of_nat k \<in> dom (ownedOrders b)"
    with Suc.prems(3) obtain j where "j < k" "(word_of_nat k :: 64 word) = word_of_nat j" by auto
    moreover have "k < 2 ^ 64" using k assms(2) by (rule less_le_trans)
    ultimately show False using word_of_nat_inj [of k j] by simp
  qed
  then have "ownedOrders b (getId ?ord) = None" using o(4) by (simp add: domIff)
  then obtain ts b1 where b1: "addOrder (clk k) b (Some ?ord) = Inr (ts, b1)" "book_inv b1"
    by (rule addOrder_keeps [OF Suc.prems(2) _ o(2)])
  from addOrder_active [OF Suc.prems(2) o(2) b1(1)] Suc.prems(3) o(4)
  have "dom (ownedOrders b1) \<subseteq> word_of_nat ` {..<Suc k}" by (auto simp: lessThan_Suc)
  moreover have "d = N - Suc k" "Suc k \<le> N" using Suc.hyps(2) k by simp_all
  ultimately obtain b' where
    "latencyLoop now clk dr us [Suc k..<N] (b1, ls @ [us k]) = Inr (b', (ls @ [us k]) @ map us [Suc k..<N])"
    using Suc.hyps(1) [of "Suc k" b1 "ls @ [us k]"] b1(2) by blast
  moreover have "[k..<N] = k # [Suc k..<N]" using k by (rule upt_conv_Cons)
  ultimately show ?case using o(1) b1(1) by simp
qed simp

lemma appendLoop_runs:
  "\<exists>evs'. appendLoop wall sample is evs = Inr (evs @ evs') \<and> map ev_seq evs' = map word_of_nat is"
proof (induction "is" arbitrary: evs)
  case (Cons i "is")
  obtain ev where ev: "makeSubmitEvent (wall i) sample (word_of_nat i) = Inr ev" "ev_seq ev = word_of_nat i"
    by (simp add: makeSubmitEvent_Inr)
  from Cons.IH [of "evs @ [ev]"] obtain evs' where "appendLoop wall sample is (evs @ [ev]) = Inr ((evs @ [ev]) @ evs')"
    "map ev_seq evs' = map word_of_nat is" by blast
  with ev show ?case by (intro exI [of _ "ev # evs'"]) (simp add: InMemoryJournal_def)
qed simp

lemma workload_Inr:
  assumes "draws_ok dr N"
  shows "workload now dr N = Inr (map (\<lambda>i. Submit (Some (bench_order now dr i))) [0..<N])"
proof -
  have "mapE (benchOrder now dr) [0..<N] = Inr (map (bench_order now dr) [0..<N])"
    using benchOrder_Inr [OF assms] by (intro mapE_Inr) simp
  then show ?thesis by (simp add: workload_def comp_def)
qed

lemma submits_facts:
  "only_commands (map (\<lambda>i. Submit (Some (f i))) is)"
  "pushed (map (\<lambda>i. Submit (Some (f i))) is) = map (\<lambda>i. Command_submit (Some (f i))) is"
  by (induction "is") simp_all

text \<open>The calls and the commands of a workload.\<close>

abbreviation bench_calls :: "bench_env \<Rightarrow> nat \<Rightarrow> nat \<Rightarrow> sys_label list" where
  "bench_calls env w N \<equiv> map (\<lambda>i. Submit (Some (bench_order (orderClock env w) (draws env w) i))) [0..<N]"

abbreviation bench_commands :: "bench_env \<Rightarrow> nat \<Rightarrow> nat \<Rightarrow> command list" where
  "bench_commands env w N \<equiv> map (\<lambda>i. Command_submit (Some (bench_order (orderClock env w) (draws env w) i))) [0..<N]"

text \<open>The recovery that is timed replays every event, as many as orders were submitted, and the trade log it
  rebuilds is that of the sequential specification for these orders.\<close>

lemma recoveryBenchmark_replays:
  assumes "draws_ok (draws env 4) N" and "N < 2 ^ 64"
    and "engine_session (bench_calls env 4 N) (session env 3) (with_journal []) \<noteq> None"
  shows "\<exists>log b. recoveryBenchmark env N out = Some (Inr (out\<lparr>recoveredEvents := int N, recoveryMs := Finite (replayMs env),
      recoveryEventsPerSec := per_second (fp env) N (replayMs env)\<rparr>, log)) \<and>
    applyCommands (bench_commands env 4 N) blank = Inr (map untimed_trade log, b)"
proof -
  let ?cmds = "bench_commands env 4 N"
  from assms(3) obtain engine where e: "engine_session (bench_calls env 4 N) (session env 3) (with_journal []) = Some engine" by auto
  note c = submits_facts [of "bench_order (orderClock env 4) (draws env 4)" "[0..<N]"]
  have s: "engine_sound InMemoryJournal (\<lambda>evs. evs) ?cmds engine"
    using session_mem_sound(2) [OF e with_journal_new(1) c(1) with_journal_new(2)] c(2) by simp
  have f: "\<forall>cmd \<in> set ?cmds. from_factory cmd"
    using bench_order_ok(2) [OF assms(1)] by (simp add: from_factory_def Command_submit_def)
  have "length ?cmds < 2 ^ 64" using assms(2) by simp
  from recover_with_journal [OF s f this, of "replayClock env"] obtain e' where
    r: "recover (replayClock env) (with_journal (events_of engine)) = Returns e'"
      "engine_sound InMemoryJournal (\<lambda>evs. evs) ?cmds e'" by blast
  have "journal_size (events_of engine) = N" using journaled_length [OF sound_journal [OF s]] by (simp add: journal_size_def)
  moreover have "applyCommands ?cmds blank = Inr (map untimed_trade (getTradeLog e'), snd (untimed_state e'))"
    using r(2) by (simp add: engine_sound_def untimed_state_def getTradeLog_def)
  ultimately show ?thesis
    using e r(1) by (auto simp: recoveryBenchmark_def workload_Inr [OF assms(1)])
qed

lemma throughputLoop_runs:
  assumes "\<forall>t \<in> set ts. draws_ok (draws env (t + 1)) N \<and>
    engine_session (bench_calls env (t + 1) N) (session env t) (new_Engine () :: (unit, unit, unit) engine) \<noteq> None"
  shows "\<exists>x. throughputLoop env N ts best = Some (Inr x)"
  using assms
proof (induction ts arbitrary: best)
  case (Cons t ts)
  then obtain x where "engineThroughputOnce env t N = Some (Inr x)"
    by (auto simp: engineThroughputOnce_def workload_Inr)
  with Cons show ?case by (simp add: Let_def)
qed simp

lemma persistenceBenchmark_runs:
  assumes "\<forall>t < 3. draws_ok (draws env (t + 1)) N \<and>
    engine_session (bench_calls env (t + 1) N) (session env t) (new_Engine () :: (unit, unit, unit) engine) \<noteq> None"
  shows "\<exists>x y z. persistenceBenchmark env N M out =
    Some (Inr (out\<lparr>engineThroughput := x, walNsPerEvent := y, walEventsPerSec := z\<rparr>))"
proof -
  have "\<forall>t \<in> set [0..<3]. draws_ok (draws env (t + 1)) N \<and>
    engine_session (bench_calls env (t + 1) N) (session env t) (new_Engine () :: (unit, unit, unit) engine) \<noteq> None"
    using assms by simp
  from throughputLoop_runs [OF this] obtain best where
    b: "throughputLoop env N [0..<3] (Finite (fp env (10 ^ 300))) = Some (Inr best)" by blast
  obtain sample where o: "createOrder (orderClock env 5 0) LIMIT 1 1 BUY 10 (Finite 100) = Inr sample"
    by (simp add: createOrder_limit)
  have "bindE (appendLoop (eventClock env t) sample [0..<M] []) (\<lambda>_. Inr ()) = Inr ()" for t
    using appendLoop_runs [of "eventClock env t" sample "[0..<M]" "[]"] by auto
  then obtain ms where
    "bestOfMs (fp env) 5 (\<lambda>t _. bindE (appendLoop (eventClock env t) sample [0..<M] []) (\<lambda>_. Inr ())) (appendMs env) () = Inr (ms, ())"
    using bestOfMs_runs [of "\<lambda>t _. bindE (appendLoop (eventClock env t) sample [0..<M] []) (\<lambda>_. Inr ())" "()"] by blast
  with b o show ?thesis by (auto simp: persistenceBenchmark_def Let_def simp del: upt_rec_numeral)
qed

text \<open>Percentiles of samples: read in range, ascending, at most the largest, which is reported last.\<close>

lemma last_sorted: "sorted xs \<Longrightarrow> xs \<noteq> [] \<Longrightarrow> last xs = Max (set xs :: rat set)"
proof (rule Max_eqI [symmetric])
  fix y
  assume "sorted xs" "xs \<noteq> []" "y \<in> set xs"
  then obtain i where i: "i < length xs" "y = xs ! i" by (metis in_set_conv_nth)
  then have "xs ! i \<le> xs ! (length xs - 1)" using \<open>sorted xs\<close> by (intro sorted_nth_mono) auto
  then show "y \<le> last xs" unfolding i(2) last_conv_nth [OF \<open>xs \<noteq> []\<close>] .
qed simp_all

lemma percentiles_ordered:
  assumes "mono r" and "exact_on_integers r" and "samples \<noteq> []" and "length samples \<le> 2 ^ 53"
    and "sorted ps" and "set ps \<subseteq> {0..1}"
  shows "\<exists>xs. percentiles r samples ps = Inr xs \<and> length xs = Suc (length ps) \<and> sorted xs \<and> set xs \<subseteq> set samples \<and>
    last xs = Max (set samples)"
proof -
  let ?s = "sort samples"
  let ?at = "\<lambda>p. ?s ! pctl_index r (length ?s) (r p)"
  have ne: "?s \<noteq> []" and len: "length ?s \<le> 2 ^ 53" using assms(3,4) by (metis length_0_conv length_sort, simp)
  have r01: "r 0 = 0" "r 1 = 1" using exactD [OF assms(2), of 0] exactD [OF assms(2), of 1] by simp_all
  have "0 \<le> r p" "r p \<le> 1" if "p \<in> set ps" for p using monoD [OF assms(1)] that assms(6) r01 by (metis atLeastAtMost_iff subsetD)+
  note at = pctl_in_range [OF assms(1,2) ne len this]
  have m: "mapE (\<lambda>p. pctl r ?s (r p)) ps = Inr (map ?at ps)" using at(2) by (rule mapE_Inr)
  have top: "last ?s = Max (set samples)" using last_sorted [OF sorted_sort ne] by simp
  have mem: "set (map ?at ps) \<subseteq> set samples" using at(1) nth_mem [of _ ?s] by auto
  have "?at p \<le> ?at q" if "p \<in> set ps" "q \<in> set ps" "p \<le> q" for p q
  proof (rule sorted_nth_mono [OF sorted_sort])
    show "pctl_index r (length ?s) (r p) \<le> pctl_index r (length ?s) (r q)"
      using r01(1) by (intro pctl_index_mono monoD [OF assms(1)] that(3) assms(1)) simp
    show "pctl_index r (length ?s) (r q) < length ?s" using at(1) [OF that(2,2)] .
  qed
  with assms(5) have "sorted (map ?at ps)" unfolding sorted_map by (rule sorted_wrt_mono_rel [rotated]) auto
  moreover have "\<forall>x \<in> set (map ?at ps). x \<le> last ?s" unfolding top using mem by (auto intro: Max_ge)
  ultimately have "sorted (map ?at ps @ [last ?s])" by (auto simp: sorted_append)
  moreover have "set (map ?at ps @ [last ?s]) \<subseteq> set samples" using mem last_in_set [OF ne] by simp
  moreover have "percentiles r samples ps = Inr (map ?at ps @ [last ?s])"
    using m ne by (simp add: percentiles_def Let_def vec_back_def)
  ultimately show ?thesis using top by (intro exI [of _ "map ?at ps @ [last ?s]"]) simp
qed

text \<open>The report of part 2: five measured durations in ascending order, the last of them the maximum.\<close>

lemma latencyBenchmark_report:
  assumes "mono (fp env)" and "exact_on_integers (fp env)" and "draws_ok (draws env 0) N" and "0 < N" and "N \<le> 2 ^ 53"
  shows "\<exists>a b c d. latencyBenchmark env N out = Inr (out\<lparr>p50 := Finite a, p95 := Finite b, p99 := Finite c, p999 := Finite d,
      maxUs := Finite (Max (latencyUs env ` {..<N})), matchThroughput := per_second (fp env) N (wallMs env)\<rparr>) \<and>
    sorted [a, b, c, d, Max (latencyUs env ` {..<N})] \<and> {a, b, c, d} \<subseteq> latencyUs env ` {..<N}"
proof -
  let ?us = "map (latencyUs env) [0..<N]"
  have dom: "dom (ownedOrders empty_book) \<subseteq> word_of_nat ` {..<0}" by (simp add: empty_book_def)
  have "N \<le> 2 ^ 64" using assms(5) by simp
  from latencyLoop_runs [OF assms(3) this le0 book_inv_empty dom, of "orderClock env 0" "tradeClock env" "latencyUs env" "[]"]
  obtain b where l: "latencyLoop (orderClock env 0) (tradeClock env) (draws env 0) (latencyUs env) [0..<N] (empty_book, []) = Inr (b, ?us)"
    by auto
  have img: "set ?us = latencyUs env ` {..<N}" by (simp add: atLeast0LessThan)
  have "?us \<noteq> []" "length ?us \<le> 2 ^ 53" using assms(4,5) by simp_all
  from percentiles_ordered [OF assms(1,2) this, of "[50 / 100, 95 / 100, 99 / 100, 999 / 1000]"]
  obtain xs where x: "percentiles (fp env) ?us [50 / 100, 95 / 100, 99 / 100, 999 / 1000] = Inr xs" "length xs = 5" "sorted xs"
    "set xs \<subseteq> latencyUs env ` {..<N}" "last xs = Max (latencyUs env ` {..<N})" unfolding img by auto
  from x(2) obtain a b' c d m where xs: "xs = [a, b', c, d, m]" by (auto simp: numeral_eq_Suc length_Suc_conv)
  have "m = Max (latencyUs env ` {..<N})" using x(5) unfolding xs by simp
  moreover have "latencyBenchmark env N out = Inr (out\<lparr>p50 := Finite a, p95 := Finite b', p99 := Finite c, p999 := Finite d,
      maxUs := Finite m, matchThroughput := per_second (fp env) N (wallMs env)\<rparr>)"
    unfolding latencyBenchmark_def l bindE_Inr prod.case x(1) unfolding xs by (simp add: numeral_eq_Suc)
  moreover have "{a, b', c, d} \<subseteq> latencyUs env ` {..<N}" using x(4) unfolding xs by simp
  ultimately show ?thesis using x(3) unfolding xs by blast
qed

text \<open>The report of part 1.\<close>

lemma batch_report:
  assumes "mono r" and "exact_on_integers r" and "0 < n" and "n \<le> 2 ^ 53"
  shows "\<exists>a b c. percentiles r (map f [0..<n]) [50 / 100, 99 / 100] = Inr [a, b, c] \<and> a \<le> b \<and> b \<le> c"
proof -
  have "map f [0..<n] \<noteq> []" "length (map f [0..<n]) \<le> 2 ^ 53" using assms(3,4) by simp_all
  from percentiles_ordered [OF assms(1,2) this, of "[50 / 100, 99 / 100]"] obtain xs where
    x: "percentiles r (map f [0..<n]) [50 / 100, 99 / 100] = Inr xs" "length xs = 3" "sorted xs" by auto
  from x(2) obtain a b c where "xs = [a, b, c]" by (auto simp: numeral_eq_Suc length_Suc_conv)
  with x show ?thesis by auto
qed

lemma allocationBenchmark_report:
  assumes "mono (fp env)" and "exact_on_integers (fp env)" and "0 < N div B" and "N div B \<le> 2 ^ 53"
  shows "\<exists>h pl a b c a' b' c'. allocationBenchmark env N B out = Inr (out\<lparr>poolSpeedup := fdiv (fp env) h pl, heapAllocP50 := Finite a,
      heapAllocP99 := Finite b, heapAllocMax := Finite c, poolAllocP50 := Finite a', poolAllocP99 := Finite b',
      poolAllocMax := Finite c'\<rparr>, h, pl) \<and> a \<le> b \<and> b \<le> c \<and> a' \<le> b' \<and> b' \<le> c'"
proof -
  let ?pool = "new_pool 1024 :: order pool"
  let ?heapNs = "map (\<lambda>b. fp env (heapBatchNs env b / of_nat B)) [0..<N div B]"
  let ?poolNs = "map (\<lambda>b. fp env (poolBatchNs env b / of_nat B)) [0..<N div B]"
  have "freeList ?pool \<noteq> []" by (simp add: new_pool_def)
  note pool = poolLoop_same [OF pool_inv_new this]
  obtain heap where h: "bestOfMs (fp env) 5 (\<lambda>t _. heapLoop (objectClock env t) [0..<N]) (heapMs env) () = Inr (heap, ())"
    using bestOfMs_runs [of "\<lambda>t _. heapLoop (objectClock env t) [0..<N]"] heapLoop_runs by blast
  obtain pl where p: "bestOfMs (fp env) 5 (\<lambda>t. poolLoop (objectClock env t) [0..<N]) (poolMs env) ?pool = Inr (pl, ?pool)"
    using bestOfMs_runs [of "\<lambda>t. poolLoop (objectClock env t) [0..<N]" ?pool] pool by blast
  have hb: "batchLoop (fp env) (\<lambda>b _. heapLoop (objectClock env b) [0..<B]) (heapBatchNs env) B [0..<N div B] ((), []) = Inr ((), ?heapNs)"
    by (subst batchLoop_runs) (simp_all add: heapLoop_runs)
  have pb: "batchLoop (fp env) (\<lambda>b. poolLoop (objectClock env b) [0..<B]) (poolBatchNs env) B [0..<N div B] (?pool, []) =
      Inr (?pool, ?poolNs)"
    by (subst batchLoop_runs) (simp_all add: pool)
  obtain a b c where hr: "percentiles (fp env) ?heapNs [50 / 100, 99 / 100] = Inr [a, b, c]" "a \<le> b" "b \<le> c"
    using batch_report [OF assms] by blast
  obtain a' b' c' where pr: "percentiles (fp env) ?poolNs [50 / 100, 99 / 100] = Inr [a', b', c']" "a' \<le> b'" "b' \<le> c'"
    using batch_report [OF assms] by blast
  have "allocationBenchmark env N B out = Inr (out\<lparr>poolSpeedup := fdiv (fp env) heap pl, heapAllocP50 := Finite a,
      heapAllocP99 := Finite b, heapAllocMax := Finite c, poolAllocP50 := Finite a', poolAllocP99 := Finite b',
      poolAllocMax := Finite c'\<rparr>, heap, pl)"
    unfolding allocationBenchmark_def Let_def using h p hb pb hr(1) pr(1) by simp
  with hr pr show ?thesis by blast
qed

end
