(* ===== verification/BenchmarkReport.thy ===== *)
theory BenchmarkReport
  imports Benchmarks
begin

text \<open>
  What \<open>benchmarks/benchmark.cpp\<close> prints, and its \<open>main\<close>: the items each part inserts into \<open>cout\<close>, with the
  manipulators between them, the state that these leave in the stream, and how a number is shown in it. The
  digits of a double are left to the library; what is modelled is the notation and precision it is shown with.
\<close>

section \<open>The stream\<close>

text \<open>What is inserted: texts, ends of lines, integers, doubles, \<open>std::fixed\<close> and \<open>std::setprecision\<close>.\<close>

datatype out_item = Text string | EndLine | Count int | Value double | Fixed | SetPrecision nat

text \<open>The formatting state, and the one \<open>cout\<close> has when a program starts.\<close>

record stream =
  fixedNotation :: bool
  precision :: nat

definition new_stream :: stream where
  "new_stream = \<lparr>fixedNotation = False, precision = 6\<rparr>"

fun put :: "out_item \<Rightarrow> stream \<Rightarrow> stream" where
  "put Fixed st = st\<lparr>fixedNotation := True\<rparr>"
| "put (SetPrecision k) st = st\<lparr>precision := k\<rparr>"
| "put _ st = st"

text \<open>What is read: a double with a number of digits after the point, or in all.\<close>

datatype shown = Chars string | NewLine | Integer int | AfterPoint nat double | Significant nat double

fun show_item :: "stream \<Rightarrow> out_item \<Rightarrow> shown list" where
  "show_item st (Text s) = [Chars s]"
| "show_item st EndLine = [NewLine]"
| "show_item st (Count i) = [Integer i]"
| "show_item st (Value x) = [if fixedNotation st then AfterPoint (precision st) x else Significant (precision st) x]"
| "show_item st Fixed = []"
| "show_item st (SetPrecision k) = []"

fun shown_in :: "stream \<Rightarrow> out_item list \<Rightarrow> shown list" where
  "shown_in st [] = []"
| "shown_in st (x # xs) = show_item st x @ shown_in (put x st) xs"

section \<open>The parts of the report\<close>

text \<open>Each part once its numbers are known.\<close>

definition allocation_report :: "rounding \<Rightarrow> nat \<Rightarrow> rat \<Rightarrow> rat \<Rightarrow> ResumeNumbers \<Rightarrow> out_item list" where
  "allocation_report r N heap pl out =
     [Text ''=== Part 1: heap allocation vs object pool ==='', EndLine,
      Fixed, SetPrecision 4, Text ''Heap new/delete : '', Count (int N), Text '' objects in '', Value (Finite heap),
      Text '' ms'', EndLine,
      Text ''Object pool     : '', Count (int N), Text '' objects in '', Value (Finite pl), Text '' ms'', EndLine,
      SetPrecision 2, Text ''Speedup: '', Value (poolSpeedup out), Text ''x'', EndLine,
      SetPrecision 1, Text ''Per-op latency (ns), heap vs pool:'', EndLine,
      Text ''  p50: '', Value (heapAllocP50 out), Text '' vs '', Value (poolAllocP50 out), Text ''   (pool '',
      SetPrecision 2, Value (ddiv r (heapAllocP50 out) (poolAllocP50 out)), Text ''x faster at the median)'',
      EndLine,
      SetPrecision 1, Text ''  p99: '', Value (heapAllocP99 out), Text '' vs '', Value (poolAllocP99 out), EndLine,
      Text ''  max: '', Value (heapAllocMax out), Text '' vs '', Value (poolAllocMax out), EndLine,
      Text ''  NOTE: p50 is pure allocator cost, and the pool reliably wins it.'', EndLine,
      Text ''  The p99/max tail of a tens-of-ns op on a SHARED VM is dominated by OS'', EndLine,
      Text ''  preemption, not the allocator, so the tail flips run to run. Read p50'', EndLine,
      Text ''  as the allocator signal here; the tail wants a quiet, core-pinned box.'', EndLine,
      EndLine]"

definition latency_report :: "rounding \<Rightarrow> nat \<Rightarrow> ResumeNumbers \<Rightarrow> out_item list" where
  "latency_report r N out =
     [Text ''=== Part 2: order-matching latency percentiles + throughput ==='', EndLine,
      Fixed, SetPrecision 3, Text ''Processed '', Count (int N), Text '' orders'', EndLine,
      Text ''  p50 (median): '', Value (p50 out), Text '' us'', EndLine,
      Text ''  p95:          '', Value (p95 out), Text '' us'', EndLine,
      Text ''  p99:          '', Value (p99 out), Text '' us'', EndLine,
      Text ''  p99.9:        '', Value (p999 out), Text '' us'', EndLine,
      Text ''  max:          '', Value (maxUs out), Text '' us'', EndLine,
      Text ''  throughput:   '', SetPrecision 0, Value (matchThroughput out), Text '' orders/sec (pure matching)'',
      EndLine,
      SetPrecision 3, Text ''  (p99 vs p50 ratio: '', Value (ddiv r (p99 out) (p50 out)),
      Text ''x - shows tail latency spread)'', EndLine,
      EndLine]"

definition persistence_report :: "ResumeNumbers \<Rightarrow> out_item list" where
  "persistence_report out =
     [Text ''=== Part 3a: full-engine throughput (queue + matching) ==='', EndLine,
      SetPrecision 0, Text ''End-to-end engine: '', Value (engineThroughput out), Text '' orders/sec'',
      Text '' (vs '', Value (matchThroughput out), Text '' pure matching -> the gap is the'',
      Text '' thread-safe queue handoff)'', EndLine,
      EndLine,
      Text ''=== Part 3b: journal append cost (in-memory, enqueue-only path) ==='', EndLine,
      SetPrecision 1, Text ''In-memory append: '', Value (walNsPerEvent out), Text '' ns/event  ('', SetPrecision 0,
      Value (walEventsPerSec out), Text '' events/sec)'', EndLine,
      Text ''=> the append path builds an event and enqueues it; it does NO'', EndLine,
      Text ''   disk/network I/O. Durability cost (the fsync) is paid on a'', EndLine,
      Text ''   background thread and amortized by batching in PostgresJournal.'', EndLine,
      EndLine]"

definition recovery_report :: "ResumeNumbers \<Rightarrow> trade list \<Rightarrow> out_item list" where
  "recovery_report out trades =
     [Text ''=== Part 4: crash-recovery (deterministic log replay) ==='', EndLine,
      SetPrecision 3, Text ''Replayed '', Count (recoveredEvents out), Text '' journaled events in '',
      Value (recoveryMs out), Text '' ms'', EndLine,
      SetPrecision 0, Text ''Recovery speed: '', Value (recoveryEventsPerSec out), Text '' events/sec'', EndLine,
      Text ''Rebuilt trade log size: '', Count (int (length trades)), Text '' trades'', EndLine,
      EndLine]"

definition printResumeBlock :: "ResumeNumbers \<Rightarrow> out_item list" where
  "printResumeBlock r =
     [Text ''======================================================'', EndLine,
      Text '' HEADLINE NUMBERS (this run, this machine)'', EndLine,
      Text ''======================================================'', EndLine,
      SetPrecision 2, Text '' Object pool vs new/delete .... '', Value (poolSpeedup r), Text ''x faster'', EndLine,
      SetPrecision 1, Text '' Alloc p50 ns (heap vs pool) .. '', Value (heapAllocP50 r), Text '' vs '',
      Value (poolAllocP50 r), Text ''  (pool faster at the median)'', EndLine,
      SetPrecision 0, Text '' Matching throughput .......... '', Value (matchThroughput r), Text '' orders/sec'',
      EndLine,
      SetPrecision 3, Text '' Matching latency p50/p99/p99.9 '', Value (p50 r), Text '' / '', Value (p99 r),
      Text '' / '', Value (p999 r), Text '' us'', EndLine,
      SetPrecision 0, Text '' Engine throughput (end-to-end) '', Value (engineThroughput r), Text '' orders/sec'',
      EndLine,
      SetPrecision 1, Text '' Journal append (enqueue) ..... '', Value (walNsPerEvent r), Text '' ns/event'',
      EndLine,
      SetPrecision 0, Text '' Crash recovery ............... '', Count (recoveredEvents r), Text '' events in '',
      SetPrecision 1, Value (recoveryMs r), Text '' ms ('', SetPrecision 0, Value (recoveryEventsPerSec r),
      Text '' events/sec)'', EndLine,
      Text ''======================================================'', EndLine,
      Text ''NOTE: run on your own multi-core machine for headline figures;'', EndLine,
      Text ''these are real measurements but the sandbox HW is constrained.'', EndLine]"

section \<open>The program\<close>

text \<open>The sizes of the workloads, and those of the program.\<close>

record bench_sizes =
  allocations :: nat
  batchSize :: nat
  latencyOrders :: nat
  engineOrders :: nat
  appends :: nat
  recoveryOrders :: nat

definition program_sizes :: bench_sizes where
  "program_sizes = \<lparr>allocations = 500000, batchSize = 100, latencyOrders = 100000, engineOrders = 200000, appends = 1000000,
     recoveryOrders = 200000\<rparr>"

text \<open>The exit code, the numbers and the output of \<open>main\<close>, which has no handler: an error of a part ends the program.\<close>

definition benchmark_main :: "bench_sizes \<Rightarrow> bench_env \<Rightarrow> (int \<times> ResumeNumbers \<times> out_item list) result option" where
  "benchmark_main sz env =
     bindT (Some (allocationBenchmark env (allocations sz) (batchSize sz) new_ResumeNumbers)) (\<lambda>(r1, heap, pl).
     bindT (Some (latencyBenchmark env (latencyOrders sz) r1)) (\<lambda>r2.
     bindT (persistenceBenchmark env (engineOrders sz) (appends sz) r2) (\<lambda>r3.
     bindT (recoveryBenchmark env (recoveryOrders sz) r3) (\<lambda>(r4, log).
     Some (Inr (0, r4,
       allocation_report (fp env) (allocations sz) heap pl r1 @ latency_report (fp env) (latencyOrders sz) r2 @
       persistence_report r3 @ recovery_report r4 log @ printResumeBlock r4))))))"

section \<open>The stream is left in fixed notation\<close>

text \<open>The state after a list of items.\<close>

definition stream_after :: "stream \<Rightarrow> out_item list \<Rightarrow> stream" where
  "stream_after st xs = fold put xs st"

lemma shown_in_append [simp]: "shown_in st (xs @ ys) = shown_in st xs @ shown_in (stream_after st xs) ys"
  by (induction xs arbitrary: st) (simp_all add: stream_after_def)

lemma fixed_put: "fixedNotation (put x st) \<longleftrightarrow> fixedNotation st \<or> x = Fixed"
  by (cases x) simp_all

lemma fixed_after: "fixedNotation (stream_after st xs) \<longleftrightarrow> fixedNotation st \<or> Fixed \<in> set xs"
  by (induction xs arbitrary: st) (auto simp: stream_after_def fixed_put)

lemma stream_after_append [simp]: "stream_after st (xs @ ys) = stream_after (stream_after st xs) ys"
  by (simp add: stream_after_def)

text \<open>No double is shown with significant digits.\<close>

definition all_fixed :: "shown list \<Rightarrow> bool" where
  "all_fixed ps \<longleftrightarrow> list_all (\<lambda>p. case p of Significant k x \<Rightarrow> False | _ \<Rightarrow> True) ps"

lemma shown_in_fixed: "fixedNotation st \<Longrightarrow> all_fixed (shown_in st xs)"
proof (induction xs arbitrary: st)
  case (Cons x xs)
  then have "all_fixed (shown_in (put x st) xs)" by (simp add: fixed_put)
  with Cons.prems show ?case by (cases x) (simp_all add: all_fixed_def)
qed (simp add: all_fixed_def)

lemma allocation_report_fixed:
  "all_fixed (shown_in new_stream (allocation_report r N heap pl out))"
  "fixedNotation (stream_after new_stream (allocation_report r N heap pl out))"
  unfolding fixed_after by (simp_all add: allocation_report_def all_fixed_def new_stream_def)

text \<open>The headline as it is read, whatever precision the parts before it left.\<close>

definition headline :: "ResumeNumbers \<Rightarrow> shown list" where
  "headline r =
     [Chars ''======================================================'', NewLine,
      Chars '' HEADLINE NUMBERS (this run, this machine)'', NewLine,
      Chars ''======================================================'', NewLine,
      Chars '' Object pool vs new/delete .... '', AfterPoint 2 (poolSpeedup r), Chars ''x faster'', NewLine,
      Chars '' Alloc p50 ns (heap vs pool) .. '', AfterPoint 1 (heapAllocP50 r), Chars '' vs '',
      AfterPoint 1 (poolAllocP50 r), Chars ''  (pool faster at the median)'', NewLine,
      Chars '' Matching throughput .......... '', AfterPoint 0 (matchThroughput r), Chars '' orders/sec'', NewLine,
      Chars '' Matching latency p50/p99/p99.9 '', AfterPoint 3 (p50 r), Chars '' / '', AfterPoint 3 (p99 r),
      Chars '' / '', AfterPoint 3 (p999 r), Chars '' us'', NewLine,
      Chars '' Engine throughput (end-to-end) '', AfterPoint 0 (engineThroughput r), Chars '' orders/sec'', NewLine,
      Chars '' Journal append (enqueue) ..... '', AfterPoint 1 (walNsPerEvent r), Chars '' ns/event'', NewLine,
      Chars '' Crash recovery ............... '', Integer (recoveredEvents r), Chars '' events in '',
      AfterPoint 1 (recoveryMs r), Chars '' ms ('', AfterPoint 0 (recoveryEventsPerSec r), Chars '' events/sec)'',
      NewLine,
      Chars ''======================================================'', NewLine,
      Chars ''NOTE: run on your own multi-core machine for headline figures;'', NewLine,
      Chars ''these are real measurements but the sandbox HW is constrained.'', NewLine]"

lemma printResumeBlock_shown: "fixedNotation st \<Longrightarrow> shown_in st (printResumeBlock r) = headline r"
  by (simp add: printResumeBlock_def headline_def)

definition rebuilt_line :: "trade list \<Rightarrow> shown list" where
  "rebuilt_line trades = [Chars ''Rebuilt trade log size: '', Integer (int (length trades)), Chars '' trades'', NewLine, NewLine]"

lemma recovery_report_ends: "\<exists>ps. shown_in st (recovery_report out trades) = ps @ rebuilt_line trades"
  by (simp add: recovery_report_def rebuilt_line_def)

lemma report_shown:
  "\<exists>front. shown_in new_stream (allocation_report r N heap pl r1 @ latency_report r' N' r2 @ persistence_report r3 @
     recovery_report r4 trades @ printResumeBlock r4) = front @ rebuilt_line trades @ headline r4 \<and> all_fixed (front @ rebuilt_line trades @ headline r4)"
proof -
  let ?st = "stream_after new_stream (allocation_report r N heap pl r1)"
  let ?st' = "stream_after (stream_after ?st (latency_report r' N' r2)) (persistence_report r3)"
  have st: "fixedNotation ?st" "fixedNotation ?st'" using allocation_report_fixed(2) by (simp_all add: fixed_after)
  obtain ps where ps: "shown_in ?st' (recovery_report r4 trades) = ps @ rebuilt_line trades" using recovery_report_ends by blast
  have hd: "shown_in (stream_after ?st' (recovery_report r4 trades)) (printResumeBlock r4) = headline r4"
    using st(2) by (simp add: printResumeBlock_shown fixed_after)
  have rest: "shown_in ?st (latency_report r' N' r2 @ persistence_report r3 @ recovery_report r4 trades @ printResumeBlock r4) =
      shown_in ?st (latency_report r' N' r2) @ shown_in (stream_after ?st (latency_report r' N' r2)) (persistence_report r3) @
      ps @ rebuilt_line trades @ headline r4"
    by (simp only: shown_in_append ps hd append_assoc)
  let ?front = "shown_in new_stream (allocation_report r N heap pl r1) @ shown_in ?st (latency_report r' N' r2) @
      shown_in (stream_after ?st (latency_report r' N' r2)) (persistence_report r3) @ ps"
  have "all_fixed (?front @ rebuilt_line trades @ headline r4)"
    using allocation_report_fixed(1) [of r N heap pl r1] shown_in_fixed [OF st(1), of "latency_report r' N' r2 @ persistence_report r3 @ recovery_report r4 trades @ printResumeBlock r4",
      unfolded rest] unfolding all_fixed_def
    by (simp only: list_all_append append_assoc)
  with rest show ?thesis by (intro exI [of _ ?front]) (simp only: shown_in_append append_assoc)
qed

section \<open>Properties\<close>

text \<open>The rounding is monotone and exact on the integers of doubles, the draws are in the ranges of the
  distributions, and the four engine sessions have come to their end (\<open>session_completes\<close>: each can).\<close>

definition sizes_ok :: "bench_sizes \<Rightarrow> bool" where
  "sizes_ok sz \<longleftrightarrow> 0 < allocations sz div batchSize sz \<and> allocations sz div batchSize sz \<le> 2 ^ 53 \<and>
     0 < latencyOrders sz \<and> latencyOrders sz \<le> 2 ^ 53 \<and> recoveryOrders sz < 2 ^ 64"

definition measured :: "bench_sizes \<Rightarrow> bench_env \<Rightarrow> bool" where
  "measured sz env \<longleftrightarrow> mono (fp env) \<and> exact_on_integers (fp env) \<and>
     draws_ok (draws env 0) (latencyOrders sz) \<and> (\<forall>t < 3. draws_ok (draws env (t + 1)) (engineOrders sz)) \<and>
     draws_ok (draws env 4) (recoveryOrders sz) \<and>
     (\<forall>t < 3. engine_session (bench_calls env (t + 1) (engineOrders sz)) (session env t) (new_Engine () :: (unit, unit, unit) engine) \<noteq> None) \<and>
     engine_session (bench_calls env 4 (recoveryOrders sz)) (session env 3) (with_journal []) \<noteq> None"

lemma program_sizes_ok: "sizes_ok program_sizes"
  by (simp add: sizes_ok_def program_sizes_def)

text \<open>A run of a small size, in which every session handles its orders after the last was submitted.\<close>

definition sample_sizes :: bench_sizes where
  "sample_sizes = \<lparr>allocations = 4, batchSize = 2, latencyOrders = 3, engineOrders = 1, appends = 2, recoveryOrders = 2\<rparr>"

definition bench_draws :: "nat \<Rightarrow> side \<times> int \<times> rat" where
  "bench_draws i = (if i = 1 then BUY else SELL, 5, 100)"

definition sample_session :: "nat \<Rightarrow> sys_label list" where
  "sample_session n = Start # map (\<lambda>i. Submit (Some (bench_order (\<lambda>_. 0) bench_draws i))) [0..<n] @ StopSignal #
     replicate (n + 1) (Round at_zero)"

definition sample_bench :: bench_env where
  "sample_bench =
     \<lparr>fp = (\<lambda>x. x), heapMs = (\<lambda>t. of_nat (t + 3)), poolMs = (\<lambda>t. of_nat (t + 1)), heapBatchNs = (\<lambda>b. of_nat (9 - b)),
      poolBatchNs = (\<lambda>b. of_nat (4 + b)), objectClock = (\<lambda>_ _. 0), draws = (\<lambda>_. bench_draws), orderClock = (\<lambda>_ _. 0),
      tradeClock = (\<lambda>_ _. 0), latencyUs = (\<lambda>i. of_nat (7 * i mod 5)), wallMs = 8,
      session = (\<lambda>t. sample_session (if t = 3 then 2 else 1)), engineMs = (\<lambda>_. 2), eventClock = (\<lambda>_ _. 0), appendMs = (\<lambda>_. 1),
      replayClock = (\<lambda>_. at_zero), replayMs = 1\<rparr>"

lemma sample_sessions:
  "engine_session (bench_calls sample_bench 1 1) (sample_session 1) (new_Engine () :: (unit, unit, unit) engine) \<noteq> None"
  "engine_session (bench_calls sample_bench 4 2) (sample_session 2) (with_journal []) \<noteq> None"
  by code_simp+

lemma sample_measured: "sizes_ok sample_sizes" "measured sample_sizes sample_bench"
proof -
  have "mono (\<lambda>x :: rat. x)" "exact_on_integers (\<lambda>x. x)" by (simp_all add: mono_def exact_on_integers_def)
  moreover have "draws_ok bench_draws n" for n by (simp add: draws_ok_def bench_draws_def)
  moreover have "bench_calls sample_bench w n = bench_calls sample_bench v n" for w v n by (simp add: sample_bench_def)
  ultimately show "measured sample_sizes sample_bench"
    using sample_sessions unfolding measured_def by (simp add: sample_bench_def sample_sizes_def)
qed (simp add: sizes_ok_def sample_sizes_def)

text \<open>C40: the benchmark program returns 0 with a well-formed report. With any monotone rounding that is exact on the
  integers of doubles, for all draws in the ranges of the distributions and all measured durations, once its
  engine sessions have ended nothing throws and no vector is read out of range; the percentiles of the two
  allocators and of matching are in ascending order and the slowest match is the maximum of the measured
  ones; the number of recovered events is the number of submitted orders. Every double of the output is read
  in fixed notation; the output ends with the headline of these numbers, each with its own digits after the
  point, and before it the size of the trade log that was rebuilt, which is that of the sequential
  specification.\<close>

theorem benchmark_report_ordered:
  assumes "sizes_ok sz" and "measured sz env"
  shows "\<exists>out items front log b. benchmark_main sz env = Some (Inr (0, out, items)) \<and>
    sorted_wrt (\<le>) [heapAllocP50 out, heapAllocP99 out, heapAllocMax out] \<and>
    sorted_wrt (\<le>) [poolAllocP50 out, poolAllocP99 out, poolAllocMax out] \<and>
    sorted_wrt (\<le>) [p50 out, p95 out, p99 out, p999 out, maxUs out] \<and>
    maxUs out = Finite (Max (latencyUs env ` {..<latencyOrders sz})) \<and>
    recoveredEvents out = int (recoveryOrders sz) \<and>
    all_fixed (shown_in new_stream items) \<and>
    shown_in new_stream items = front @ rebuilt_line log @ headline out \<and>
    applyCommands (bench_commands env 4 (recoveryOrders sz)) blank = Inr (map untimed_trade log, b)"
proof -
  have sz: "0 < allocations sz div batchSize sz" "allocations sz div batchSize sz \<le> 2 ^ 53" "0 < latencyOrders sz"
    "latencyOrders sz \<le> 2 ^ 53" "recoveryOrders sz < 2 ^ 64" using assms(1) by (simp_all add: sizes_ok_def)
  have env: "mono (fp env)" "exact_on_integers (fp env)" "draws_ok (draws env 0) (latencyOrders sz)"
    "draws_ok (draws env 4) (recoveryOrders sz)"
    "engine_session (bench_calls env 4 (recoveryOrders sz)) (session env 3) (with_journal []) \<noteq> None"
    and eng: "\<forall>t < 3. draws_ok (draws env (t + 1)) (engineOrders sz) \<and>
      engine_session (bench_calls env (t + 1) (engineOrders sz)) (session env t) (new_Engine () :: (unit, unit, unit) engine) \<noteq> None"
    using assms(2) unfolding measured_def by blast+
  obtain h pl a b c a' b' c' where r1: "allocationBenchmark env (allocations sz) (batchSize sz) new_ResumeNumbers =
      Inr (new_ResumeNumbers\<lparr>poolSpeedup := fdiv (fp env) h pl, heapAllocP50 := Finite a, heapAllocP99 := Finite b, heapAllocMax := Finite c,
        poolAllocP50 := Finite a', poolAllocP99 := Finite b', poolAllocMax := Finite c'\<rparr>, h, pl)"
    (is "_ = Inr (?r1, _, _)") "a \<le> b" "b \<le> c" "a' \<le> b'" "b' \<le> c'" using allocationBenchmark_report [OF env(1,2) sz(1,2)] by blast
  let ?m = "Max (latencyUs env ` {..<latencyOrders sz})"
  obtain q1 q2 q3 q4 where r2: "latencyBenchmark env (latencyOrders sz) ?r1 = Inr (?r1\<lparr>p50 := Finite q1, p95 := Finite q2,
      p99 := Finite q3, p999 := Finite q4, maxUs := Finite ?m, matchThroughput := per_second (fp env) (latencyOrders sz) (wallMs env)\<rparr>)"
    (is "_ = Inr ?r2") "sorted [q1, q2, q3, q4, ?m]"
    using latencyBenchmark_report [OF env(1-3) sz(3,4)] by blast
  obtain y z w where r3: "persistenceBenchmark env (engineOrders sz) (appends sz) ?r2 =
      Some (Inr (?r2\<lparr>engineThroughput := y, walNsPerEvent := z, walEventsPerSec := w\<rparr>))"
    (is "_ = Some (Inr ?r3)") using persistenceBenchmark_runs [OF eng] by blast
  obtain log bk where r4: "recoveryBenchmark env (recoveryOrders sz) ?r3 = Some (Inr (?r3\<lparr>recoveredEvents := int (recoveryOrders sz),
      recoveryMs := Finite (replayMs env), recoveryEventsPerSec := per_second (fp env) (recoveryOrders sz) (replayMs env)\<rparr>, log))"
    (is "_ = Some (Inr (?r4, _))")
    "applyCommands (bench_commands env 4 (recoveryOrders sz)) blank = Inr (map untimed_trade log, bk)" using recoveryBenchmark_replays [OF env(4) sz(5) env(5)] by blast
  obtain front where f: "shown_in new_stream
      (allocation_report (fp env) (allocations sz) h pl ?r1 @ latency_report (fp env) (latencyOrders sz) ?r2 @
       persistence_report ?r3 @ recovery_report ?r4 log @ printResumeBlock ?r4) = front @ rebuilt_line log @ headline ?r4"
    "all_fixed (front @ rebuilt_line log @ headline ?r4)" using report_shown by blast
  have m: "benchmark_main sz env = Some (Inr (0, ?r4,
      allocation_report (fp env) (allocations sz) h pl ?r1 @ latency_report (fp env) (latencyOrders sz) ?r2 @
       persistence_report ?r3 @ recovery_report ?r4 log @ printResumeBlock ?r4))"
    by (simp only: benchmark_main_def r1(1) r2(1) r3 r4(1) bindT_simps prod.case)
  show ?thesis
  proof (intro exI conjI)
    show "all_fixed (shown_in new_stream (allocation_report (fp env) (allocations sz) h pl ?r1 @
        latency_report (fp env) (latencyOrders sz) ?r2 @ persistence_report ?r3 @ recovery_report ?r4 log @ printResumeBlock ?r4))"
      unfolding f(1) by (rule f(2))
  qed (rule m f(1) r4(2) | use r1(2-5) r2(2) in simp)+
qed

theorem benchmark_report_ordered_witness:
  "\<exists>out items. benchmark_main sample_sizes sample_bench = Some (Inr (0, out, items)) \<and> recoveredEvents out = 2 \<and> maxUs out = Finite 4 \<and> all_fixed (shown_in new_stream items)"
proof -
  have "Max (latencyUs sample_bench ` {..<latencyOrders sample_sizes}) = 4"
  proof -
    have "{..<3 :: nat} = {0, 1, 2}" by auto
    then show ?thesis by (simp add: sample_bench_def sample_sizes_def)
  qed
  with benchmark_report_ordered [OF sample_measured] show ?thesis by (auto simp: sample_sizes_def)
qed

end
