(* ===== verification/DurableStop.thy ===== *)
theory DurableStop
  imports CrashRecovery
begin

text \<open>
  \<open>Engine::stop\<close> over a \<open>PostgresJournal\<close> returns. On a healthy database and on one that fails transactions: the
  matching thread drains the queue, the \<open>join\<close> returns, and the writer gets to where \<open>flush()\<close> returns.
\<close>

section \<open>What holds of the journal on any database\<close>

definition writer_alive :: "'d pg_journal \<Rightarrow> bool" where
  "writer_alive j \<longleftrightarrow> \<not> pg_stopping j \<and> writer j \<noteq> Exited"

definition stop_inv :: "'d database \<Rightarrow> 'd surroundings \<Rightarrow> ('d, 's, 'u) durable \<Rightarrow> bool" where
  "stop_inv D env s \<longleftrightarrow> durable_control s \<and>
     (\<exists>j n. journal (eng (process s)) = Some (PostgresJournal_vtable D env, j) \<and> pg_counted n j \<and> writer_alive j \<and>
        (\<forall>target. flushing s = Some target \<longrightarrow> target = enqueued j))"

lemma writer_step_alive: "writer_alive j \<Longrightarrow> writer_step D j = Some j' \<Longrightarrow> writer_alive j'"
  by (auto simp: writer_alive_def writer_step_def writer_take_def writer_commit_def writer_count_def Let_def
      split: writer_pc.splits if_splits outcome.splits)

lemma writer_steps_alive: "writer_alive j \<Longrightarrow> writer_alive (writer_steps D k j)"
  by (induction k arbitrary: j) (auto dest: writer_step_alive split: option.split)

lemma call_alive:
  "writer_alive j \<Longrightarrow> writer_alive (append_op (PostgresJournal_vtable D env) ev j)"
  "writer_alive j \<Longrightarrow> writer_alive (recordTrade_op (PostgresJournal_vtable D env) t j)"
  by (auto simp: PostgresJournal_vtable_def writer_meanwhile_def pg_append_def pg_recordTrade_def writer_alive_def
      intro!: writer_steps_alive [unfolded writer_alive_def])

lemma stop_inv_step:
  assumes "stop_inv D env s" and "durable_next D l s = Some s'"
  shows "stop_inv D env s'"
proof -
  let ?J = "PostgresJournal_vtable D env"
  from assms(1) obtain j n where i: "durable_control s" "journal (eng (process s)) = Some (?J, j)" "pg_counted n j"
    "writer_alive j" "\<forall>target. flushing s = Some target \<longrightarrow> target = enqueued j" by (auto simp: stop_inv_def)
  note c = durable_control_step [OF i(1) assms(2)]
  have "\<exists>j n. journal (eng (process s')) = Some (?J, j) \<and> pg_counted n j \<and> writer_alive j \<and>
      (\<forall>target. flushing s' = Some target \<longrightarrow> target = enqueued j)"
  proof (cases l)
    case (Sys l')
    with assms(2) obtain p where p: "l' \<noteq> StopJoin" "sys_next l' (process s) = Some p" "s' = s\<lparr>process := p\<rparr>"
      by (cases l') (auto simp: durable_next_def Let_def split: if_splits)
    show ?thesis
    proof (cases "\<exists>rd. l' = Round rd")
      case True
      then obtain rd where "sys_next (Round rd) (process s) = Some p" using p(2) by auto
      then show ?thesis
      proof (cases rule: round_cases)
        case break
        with i p(3) show ?thesis by auto
      next
        case (handle cmd q out)
        have "flushing s = None" using i(1) handle(5) by (auto simp: durable_control_def Let_def split: if_splits)
        moreover have e: "journal (eng (process s)\<lparr>incomingQueue := q\<rparr>) = Some (?J, j)" using i(2) by simp
        from processCommand_counted [OF e i(3), of rd cmd] obtain j' n' where
          j': "journal (after out) = Some (?J, j')" "pg_counted n' j'" unfolding handle(2) by blast
        moreover have "writer_alive j'"
          using processCommand_closed [of writer_alive ?J, OF call_alive e i(4), of rd cmd] j'(1) handle(2) by auto
        ultimately show ?thesis using p(3) handle(3) by auto
      qed
    next
      case False
      with p(1,2) have "journal (eng p) = journal (eng (process s))"
        by (cases l') (auto simp: sys_next_def submitOrder_def engine_cancelOrder_def stop_signal_def start_def join_def
            split: if_splits thread_state.splits)
      with i p(3) show ?thesis by auto
    qed
  next
    case StopFlush
    with assms(2) i show ?thesis
      by (auto simp: durable_next_def Let_def join_def flush_target_def split: if_splits option.splits thread_state.splits)
  next
    case FlushReturn
    with assms(2) i show ?thesis by (auto simp: durable_next_def Let_def split: if_splits option.splits)
  next
    case Writer
    with assms(2) i(2) obtain j' where j': "writer_step D j = Some j'"
      "s' = s\<lparr>process := (process s)\<lparr>eng := (eng (process s))\<lparr>journal := Some (?J, j')\<rparr>\<rparr>\<rparr>"
      by (auto simp: durable_next_def Let_def split: if_splits)
    from writer_step_counted [OF i(3) j'(1)] writer_step_alive [OF i(4) j'(1)] i(5) j'(2) show ?thesis by auto
  qed
  with c show ?thesis by (auto simp: stop_inv_def)
qed

lemma stop_inv_run: "durable_run D s0 tr s \<Longrightarrow> stop_inv D env s0 \<Longrightarrow> stop_inv D env s"
  by (induction rule: durable_run.induct) (auto intro: stop_inv_step)

lemma stop_inv_start:
  assumes "new_PostgresJournal D d = Inr j" and "journal e = Some (PostgresJournal_vtable D env, j)" and "stopped e"
  shows "stop_inv D env (durable_start e)"
proof -
  have "writer_alive j" using assms(1) by (auto simp: writer_alive_def new_PostgresJournal_def split: outcome.splits)
  with pg_new_counted [OF assms(1)] assms(2,3) show ?thesis
    by (auto simp: stop_inv_def durable_start_def durable_control_def control_inv_def stopped_def Let_def)
qed

section \<open>From the signal to the return\<close>

lemma durable_rounds:
  "exec_labels (map Round rs) (process s) = Some p \<Longrightarrow> durable_exec D (map (\<lambda>rd. Sys (Round rd)) rs) s = Some (s\<lparr>process := p\<rparr>)"
proof (induction rs arbitrary: s)
  case (Cons rd rs)
  then obtain p1 where p1: "sys_next (Round rd) (process s) = Some p1" "exec_labels (map Round rs) p1 = Some p"
    by (auto split: option.splits)
  then have "durable_next D (Sys (Round rd)) s = Some (s\<lparr>process := p1\<rparr>)"
    by (auto simp: durable_next_def Let_def sys_next_def split: if_splits)
  with Cons.IH [of "s\<lparr>process := p1\<rparr>"] p1(2) show ?case by simp
qed simp

lemma durable_writer_steps:
  assumes "journal (eng (process s)) = Some (V, j)" and "terminated (process s) = None"
  shows "\<exists>m \<le> k. durable_exec D (replicate m Writer) s =
    Some (s\<lparr>process := (process s)\<lparr>eng := (eng (process s))\<lparr>journal := Some (V, writer_steps D k j)\<rparr>\<rparr>\<rparr>)"
  using assms
proof (induction k arbitrary: s j)
  case 0
  then show ?case by simp
next
  case (Suc k)
  show ?case
  proof (cases "writer_step D j")
    case None
    with Suc.prems(1) show ?thesis by (intro exI [of _ 0]) simp
  next
    case (Some j')
    let ?s = "s\<lparr>process := (process s)\<lparr>eng := (eng (process s))\<lparr>journal := Some (V, j')\<rparr>\<rparr>\<rparr>"
    have n: "durable_next D Writer s = Some ?s" using Suc.prems Some by (simp add: durable_next_def Let_def)
    obtain m where "m \<le> k" "durable_exec D (replicate m Writer) ?s =
      Some (?s\<lparr>process := (process ?s)\<lparr>eng := (eng (process ?s))\<lparr>journal := Some (V, writer_steps D k j')\<rparr>\<rparr>\<rparr>)"
      using Suc.IH [of ?s j'] Suc.prems(2) by auto
    with n Some show ?thesis by (intro exI [of _ "Suc m"]) simp
  qed
qed

text \<open>A \<open>flush()\<close> in progress returns after at most five steps of the writer.\<close>

lemma flush_part:
  assumes "stop_inv D env s" and "flushing s = Some target" and "terminated (process s) = None"
  shows "\<exists>m s'. m \<le> 5 \<and> durable_exec D (replicate m Writer @ [FlushReturn]) s = Some s' \<and> flushing s' = None \<and>
    \<not> in_stop (process s') \<and> matchingThread (eng (process s')) = not_joinable"
proof -
  let ?J = "PostgresJournal_vtable D env"
  from assms(1,2) obtain j n where i: "durable_control s" "journal (eng (process s)) = Some (?J, j)" "pg_counted n j"
    "writer_alive j" "target = enqueued j" by (auto simp: stop_inv_def)
  let ?j = "writer_steps D 5 j"
  let ?s = "s\<lparr>process := (process s)\<lparr>eng := (eng (process s))\<lparr>journal := Some (?J, ?j)\<rparr>\<rparr>\<rparr>"
  obtain m where m: "m \<le> 5" "durable_exec D (replicate m Writer) s = Some ?s"
    using durable_writer_steps [OF i(2) assms(3), of 5] by blast
  have "drained ?j" using i(4) by (intro drains) (simp_all add: writer_alive_def)
  moreover have "pg_counted n ?j" using i(3) by (rule writer_steps_counted)
  ultimately have "done_count ?j = enqueued j" using i(3) by (simp add: pg_counted_def drained_def)
  then have "durable_next D FlushReturn ?s = Some (?s\<lparr>process := (process ?s)\<lparr>in_stop := False\<rparr>, flushing := None\<rparr>)"
    using assms(2,3) i(5) by (simp add: durable_next_def Let_def flush_returns_def)
  moreover have "matchingThread (eng (process s)) = not_joinable" using i(1) assms(2) by (simp add: durable_control_def Let_def)
  ultimately show ?thesis using m by (intro exI [of _ m]) (simp add: durable_exec_append)
qed

section \<open>The whole of stop\<close>

text \<open>\<open>stop()\<close> over a \<open>PostgresJournal\<close> returns, on every database. While a call of \<open>stop()\<close> is in progress on an
  engine that was started on a new journal, fresh or recovered: after at most one round of the matching
  thread more than commands wait, the \<open>join\<close>, and at most five steps of the writer the call has returned
  with no thread left, also when every transaction fails, unless a command ends the process before.\<close>

lemma durable_stop_returns:
  assumes "new_PostgresJournal D d = Inr j" and "journal e = Some (PostgresJournal_vtable D env, j)" and "stopped e"
    and "durable_run D (durable_start e) tr s" and "in_stop (process s)" and "terminated (process s) = None"
  shows "\<exists>n m s'. n \<le> length (waiting (process s)) + 1 \<and> m \<le> 5 \<and>
    (durable_exec D (replicate n (Sys (Round at_zero))) s = Some s' \<and> terminated (process s') \<noteq> None \<or>
     durable_exec D (replicate n (Sys (Round at_zero)) @ (if flushing s = None then [StopFlush] else []) @
       replicate m Writer @ [FlushReturn]) s = Some s' \<and>
     flushing s' = None \<and> \<not> in_stop (process s') \<and> matchingThread (eng (process s')) = not_joinable)"
proof (cases "flushing s")
  case None
  note inv = stop_inv_run [OF assms(4) stop_inv_start [OF assms(1-3)]]
  then have "control_inv (process s)" using None by (simp add: stop_inv_def durable_control_def Let_def)
  then obtain n p where n: "n \<le> length (waiting (process s)) + 1" "exec_labels (map Round (replicate n at_zero)) (process s) = Some p"
    "in_stop p" "terminated p \<noteq> None \<or> terminated p = None \<and> matchingThread (eng p) = finished"
    by (rule stop_drains [OF _ assms(5,6)])
  let ?s1 = "s\<lparr>process := p\<rparr>"
  have r1: "durable_exec D (replicate n (Sys (Round at_zero))) s = Some ?s1" using durable_rounds [OF n(2)] by simp
  show ?thesis
  proof (cases "terminated p")
    case (Some err)
    with n(1) r1 show ?thesis by (intro exI [of _ n] exI [of _ 0]) auto
  next
    case live: None
    have inv1: "stop_inv D env ?s1"
      using stop_inv_run [OF _ inv] r1 by (simp add: durable_run_iff)
    then obtain j1 where "journal (eng p) = Some (PostgresJournal_vtable D env, j1)" by (auto simp: stop_inv_def)
    with n(3,4) live None obtain s2 where s2: "durable_next D StopFlush ?s1 = Some s2" "flushing s2 \<noteq> None" "terminated (process s2) = None"
      by (auto simp: durable_next_def Let_def join_def)
    then obtain target where "flushing s2 = Some target" by auto
    from flush_part [OF stop_inv_step [OF inv1 s2(1)] this s2(3)] obtain m s3 where
      "m \<le> 5" "durable_exec D (replicate m Writer @ [FlushReturn]) s2 = Some s3" "flushing s3 = None"
      "\<not> in_stop (process s3)" "matchingThread (eng (process s3)) = not_joinable" by blast
    with n(1) r1 s2(1) None show ?thesis
      by (intro exI [of _ n] exI [of _ m] exI [of _ s3]) (simp add: durable_exec_append)
  qed
next
  case (Some target)
  from flush_part [OF stop_inv_run [OF assms(4) stop_inv_start [OF assms(1-3)]] Some assms(6)] obtain m s' where
    "m \<le> 5" "durable_exec D (replicate m Writer @ [FlushReturn]) s = Some s'" "flushing s' = None"
    "\<not> in_stop (process s')" "matchingThread (eng (process s')) = not_joinable" by blast
  with Some show ?thesis by (intro exI [of _ 0] exI [of _ m] exI [of _ s']) simp
qed

end
