(* ===== verification/Shutdown.thy ===== *)
theory Shutdown
  imports DurableStop PersistenceDemo
begin

text \<open>
  Shutting down an engine with both plug-ins, as at the end of a scope of \<open>demos/persistence_demo.cpp\<close>: \<open>Engine::stop\<close>,
  then the destructors of the engine, of \<open>RedisMarketData\<close> and of \<open>PostgresJournal\<close>. None of them waits for ever,
  whatever the database and the network do. A run of the engine with the journal alone can be made with both
  plug-ins, because nothing waits for the sink.
\<close>

section \<open>The destructors of the plug-ins\<close>

text \<open>Once it is told to stop, the writer commits what is queued, in at most one further batch, and leaves its loop.\<close>

lemma pg_exec_writer: "pg_exec D (replicate (Suc m) PgWriter @ ls) j =
    (case writer_step D j of None \<Rightarrow> None | Some j' \<Rightarrow> pg_exec D (replicate m PgWriter @ ls) j')"
  by (simp add: pg_next_def)

lemma writer_exits_Waiting:
  assumes "writer j = writer_pc.Waiting" and "pg_stopping j"
  shows "\<exists>m j'. m \<le> 4 \<and> pg_exec D (replicate m PgWriter @ [PgJoin]) j = Some j' \<and> eventQueue j' = [] \<and> tradeQueue j' = []"
proof (cases "eventQueue j = [] \<and> tradeQueue j = []")
  case True
  with assms have "writer_step D j = Some (j\<lparr>writer := writer_pc.Exited\<rparr>)" by (simp add: writer_step_def writer_take_def)
  with True show ?thesis
    by (intro exI [of _ "1 :: nat"] exI [of _ "j\<lparr>writer := writer_pc.Exited\<rparr>"]) (simp add: pg_next_def destroy_join_def)
next
  case False
  let ?j1 = "j\<lparr>eventQueue := [], tradeQueue := [], writer := Batch (eventQueue j) (tradeQueue j)\<rparr>"
  let ?j2 = "writer_commit D (eventQueue j) (tradeQueue j) ?j1"
  let ?j3 = "writer_count (length (eventQueue j) + length (tradeQueue j)) ?j2"
  have "writer_step D j = Some ?j1" "writer_step D ?j1 = Some ?j2" "writer_step D ?j2 = Some ?j3"
    using False assms by (auto simp: writer_step_def writer_take_def commit_frame)
  moreover have "writer_step D ?j3 = Some (?j3\<lparr>writer := writer_pc.Exited\<rparr>)"
    using assms(2) by (simp add: writer_step_def writer_take_def writer_count_def commit_frame)
  ultimately show ?thesis
    by (intro exI [of _ "4 :: nat"] exI [of _ "?j3\<lparr>writer := writer_pc.Exited\<rparr>"])
      (simp add: numeral_eq_Suc pg_next_def destroy_join_def, simp add: writer_count_def commit_frame)
qed

lemma journal_destructor_returns:
  assumes "writer j \<noteq> writer_pc.Exited"
  shows "\<exists>m j'. m \<le> 6 \<and> pg_run D j (PgDestroy # replicate m PgWriter @ [PgJoin]) j' \<and> eventQueue j' = [] \<and> tradeQueue j' = []"
proof -
  let ?j = "destroy_signal j"
  have s: "pg_stopping ?j" "writer ?j = writer j" by (simp_all add: destroy_signal_def)
  have "\<exists>m j'. m \<le> 6 \<and> pg_exec D (replicate m PgWriter @ [PgJoin]) ?j = Some j' \<and> eventQueue j' = [] \<and> tradeQueue j' = []"
  proof (cases "writer j")
    case Waiting
    with writer_exits_Waiting [of ?j D] s obtain m j' where "m \<le> 4" "pg_exec D (replicate m PgWriter @ [PgJoin]) ?j = Some j'"
      "eventQueue j' = []" "tradeQueue j' = []" by auto
    then show ?thesis by (intro exI [of _ m] exI [of _ j']) simp
  next
    case (Batch es ts)
    let ?j2 = "writer_count (length es + length ts) (writer_commit D es ts ?j)"
    have "writer_step D ?j = Some (writer_commit D es ts ?j)" "writer_step D (writer_commit D es ts ?j) = Some ?j2"
      using Batch s by (simp_all add: writer_step_def commit_frame)
    moreover have "writer ?j2 = writer_pc.Waiting" "pg_stopping ?j2" using s by (simp_all add: writer_count_def commit_frame)
    from writer_exits_Waiting [OF this, of D] obtain m j' where "m \<le> 4" "pg_exec D (replicate m PgWriter @ [PgJoin]) ?j2 = Some j'"
      "eventQueue j' = []" "tradeQueue j' = []" by auto
    ultimately show ?thesis by (intro exI [of _ "Suc (Suc m)"] exI [of _ j']) (simp add: pg_exec_writer del: replicate_Suc)
  next
    case (Counting n)
    then have "writer_step D ?j = Some (writer_count n ?j)" using s by (simp add: writer_step_def)
    moreover have "writer (writer_count n ?j) = writer_pc.Waiting" "pg_stopping (writer_count n ?j)" using s by (simp_all add: writer_count_def)
    from writer_exits_Waiting [OF this, of D] obtain m j' where "m \<le> 4"
      "pg_exec D (replicate m PgWriter @ [PgJoin]) (writer_count n ?j) = Some j'" "eventQueue j' = []" "tradeQueue j' = []" by auto
    ultimately show ?thesis by (intro exI [of _ "Suc m"] exI [of _ j']) (simp add: pg_exec_writer del: replicate_Suc)
  qed (use assms in simp)
  then obtain m j' where m: "m \<le> 6" "pg_exec D (PgDestroy # replicate m PgWriter @ [PgJoin]) j = Some j'"
    "eventQueue j' = []" "tradeQueue j' = []" by (auto simp: pg_next_def)
  from m(1,3,4) pg_exec_run [OF m(2)] show ?thesis by blast
qed

text \<open>The publisher sends what it has and then what is queued, or gives it up when the network fails, and leaves its loop.\<close>

lemma redis_exec_publisher: "redis_exec exec (replicate (Suc m) (Publisher net) @ ls) k =
    (case publisher_step exec net k of None \<Rightarrow> None | Some k' \<Rightarrow> redis_exec exec (replicate m (Publisher net) @ ls) k')"
  by (simp add: redis_next_def)

lemma send_frame:
  "publisher (publisher_send exec net batch k) = publisher_pc.Waiting"
  "msg_queue (publisher_send exec net batch k) = msg_queue k" "redis_stopping (publisher_send exec net batch k) = redis_stopping k"
  by (simp_all add: publisher_send_def Let_def split: prod.split)

lemma publisher_exits_Waiting:
  assumes "publisher k = publisher_pc.Waiting" and "redis_stopping k"
  shows "\<exists>m k'. m \<le> 3 \<and> redis_exec exec (replicate m (Publisher net) @ [Join]) k = Some k' \<and> msg_queue k' = []"
proof (cases "msg_queue k = []")
  case True
  with assms have "publisher_step exec net k = Some (k\<lparr>publisher := publisher_pc.Exited\<rparr>)"
    by (simp add: publisher_step_def publisher_take_def)
  with True show ?thesis
    by (intro exI [of _ "1 :: nat"] exI [of _ "k\<lparr>publisher := publisher_pc.Exited, ctx := no_context\<rparr>"])
      (simp add: redis_next_def redis_destroy_join_def)
next
  case False
  let ?k1 = "k\<lparr>msg_queue := [], publisher := Sending (msg_queue k)\<rparr>"
  let ?k2 = "publisher_send exec net (msg_queue k) ?k1"
  have "publisher_step exec net k = Some ?k1" "publisher_step exec net ?k1 = Some ?k2"
    using False assms by (simp_all add: publisher_step_def publisher_take_def)
  moreover have "publisher_step exec net ?k2 = Some (?k2\<lparr>publisher := publisher_pc.Exited\<rparr>)"
    using assms(2) by (simp add: publisher_step_def publisher_take_def send_frame)
  ultimately show ?thesis
    by (intro exI [of _ "3 :: nat"] exI [of _ "?k2\<lparr>publisher := publisher_pc.Exited, ctx := no_context\<rparr>"])
      (simp add: numeral_eq_Suc redis_next_def redis_destroy_join_def, simp add: send_frame)
qed

lemma sink_destructor_returns:
  assumes "publisher k \<noteq> publisher_pc.Exited"
  shows "\<exists>m k'. m \<le> 4 \<and> redis_run exec k (Destroy # replicate m (Publisher net) @ [Join]) k' \<and> msg_queue k' = []"
proof -
  let ?k = "redis_destroy_signal k"
  have s: "redis_stopping ?k" "publisher ?k = publisher k" by (simp_all add: redis_destroy_signal_def)
  have "\<exists>m k'. m \<le> 4 \<and> redis_exec exec (replicate m (Publisher net) @ [Join]) ?k = Some k' \<and> msg_queue k' = []"
  proof (cases "publisher k")
    case Waiting
    with publisher_exits_Waiting [of ?k exec net] s obtain m k' where "m \<le> 3"
      "redis_exec exec (replicate m (Publisher net) @ [Join]) ?k = Some k'" "msg_queue k' = []" by auto
    then show ?thesis by (intro exI [of _ m] exI [of _ k']) simp
  next
    case (Sending batch)
    let ?k1 = "publisher_send exec net batch ?k"
    have "publisher_step exec net ?k = Some ?k1" using Sending s by (simp add: publisher_step_def)
    moreover have "publisher ?k1 = publisher_pc.Waiting" "redis_stopping ?k1" using s by (simp_all add: send_frame)
    from publisher_exits_Waiting [OF this, of exec net] obtain m k' where "m \<le> 3"
      "redis_exec exec (replicate m (Publisher net) @ [Join]) ?k1 = Some k'" "msg_queue k' = []" by auto
    ultimately show ?thesis by (intro exI [of _ "Suc m"] exI [of _ k']) (simp add: redis_exec_publisher del: replicate_Suc)
  qed (use assms in simp)
  then obtain m k' where "m \<le> 4" "redis_exec exec (Destroy # replicate m (Publisher net) @ [Join]) k = Some k'" "msg_queue k' = []"
    by (auto simp: redis_next_def)
  then show ?thesis unfolding redis_run_iff by blast
qed

section \<open>The sink under an engine\<close>

text \<open>What every call of the sink keeps, a command keeps; what the publisher keeps as well, every step keeps.\<close>

lemma processCommand_sink_closed:
  fixes e :: "('j, 's, 'u) engine"
  assumes "\<And>t k. Q k \<Longrightarrow> Q (onTrade_op V t k)" and "\<And>hb b ha a k. Q k \<Longrightarrow> Q (onTopOfBook_op V hb b ha a k)"
    and "sink e = Some (V, k)" and "Q k"
  shows "\<exists>k'. sink (after (processCommand rd cmd e)) = Some (V, k') \<and> Q k'"
proof -
  have ts: "sink e = Some (V, k) \<Longrightarrow> Q k \<Longrightarrow> \<exists>k'. sink (foldl publishTrade e ts) = Some (V, k') \<and> Q k'"
    for e :: "('j, 's, 'u) engine" and k ts
  proof (induction ts arbitrary: e k)
    case (Cons t ts)
    have "sink (publishTrade e t) = Some (V, onTrade_op V t k)" using Cons.prems(1) by (simp add: engine_calls split: option.split)
    from Cons.IH [OF this assms(1) [OF Cons.prems(2)]] show ?case by simp
  qed simp
  have top: "sink e = Some (V, k) \<Longrightarrow> Q k \<Longrightarrow> \<exists>k'. sink (publishTop e) = Some (V, k') \<and> Q k'" for e :: "('j, 's, 'u) engine" and k
    using assms(2) by (simp add: publishTop_def sink_onTopOfBook_def Let_def)
  have "\<exists>k'. sink (publishTop (foldl publishTrade ((journal_append ev (e\<lparr>nextSeq := n\<rparr>))\<lparr>eng_book := b\<rparr>) ts)) = Some (V, k') \<and> Q k'"
    for ev n b ts
  proof -
    have "sink ((journal_append ev (e\<lparr>nextSeq := n\<rparr>))\<lparr>eng_book := b\<rparr>) = Some (V, k)" using assms(3) by (simp add: journal_append_def)
    from ts [OF this assms(4)] obtain k1 where
      "sink (foldl publishTrade ((journal_append ev (e\<lparr>nextSeq := n\<rparr>))\<lparr>eng_book := b\<rparr>) ts) = Some (V, k1)" "Q k1" by blast
    from top [OF this] show ?thesis .
  qed
  with assms(3,4) show ?thesis by (auto simp: processCommand_def Let_def journal_append_def split: sum.splits)
qed

lemma full_step_sink_closed:
  assumes "\<And>t k. Q k \<Longrightarrow> Q (onTrade_op V t k)" and "\<And>hb b ha a k. Q k \<Longrightarrow> Q (onTopOfBook_op V hb b ha a k)"
    and "\<And>net k k'. Q k \<Longrightarrow> publisher_step exec net k = Some k' \<Longrightarrow> Q k'"
    and "full_next D exec l s = Some s'" and "sink (eng (process s)) = Some (V, k)" and "Q k"
  shows "\<exists>k'. sink (eng (process s')) = Some (V, k') \<and> Q k'"
proof (cases l)
  case (Pub net)
  with assms(3-6) show ?thesis by (auto simp: full_next_def feed_next_def split: if_splits)
next
  case (On l')
  with assms(4) have n: "durable_next D l' s = Some s'" by (simp add: full_next_def)
  show ?thesis
  proof (cases l')
    case (Sys l2)
    with n obtain p where p: "sys_next l2 (process s) = Some p" "s' = s\<lparr>process := p\<rparr>"
      by (cases "l2 = StopJoin") (auto simp: durable_next_Sys durable_next_StopJoin)
    show ?thesis
    proof (cases "\<exists>rd. l2 = Round rd")
      case True
      then obtain rd where "sys_next (Round rd) (process s) = Some p" using p(1) by auto
      then show ?thesis
      proof (cases rule: round_cases)
        case break
        with assms(5,6) p(2) show ?thesis by simp
      next
        case (handle cmd q out)
        have "sink (eng (process s)\<lparr>incomingQueue := q\<rparr>) = Some (V, k)" using assms(5) by simp
        from processCommand_sink_closed [of Q V, OF assms(1,2) this assms(6), of rd cmd] handle(2,3) p(2) show ?thesis by auto
      qed
    next
      case False
      with caller_step_sink [OF p(1)] p(2) assms(5,6) show ?thesis by auto
    qed
  qed (use n assms(5,6) in \<open>auto simp: durable_next_def Let_def join_def split: if_splits option.splits thread_state.splits\<close>)
qed

definition publisher_alive :: "'r redis_sink \<Rightarrow> bool" where
  "publisher_alive k \<longleftrightarrow> \<not> redis_stopping k \<and> publisher k \<noteq> publisher_pc.Exited"

lemma publisher_step_alive: "publisher_alive k \<Longrightarrow> publisher_step exec net k = Some k' \<Longrightarrow> publisher_alive k'"
  by (auto simp: publisher_alive_def publisher_step_def publisher_take_def send_frame split: publisher_pc.splits if_splits)

lemma sink_calls_alive:
  assumes "publisher_alive k"
  shows "publisher_alive (onTrade_op (RedisMarketData_vtable exec env) t k)"
    "publisher_alive (onTopOfBook_op (RedisMarketData_vtable exec env) hb b ha a k)"
proof -
  have "publisher_alive k \<Longrightarrow> publisher_alive (publisher_rounds exec nets k)" for nets k
    by (induction nets arbitrary: k) (auto dest: publisher_step_alive split: option.split)
  moreover have "publisher_alive (redis_onTrade now t k)" "publisher_alive (redis_onTopOfBook hb b ha a k)" for now
    using assms by (simp_all add: publisher_alive_def redis_onTrade_def redis_onTopOfBook_def)
  ultimately show "publisher_alive (onTrade_op (RedisMarketData_vtable exec env) t k)"
    "publisher_alive (onTopOfBook_op (RedisMarketData_vtable exec env) hb b ha a k)"
    by (simp_all add: RedisMarketData_vtable_def publisher_meanwhile_def)
qed

lemma full_run_sink_alive:
  "full_run D exec s0 tr s \<Longrightarrow> sink (eng (process s0)) = Some (RedisMarketData_vtable exec env, k0) \<Longrightarrow> publisher_alive k0 \<Longrightarrow>
     \<exists>k. sink (eng (process s)) = Some (RedisMarketData_vtable exec env, k) \<and> publisher_alive k"
proof (induction rule: full_run.induct)
  case (step s0 tr s l s')
  then obtain k where "sink (eng (process s)) = Some (RedisMarketData_vtable exec env, k)" "publisher_alive k" by blast
  show ?case
    by (rule full_step_sink_closed [where Q = publisher_alive, OF _ _ _ step.hyps(2) \<open>sink (eng (process s)) = _\<close> \<open>publisher_alive k\<close>])
      (erule sink_calls_alive publisher_step_alive, assumption?)+
qed blast

section \<open>Runs of the engine with the journal alone\<close>

text \<open>A step of the smaller engine can be made by the engine with both plug-ins.\<close>

lemma on_step:
  assumes "durable_next D l (journal_side s) = Some t"
  shows "\<exists>s'. durable_next D l s = Some s' \<and> journal_side s' = t"
proof (cases l)
  case (Sys l2)
  with assms have l2: "l2 \<noteq> StopJoin" using durable_next_StopJoin by (metis option.distinct(1))
  with assms Sys obtain p where "sys_next l2 (process s) = Some p" "t = (journal_side s)\<lparr>process := view_system without_sink p\<rparr>"
    by (auto simp: durable_next_Sys no_sink.view_sys_next)
  with Sys l2 show ?thesis by (intro exI [of _ "s\<lparr>process := p\<rparr>"]) (simp add: durable_next_Sys journal_side_def)
next
  case StopFlush
  with assms show ?thesis
    by (auto simp: durable_next_def Let_def no_sink.view_join journal_side_def view_system_def split: if_splits option.splits)
next
  case FlushReturn
  with assms show ?thesis
    by (auto simp: durable_next_def Let_def journal_side_def view_system_def split: if_splits option.splits)
next
  case Writer
  with assms show ?thesis
    by (auto simp: durable_next_def Let_def journal_side_def view_system_def split: if_splits option.splits)
qed

lemma on_steps:
  "durable_exec D ls (journal_side s) = Some t \<Longrightarrow> \<exists>s'. full_exec D exec (map On ls) s = Some s' \<and> journal_side s' = t"
proof (induction ls arbitrary: s)
  case (Cons l ls)
  then obtain t1 where t1: "durable_next D l (journal_side s) = Some t1" "durable_exec D ls t1 = Some t"
    by (auto split: option.splits)
  from on_step [OF t1(1)] obtain s1 where "durable_next D l s = Some s1" "journal_side s1 = t1" by blast
  with Cons.IH [of s1] t1(2) show ?case by (auto simp: full_next_def)
qed simp

section \<open>Samples\<close>

text \<open>A world in which the database fails every batch and the network is down after the first connection, and a
  schedule up to a call of \<open>stop()\<close>.\<close>

definition no_network :: network where
  "no_network = \<lparr>reconnect_works = False, connect_gives = no_context, replies = 0, executed = 0\<rparr>"

definition failing_world :: "(pg_tables, string \<Rightarrow> string option) demo_world" where
  "failing_world =
     \<lparr>pg = bad_db, pgEnv = (\<lambda>_ _. (0, 0)), redis = map_server, redisEnv = (\<lambda>_ _. (0, [])), firstConnect = (\<lambda>_. good_network),
      orderClock = (\<lambda>_ _. 0), replayClock = (\<lambda>_. at_zero), drawn = (\<lambda>_. (SELL, 5, 100)), submissions = 1, seconds = 1,
      fp = (\<lambda>x. x)\<rparr>"

definition failing_stop :: "full_label list" where
  "failing_stop =
     [On (Sys Start), On (Sys (Submit (Some (limit_order 1 SELL 10 100)))), On (Sys (Round at_zero)), Pub no_network,
      On (Sys StopSignal), On Writer, On (Sys (Round at_zero))]"

text \<open>Once \<open>stop()\<close> has returned: the three destructors.\<close>

lemma journal_run_of_full:
  "full_run (pg W) (redis W) (durable_start (phase_engine W i j k)) tr s \<Longrightarrow>
   durable_run (pg W) (durable_start (pg_engine (pg W) (pgEnv W i) j None (None :: (unit imarket_data_sink \<times> unit) option) ()))
     (journal_steps tr) (journal_side s)"
  using full_run_sides [of "pg W" "redis W" "durable_start (phase_engine W i j k)" tr s] unfolding phase_engine_plugged
  by (simp add: sides_start) (simp add: durable_start_def)

lemma destructors_complete:
  assumes "new_PostgresJournal (pg W) d = Inr j" and "new_RedisMarketData net0 r = Inr k"
    and "full_run (pg W) (redis W) (durable_start (phase_engine W i j k)) tr s"
    and "\<not> in_stop (process s)" and "matchingThread (eng (process s)) = not_joinable"
  shows "Engine_destructor [] (process s) = Some True \<and>
     (\<exists>J j1 V k1. journal (eng (process s)) = Some (J, j1) \<and> sink (eng (process s)) = Some (V, k1) \<and>
        (\<exists>m j2. m \<le> 6 \<and> pg_run (pg W) j1 (PgDestroy # replicate m PgWriter @ [PgJoin]) j2 \<and>
           eventQueue j2 = [] \<and> tradeQueue j2 = []) \<and>
        (\<forall>net. \<exists>m k2. m \<le> 4 \<and> redis_run (redis W) k1 (Destroy # replicate m (Publisher net) @ [Join]) k2 \<and> msg_queue k2 = []))"
proof -
  let ?J = "PostgresJournal_vtable (pg W) (pgEnv W i)" and ?V = "RedisMarketData_vtable (redis W) (redisEnv W i)"
  let ?e = "pg_engine (pg W) (pgEnv W i) j None (None :: (unit imarket_data_sink \<times> unit) option) ()"
  have e: "journal ?e = Some (?J, j)" "stopped ?e" by simp_all
  have inv: "stop_inv (pg W) (pgEnv W i) (journal_side s)"
    by (rule stop_inv_run [OF journal_run_of_full [OF assms(3)] stop_inv_start [OF assms(1) e]])
  then obtain j1 where j1: "journal (eng (process s)) = Some (?J, j1)" "writer_alive j1"
    by (auto simp: stop_inv_def no_sink.view_fields)
  have "running (eng (process s)) = False"
    using inv assms(4,5) by (auto simp: stop_inv_def durable_control_def control_inv_def Let_def no_sink.view_fields split: if_splits)
  then have d: "Engine_destructor [] (process s) = Some True" using assms(4,5) by (auto simp: Engine_destructor_def)
  have "publisher_alive k"
    using assms(2) by (auto simp: new_RedisMarketData_def publisher_alive_def Let_def split: if_splits prod.splits)
  moreover have "sink (eng (process (durable_start (phase_engine W i j k)))) = Some (?V, k)"
    by (simp add: phase_engine_def durable_start_def setMarketDataSink_def)
  ultimately obtain k1 where k1: "sink (eng (process s)) = Some (?V, k1)" "publisher_alive k1"
    using full_run_sink_alive assms(3) by blast
  have "\<exists>m j2. m \<le> 6 \<and> pg_run (pg W) j1 (PgDestroy # replicate m PgWriter @ [PgJoin]) j2 \<and> eventQueue j2 = [] \<and> tradeQueue j2 = []"
    using j1(2) by (intro journal_destructor_returns) (simp add: writer_alive_def)
  moreover have "\<exists>m k2. m \<le> 4 \<and> redis_run (redis W) k1 (Destroy # replicate m (Publisher net) @ [Join]) k2 \<and> msg_queue k2 = []" for net
    using k1(2) by (intro sink_destructor_returns) (simp add: publisher_alive_def)
  ultimately show ?thesis using d j1(1) k1(1) by blast
qed

section \<open>Properties\<close>



end
