(* ===== verification/StaleRestart.thy ===== *)
theory StaleRestart
  imports CrashRecovery
begin

text \<open>
  A process that starts on a database with a log and does not call \<open>recover()\<close>. Its engine numbers commands
  from 1 again, the numbers are the primary keys of rows that exist, and every batch with an event fails as
  a whole. Nothing of this needs a healthy database.
\<close>

section \<open>Batches with old numbers\<close>

definition old_number :: "event_row list \<Rightarrow> journal_event \<Rightarrow> bool" where
  "old_number rows ev \<longleftrightarrow> sint (ev_seq ev) \<in> set (map row_seq rows)"

text \<open>The table of events is \<open>rows\<close>, and whatever is on the way to it has a number that is taken.\<close>

definition stale_journal :: "('d \<Rightarrow> pg_tables) \<Rightarrow> event_row list \<Rightarrow> 'd pg_journal \<Rightarrow> bool" where
  "stale_journal tables rows j \<longleftrightarrow> events_table (tables (database_state j)) = Some rows \<and>
     (\<forall>ev \<in> set (in_flight j @ eventQueue j). old_number rows ev)"

lemma sql_ins_trades_events:
  "sql_txn (map (\<lambda>t. ins_trade (trade_to_row t)) ts) T = Some T' \<Longrightarrow> events_table T' = events_table T"
  by (induction ts arbitrary: T) (auto split: option.splits)

lemma stale_batch:
  assumes "sql_txn (batch_statements es ts) T = Some T'" and "events_table T = Some rows" and "\<forall>ev \<in> set es. old_number rows ev"
  shows "es = []" "events_table T' = Some rows"
proof -
  show "es = []"
  proof (cases es)
    case (Cons ev es')
    have "sql (ins_event (event_to_row ev)) T = None" using assms(2,3) Cons by (simp add: old_number_def event_to_row_def)
    with assms(1) Cons show ?thesis by (simp add: batch_statements_def)
  qed
  with assms(1,2) show "events_table T' = Some rows" by (auto simp: batch_statements_def dest: sql_ins_trades_events)
qed

lemma stale_writer_step:
  assumes "database_laws D tables" and "stale_journal tables rows j" and "writer_step D j = Some j'"
  shows "stale_journal tables rows j'"
proof (cases "writer j")
  case (Batch es ts)
  from assms(2) Batch have j: "events_table (tables (database_state j)) = Some rows" "\<forall>ev \<in> set es. old_number rows ev"
    "\<forall>ev \<in> set (eventQueue j). old_number rows ev" by (simp_all add: stale_journal_def in_flight_def)
  have t: "events_table (tables (database_state j')) = Some rows"
  proof (cases "db_txn D (batch_statements es ts) (database_state j)")
    case (Returns d)
    with assms(1) have "sql_txn (batch_statements es ts) (tables (database_state j)) = Some (tables d)"
      unfolding database_laws_def by blast
    from stale_batch(2) [OF this j(1,2)] Returns assms(3) Batch show ?thesis by (auto simp: writer_step_def writer_commit_def Let_def)
  next
    case (Throws err d)
    with assms(1) have "tables d = tables (database_state j)" unfolding database_laws_def by blast
    with Throws j(1) assms(3) Batch show ?thesis by (auto simp: writer_step_def writer_commit_def Let_def)
  qed
  from assms(3) Batch have "j' = writer_commit D es ts j" by (simp add: writer_step_def)
  with t j(3) show ?thesis by (simp add: stale_journal_def in_flight_def commit_frame)
qed (use assms(2,3) in \<open>auto simp: stale_journal_def in_flight_def writer_step_def writer_take_def writer_count_def split: if_splits\<close>)

lemma stale_writer_steps: "database_laws D tables \<Longrightarrow> stale_journal tables rows j \<Longrightarrow> stale_journal tables rows (writer_steps D k j)"
  by (induction k arbitrary: j) (auto dest: stale_writer_step split: option.split)

lemma stale_calls:
  assumes "database_laws D tables" and "stale_journal tables rows j"
  shows "old_number rows ev \<Longrightarrow> stale_journal tables rows (append_op (PostgresJournal_vtable D env) ev j)"
    "stale_journal tables rows (recordTrade_op (PostgresJournal_vtable D env) t j)"
proof -
  have "stale_journal tables rows (pg_append ev j)" if "old_number rows ev"
    using assms(2) that by (auto simp: stale_journal_def pg_append_def in_flight_def)
  then show "old_number rows ev \<Longrightarrow> stale_journal tables rows (append_op (PostgresJournal_vtable D env) ev j)"
    using stale_writer_steps [OF assms(1)] by (simp add: PostgresJournal_vtable_def writer_meanwhile_def)
  have "stale_journal tables rows (pg_recordTrade (fst (env j)) t j)"
    using assms(2) by (simp add: stale_journal_def pg_recordTrade_def in_flight_def)
  then show "stale_journal tables rows (recordTrade_op (PostgresJournal_vtable D env) t j)"
    using stale_writer_steps [OF assms(1)] by (simp add: PostgresJournal_vtable_def writer_meanwhile_def)
qed

section \<open>The engine that numbers from 1\<close>

text \<open>\<open>n\<close> numbers are taken, \<open>cs\<close> commands were pushed so far.\<close>

definition stale_inv ::
  "'d database \<Rightarrow> 'd surroundings \<Rightarrow> ('d \<Rightarrow> pg_tables) \<Rightarrow> event_row list \<Rightarrow> nat \<Rightarrow> ('d pg_journal, 's, 'u) system \<Rightarrow> bool" where
  "stale_inv D env tables rows cs p \<longleftrightarrow>
     (\<exists>k j. nextSeq (eng p) = seq_no k \<and> k + length (waiting p) \<le> cs \<and>
        journal (eng p) = Some (PostgresJournal_vtable D env, j) \<and> stale_journal tables rows j)"

lemma publishTrades_stale:
  assumes "database_laws D tables"
  shows "journal e = Some (PostgresJournal_vtable D env, j) \<Longrightarrow> stale_journal tables rows j \<Longrightarrow>
    \<exists>j'. journal (foldl publishTrade e ts) = Some (PostgresJournal_vtable D env, j') \<and> stale_journal tables rows j'"
proof (induction ts arbitrary: e j)
  case (Cons t ts)
  have "journal (publishTrade e t) = Some (PostgresJournal_vtable D env, recordTrade_op (PostgresJournal_vtable D env) t j)"
    using Cons.prems(1) by simp
  from Cons.IH [OF this stale_calls(2) [OF assms Cons.prems(2)]] show ?case by simp
qed simp

lemma processCommand_stale:
  assumes "database_laws D tables" and "journal e = Some (PostgresJournal_vtable D env, j)" and "stale_journal tables rows j"
    and "nextSeq e = seq_no k" and "sint (seq_no k) \<in> set (map row_seq rows)"
  shows "\<exists>j'. journal (after (processCommand rd cmd e)) = Some (PostgresJournal_vtable D env, j') \<and> stale_journal tables rows j' \<and>
    nextSeq (after (processCommand rd cmd e)) = seq_no (Suc k)"
proof (cases "commandEvent (wall_now rd) cmd (nextSeq e)")
  case (Inl err)
  with assms show ?thesis by (simp add: processCommand_def Let_def seq_no_Suc)
next
  case (Inr ev)
  let ?J = "PostgresJournal_vtable D env" and ?e2 = "journal_append ev (e\<lparr>nextSeq := nextSeq e + 1\<rparr>)"
  have "old_number rows ev" using commandEvent_seq [OF Inr] assms(4,5) by (simp add: old_number_def)
  note j2 = stale_calls(1) [OF assms(1,3) this, of env]
  have "\<exists>j'. journal (foldl publishTrade (?e2\<lparr>eng_book := b\<rparr>) ts) = Some (?J, j') \<and> stale_journal tables rows j'" for b ts
    using assms(2) j2 by (intro publishTrades_stale [OF assms(1), of _ env "append_op ?J ev j"]) simp_all
  with Inr j2 assms(2,4) show ?thesis by (auto simp: processCommand_def Let_def seq_no_Suc split: sum.splits)
qed

lemma stale_sys_step:
  assumes "database_laws D tables" and "stale_inv D env tables rows cs p" and "sys_next l p = Some p'" and "l \<noteq> StopJoin"
    and "\<forall>k < cs. sint (seq_no k) \<in> set (map row_seq rows)"
  shows "stale_inv D env tables rows (cs + length (pushed [l])) p'"
proof (cases "\<exists>rd. l = Round rd")
  case True
  then obtain rd where l: "l = Round rd" "sys_next (Round rd) p = Some p'" using assms(3) by auto
  from assms(2) obtain k j where i: "nextSeq (eng p) = seq_no k" "k + length (waiting p) \<le> cs"
    "journal (eng p) = Some (PostgresJournal_vtable D env, j)" "stale_journal tables rows j" by (auto simp: stale_inv_def)
  from l(2) show ?thesis
  proof (cases rule: round_cases)
    case break
    with assms(2) l(1) show ?thesis by (auto simp: stale_inv_def)
  next
    case (handle cmd q out)
    have "journal (eng p\<lparr>incomingQueue := q\<rparr>) = Some (PostgresJournal_vtable D env, j)" "nextSeq (eng p\<lparr>incomingQueue := q\<rparr>) = seq_no k"
      using i(1,3) by simp_all
    moreover have "sint (seq_no k) \<in> set (map row_seq rows)" using assms(5) i(2) handle(1) by simp
    ultimately have "\<exists>j'. journal (after out) = Some (PostgresJournal_vtable D env, j') \<and> stale_journal tables rows j' \<and>
        nextSeq (after out) = seq_no (Suc k)" unfolding handle(2) using processCommand_stale [OF assms(1) _ i(4)] by blast
    with i(2) handle(1,3,4) l(1) show ?thesis by (auto simp: stale_inv_def intro!: exI [of _ "Suc k"])
  qed
next
  case False
  then have "\<And>rd. l \<noteq> Round rd" by blast
  with assms(3,4) have "nextSeq (eng p') = nextSeq (eng p)" "journal (eng p') = journal (eng p)"
    by (cases l; auto simp: sys_next_def submitOrder_def engine_cancelOrder_def stop_signal_def start_def join_def
        split: if_splits thread_state.splits)+
  with assms(2) caller_step_frame(6) [OF assms(3)] False show ?thesis by (auto simp: stale_inv_def)
qed

lemma stale_run:
  "durable_run D s0 tr s \<Longrightarrow> database_laws D tables \<Longrightarrow> stale_inv D env tables rows 0 (process s0) \<Longrightarrow>
     \<forall>k < length (pushed (sys_of tr)). sint (seq_no k) \<in> set (map row_seq rows) \<Longrightarrow>
     stale_inv D env tables rows (length (pushed (sys_of tr))) (process s)"
proof (induction rule: durable_run.induct)
  case (step s tr s' l s'')
  then have IH: "stale_inv D env tables rows (length (pushed (sys_of tr))) (process s')" by simp
  show ?case
  proof (cases l)
    case (Sys l')
    with step.hyps(2) obtain p where "l' \<noteq> StopJoin" "sys_next l' (process s') = Some p" "s'' = s'\<lparr>process := p\<rparr>"
      by (cases l') (auto simp: durable_next_def Let_def split: if_splits)
    with stale_sys_step [OF step.prems(1) IH] step.prems(3) Sys show ?thesis by simp
  next
    case Writer
    with step.hyps(2) IH stale_writer_step [OF step.prems(1)] show ?thesis
      by (auto simp: durable_next_def Let_def stale_inv_def split: if_splits)
  qed (use step.hyps(2) IH in \<open>auto simp: durable_next_def Let_def stale_inv_def join_def split: if_splits option.splits thread_state.splits\<close>)
qed simp

section \<open>Properties\<close>

text \<open>C21: a process that does not recover stores nothing. On a database with the log of the commands \<open>h\<close>, a new engine
  that is started without \<open>recover()\<close> and is given at most as many commands leaves the table of events as it
  was, in every interleaving and however the process ends: the batches are dropped, and the next recovery
  rebuilds \<open>h\<close> without any of the new commands.\<close>

theorem restart_without_recover_stores_nothing:
  assumes "database_laws D tables" and "holds_log (tables d) h" and "new_PostgresJournal D d = Inr j"
    and "durable_run D (durable_start (pg_engine D env j f k u)) tr s" and "length (pushed (sys_of tr)) \<le> length h"
    and "database_of s = Some d'"
  shows "\<exists>evs. journaled 0 h evs \<and> events_table (tables d') = Some (map event_to_row evs) \<and>
    events_table (with_schema (tables d)) = Some (map event_to_row evs)"
proof -
  from assms(2) obtain evs trows where T: "journaled 0 h evs"
    "with_schema (tables d) = \<lparr>events_table = Some (map event_to_row evs), trades_table = Some trows\<rparr>"
    by (auto simp: holds_log_def)
  let ?rows = "map event_to_row evs"
  have "set (map row_seq ?rows) = sint ` set (map ev_seq evs)" by (simp add: event_to_row_def image_image)
  also have "\<dots> = sint ` seq_no ` {0..<length h}" using journaled_numbers [OF T(1)] by simp
  finally have keys: "\<forall>k < length (pushed (sys_of tr)). sint (seq_no k) \<in> set (map row_seq ?rows)" using assms(5) by auto
  have "stale_journal tables ?rows j"
    using new_journal_tables [OF assms(1,3)] T(2) by (simp add: stale_journal_def in_flight_def)
  then have "stale_inv D env tables ?rows 0 (process (durable_start (pg_engine D env j f k u)))"
    by (auto simp: stale_inv_def durable_start_def seq_no_def new_queue_def intro!: exI [of _ 0])
  from stale_run [OF assms(4,1) this keys] assms(6) have "events_table (tables d') = Some ?rows"
    by (auto simp: stale_inv_def stale_journal_def database_of_def)
  with T show ?thesis by auto
qed

text \<open>A process that has stopped cleanly, and a second one that does not recover and is stopped cleanly.\<close>

definition sample_again :: "durable_label list" where
  "sample_again =
     [Sys Start, Sys (Submit (Some (limit_order 7 BUY 3 90))), Sys StopSignal, Sys (Round at_zero), Sys (Round at_zero),
      StopFlush, Writer, Writer, Writer, FlushReturn]"

theorem restart_without_recover_stores_nothing_witness:
  "\<exists>s d j s' d' evs. durable_run good_db sample_process (sample_stop @ [FlushReturn]) s \<and> database_of s = Some d \<and>
     new_PostgresJournal good_db d = Inr j \<and>
     durable_run good_db (durable_start (pg_engine good_db (\<lambda>_. (0, 0)) j None None ())) sample_again
       (s' :: (pg_tables, unit, unit) durable) \<and> database_of s' = Some d' \<and> waiting (process s') = [] \<and>
     length evs = 2 \<and> events_table d' = Some (map event_to_row evs)"
proof -
  let ?w = "\<lambda>_. (0, 0)" and ?start = "\<lambda>j. durable_start (pg_engine good_db (\<lambda>_. (0, 0)) j None None ()) :: (pg_tables, unit, unit) durable"
  have "case durable_exec good_db (sample_stop @ [FlushReturn]) sample_process of None \<Rightarrow> False | Some s \<Rightarrow>
      waiting (process s) = [] \<and> length (tradeLog (eng (process s))) = 1 \<and>
      (case database_of s of None \<Rightarrow> False | Some d \<Rightarrow>
      (case new_PostgresJournal good_db d of Inl _ \<Rightarrow> False | Inr j \<Rightarrow>
      (case durable_exec good_db sample_again (?start j) of None \<Rightarrow> False | Some s' \<Rightarrow>
        database_of s' \<noteq> None \<and> waiting (process s') = [])))" by code_simp
  then obtain s d j s' d' where r: "durable_run good_db sample_process (sample_stop @ [FlushReturn]) s" "database_of s = Some d"
    "new_PostgresJournal good_db d = Inr j" "durable_run good_db (?start j) sample_again s'" "database_of s' = Some d'"
    "waiting (process s') = []" "waiting (process s) = []" "length (tradeLog (eng (process s))) = 1"
    by (auto simp: durable_run_iff simp del: durable_exec.simps split: option.splits sum.splits)
  obtain s1 where s1: "durable_run good_db sample_process sample_stop s1" "durable_next good_db FlushReturn s1 = Some s"
    using r(1) by (cases rule: durable_run.cases) auto
  have "durable_inv good_db ?w (\<lambda>d. d) [] (pushed (sys_of sample_stop)) s1"
    using durable_run_inv [OF s1(1) good_db_laws pg_start [OF good_db_laws sample_holds_log sample_journal_new(1)]]
    by (simp add: sample_factory)
  moreover have "length (pushed (sys_of sample_stop)) + length (tradeLog (eng (process s1))) < 2 ^ 64"
    using s1(2) r(8) by (auto simp: sample_factory durable_next_def Let_def split: if_splits option.splits)
  ultimately have h: "holds_log d (pushed (sys_of sample_stop))"
    using r(2,7) s1(2) by (auto elim!: flushed_left_on_disk)
  have "length (pushed (sys_of sample_again)) \<le> length (pushed (sys_of sample_stop))"
    by (simp add: sample_factory) (simp add: sample_again_def)
  from restart_without_recover_stores_nothing [OF good_db_laws(1) h r(3,4) this r(5)] obtain evs where
    e: "journaled 0 (pushed (sys_of sample_stop)) evs" "events_table d' = Some (map event_to_row evs)" by blast
  have "length evs = 2" using arg_cong [OF journaled_numbers [OF e(1)], of length] by (simp add: sample_factory)
  with e(2) r show ?thesis by (intro exI conjI) assumption+
qed

end
