(* ===== verification/Spec2Isabelle.thy ===== *)
theory Spec2Isabelle
  imports PersistenceProps ConcurrencyMain Trader VwapError TestSuite BenchmarkReport Shutdown StaleRestart
begin

text \<open>
  A verification library for a limit order matching engine in C++.

  \<^bold>\<open>The program.\<close> Callers build orders with \<open>OrderFactory\<close> and hand them, or the ids of orders to cancel, to
  an \<open>Engine\<close>. Both become \<open>Command\<close>s in a \<open>ThreadSafeQueue\<close>. One matching thread takes the commands from
  the queue, writes each to a journal (\<open>IJournal\<close>), applies it to the \<open>OrderBook\<close> and reports the trades and
  the new top of book to a trade log, the journal, a market-data sink (\<open>IMarketDataSink\<close>) and a callback.
  After a restart \<open>Engine::recover\<close> replays the journal. \<open>PostgresJournal\<close> and \<open>RedisMarketData\<close> implement
  the two interfaces with a background thread each. A lock-free queue, an object pool, traders and stocks,
  an example program, three demos (concurrent submission and queue hand-off, persistence and recovery,
  a vectorised average price), a benchmark program and a test suite complete the repository.

  \<^bold>\<open>Theories, and what they model.\<close>
  \<^item> \<open>Prelude\<close>: outcomes of C++ calls (thrown exceptions, undefined behaviour), doubles, the range of \<open>int\<close>,
    and the lemmas and fact collections the other theories share.
  \<^item> \<open>StdMap\<close>: \<open>std::map\<close> as a list sorted by its comparator, with the locale \<open>key_order\<close> for the comparators
    of the two sides of the book.
  \<^item> \<open>Orders\<close> (\<open>Types.h\<close>, \<open>Order\<close>, \<open>LimitOrder\<close>, \<open>MarketOrder\<close>, \<open>OrderFactory\<close>, \<open>Trade.h\<close>): orders as
    records with the dynamic type as a field; the factory and its validation.
  \<^item> \<open>OrderBook\<close> (\<open>OrderBook.h\<close>, \<open>OrderBook.cpp\<close>): price levels, ownership map and location index, and every
    operation. A pointer is the key of the entry that owns the object; using one that dangles is an
    explicit branch with undefined behaviour. \<open>PriceTime\<close> is the abstract specification of price-time
    priority, \<open>BookInvariant\<close> the representation invariant and the abstraction function, \<open>BookSpec\<close> the
    refinement, \<open>BookProps\<close> the properties, with the matching loop cut off after a number of rounds.
  \<^item> \<open>FifoSpec\<close>: the contract of a queue as the locale \<open>fifo\<close>, discharged by \<open>ThreadSafeQueue\<close>
    (\<open>ThreadSafeQueue.h\<close>) and by \<open>LockFreeSPSCQueue\<close> (\<open>LockFreeSPSCQueue.h\<close>).
  \<^item> \<open>Journal\<close> (\<open>JournalEvent.h\<close>, \<open>IJournal.h\<close>, \<open>IMarketDataSink.h\<close>): events, the two interfaces as records
    of their virtual functions, the implementations of the headers, and the locales \<open>event_log\<close> (what an
    append, a recorded trade and a flush do to the log a journal stands for), \<open>wal\<close> (which can also be
    read back) and \<open>trade_record\<close> (which also keeps a row per recorded trade), with the interpretation on
    \<open>InMemoryJournal\<close>.
  \<^item> \<open>ClockFree\<close>: every operation of the book commutes with forgetting the time stamps.
  \<^item> \<open>Engine\<close> (\<open>Command.h\<close>, \<open>Engine.h\<close>, \<open>Engine.cpp\<close>): the engine object, the work on one command, start
    and stop, recovery. \<open>EngineRun\<close> has the interleaving of submitting threads, controlling thread and
    matching thread and the sequential specification, \<open>EngineInvariants\<close> the invariants of runs and what a
    run looks like around \<open>stop()\<close>, \<open>EngineProps\<close> the properties of runs, \<open>Recovery\<close> those of replay,
    \<open>TradeBound\<close> how many trades there can be.
    \<open>EngineSession\<close> has the sessions the programs of the repository run (start, calls, stop, in any
    interleaving), the destructor, and that a session can always be finished.
  \<^item> \<open>PgDatabase\<close> (the SQL of \<open>PostgresJournal.cpp\<close>): encodings, rows, statements and what they do to the two
    tables. The database is a parameter; \<open>database_laws\<close> states its documented behaviour (a transaction that
    returns has had the effect of its statements, one that throws none), and \<open>healthy\<close> that a transaction
    whose statements can be executed does not fail. \<open>PostgresJournal\<close> (\<open>persistence/\<close>) has the queues, the
    counters, the writer thread and \<open>flush\<close>.
  \<^item> \<open>DurableEngine\<close>: an engine over a \<open>PostgresJournal\<close>, with the matching thread, the writer thread, the
    callers and a blocking \<open>flush()\<close> in \<open>stop()\<close> interleaved; the journal interprets \<open>event_log\<close>.
    The writer thread may also run between the accesses of a call of the matching thread to the journal.
    \<open>CrashRecovery\<close>: what a process leaves in the database at any moment, and the next process on it.
    \<open>TradeTable\<close>: the table of trades against the trade log, by an interpretation of \<open>trade_record\<close>.
    \<open>JournalCounters\<close>: the counters of the journal against the tables, on any database; the journal of a process goes
    through a run of its own. \<open>DurableStop\<close>: \<open>stop()\<close> over any database. \<open>StaleRestart\<close>: a process that starts on an old database
    without recovering.
  \<^item> \<open>RedisMarketData\<close> (\<open>persistence/\<close>): messages, publisher thread, reconnecting, with network and server as
    parameters (\<open>redis_laws\<close>). \<open>MarketFeed\<close>: an engine whose sink it is, with the publisher thread interleaved.
  \<^item> \<open>PlugIns\<close>: an engine with both plug-ins, all four threads interleaved. The locale \<open>engine_view\<close> states what
    it takes to forget one of them; the two interpretations project a run to one of \<open>DurableEngine\<close> and one of
    \<open>MarketFeed\<close>, so that what is proved there holds of it. \<open>Shutdown\<close>: \<open>stop()\<close> and the destructors of engine, sink and journal.
  \<^item> \<open>Handoff\<close>, \<open>ConcurrencyDemo\<close> and \<open>ConcurrencyMain\<close> (\<open>demos/concurrency_demo.cpp\<close>), \<open>PersistenceDemo\<close> and
    \<open>PersistenceProps\<close> (\<open>demos/persistence_demo.cpp\<close>, all of \<open>main\<close> with the destruction of its objects), \<open>Vwap\<close> and \<open>VwapError\<close> (\<open>demos/simd_demo.cpp\<close>), \<open>Scenarios\<close> (\<open>main.cpp\<close>),
    \<open>ObjectPool\<close>, \<open>Trader\<close> (with \<open>Stock\<close>).
  \<^item> \<open>TestSuite\<close> (\<open>tests/TestFramework.h\<close>, \<open>tests/tests.cpp\<close>): the runner and the eighteen tests under their names.
    \<open>Benchmarks\<close> (\<open>benchmarks/benchmark.cpp\<close>): the harness, the workloads and the numbers of the report;
    \<open>BenchmarkReport\<close>: \<open>main\<close> and its output, with the state the manipulators leave in the stream.

  \<^bold>\<open>What is proved.\<close>
  \<^item> The book: \<open>addOrder\<close> and \<open>cancelOrder\<close> refine price-time priority and keep the invariant; no call on a
    reachable book has undefined behaviour; the book is never crossed; trades follow priority, respect
    limits and conserve quantities; market orders never rest; the best prices are the best; the matching
    loop ends; every order in the containers is a live limit order where the index says it is.
  \<^item> The engine: in every interleaving book and trade log are those of a prefix of the pushed commands
    applied in push order; the log is ahead of the book with consecutive numbers; the process is not
    terminated when submitted orders are well formed with distinct ids; \<open>stop()\<close> returns with the queue
    drained; recovery rebuilds the engine up to time stamps and the rebuilt engine continues the
    history; a duplicate active id terminates the process and leaves a log that cannot be replayed; trades, resting
    orders and waiting submits are together never more than the orders submitted.
  \<^item> The queues are first-in first-out, the lock-free one under every interleaving of the accesses of its
    two threads, without out-of-range access or a cell used by both at once.
  \<^item> The journal in PostgreSQL: \<open>flush()\<close> returns, and is a durability checkpoint on a healthy database; a
    failed batch is dropped and counted as done; the counters of written events and trades are exact on every
    database, and tell with \<open>done\<close> how much was lost. The publisher to Redis sends in order and keeps the
    cached keys current on a healthy network; with an engine behind it, the keys show the best prices of
    the book and the last trade once the publisher has caught up.
  \<^item> Engine and database together, on a healthy database: when a process is lost at any moment, the database
    holds a prefix of the pushed commands and the next process recovers the engine of that prefix; after
    \<open>stop()\<close> nothing is lost; over any number of lifetimes the next engine is that of all commands of the
    processes that were stopped cleanly and of prefixes of those of the others, in order. The table of trades
    follows the trade log of the process, but a fill whose event was stored and whose row was lost in a
    crash is in the recovered trade log and never in the table. Shutting down with both plug-ins, \<open>stop()\<close> and the
    destructors, comes to an end on any database, also one that fails every transaction, and on any network.
    With Redis behind the engine as well, neither plug-in has an effect on the other,
    and after a clean stop the keys in Redis agree with the engine that the next process recovers. A process that does not recover starts at number 1 again, and all its
    events are discarded as long as their numbers are in the table.
  \<^item> The demos: concurrent traders get every order handled once and the demo prints equal counts; the hand-off through either queue delivers
    everything and cannot get stuck; the persistence demo, whatever Redis does once it is connected, recovers
    and prints what its comments expect with exact counters, has all orders of its last phase in the database
    at the end, and fails on a database without the tables;
    the check of the average-price demo succeeds for every input in its ranges, by a bound on the rounding
    errors of either routine against the exact average.
  \<^item> The tests pass, whatever the clocks show and however the threads interleave; the benchmark program
    returns a report whose percentiles are ascending and whose recovery replays every order, and prints all its
    numbers in fixed notation.
  \<^item> The pool hands out only free slots and loses one per throwing constructor; holdings never go
    negative; the two average-price routines agree on integers; the example program prints what it says.

  \<^bold>\<open>Choices and bounds.\<close> The matching loop is a total function: every round either removes a resting order
  or leaves the incoming one with nothing (\<open>match_measure\<close>). No definition uses fuel, except that
  \<open>writer_steps\<close> runs a given number of steps, of which five are proved enough, and \<open>match_rounds\<close> a given number
  of rounds, of which twice the number of resting orders and two are proved enough. Waiting on a condition
  variable or in \<open>join\<close> is a step that is not enabled, and the liveness properties show that it becomes
  enabled. Ids and sequence numbers are 64-bit words; statements that need the counters not to wrap say so.
  Quantities are integers with the range of \<open>int\<close> checked at every subtraction and addition. Clock readings
  are arguments, arbitrary in every statement. Prices are compared and copied only, so a finite double is
  the rational it denotes. Threads interleave sequentially consistently at the accesses to shared state.

  \<^bold>\<open>Not modelled.\<close> The characters of the console output (lines and items are modelled, the digits of doubles are
  not), log lines on stderr, the memory orderings of atomics beyond sequential consistency, allocation failure,
  and the passing of time: measured durations are arguments. Random numbers are arguments restricted to the
  ranges of their distributions.

  \<^bold>\<open>Left out for good.\<close> Weak memory (the acquire and release orderings of the lock-free queue and of \<open>running_\<close>): the
  sources rely on the C++ memory model, for which the library has no theory. Allocation failure: no path of the
  program handles it. The rendering of doubles by streams: it has no effect on the state; the SQL and Redis encodings,
  which have, are modelled.
\<close>

end
